(* ===== verification/Prelude.thy ===== *)
theory Prelude
  imports Main "HOL-Library.Word" "HOL-Library.State_Monad"
begin

unbundle bit_operations_syntax

text \<open>
  Shared vocabulary of the development: Go's scalar types, errors and their wrapping,
  byte strings, big-endian integers, and the weakest-precondition calculus for the
  world-passing code of the cache (HOL-Library.State_Monad).

  Conventions.  A Go \<open>string\<close> is a HOL \<^typ>\<open>string\<close>: both are sequences of bytes.
  A \<open>[]byte\<close> is a list of 8-bit words, \<open>uint64\<close> is \<open>64 word\<close> (its \<open>+\<close> wraps, as Go's does).
  \<open>time.Time\<close> is the number of nanoseconds since the Unix epoch as an \<^typ>\<open>int\<close>, and a
  \<open>time.Duration\<close> is an \<^typ>\<open>int\<close> in the range of a signed 64-bit integer; arithmetic that can
  leave this range goes through \<open>wrap64\<close> (Go's wrap-around) or \<open>sat64\<close> (\<open>Time.Sub\<close> saturates).
\<close>

section \<open>Scalars\<close>

type_synonym byte = "8 word"
type_synonym bytes = "8 word list"
type_synonym u64 = "64 word"
type_synonym time = int
type_synonym duration = int

definition wrap64 :: "int \<Rightarrow> int" where
  "wrap64 i = sint (word_of_int i :: u64)"

definition max_int64 :: int where
  "max_int64 = 2 ^ 63 - 1"

definition min_int64 :: int where
  "min_int64 = - (2 ^ 63)"

definition in_int64 :: "int \<Rightarrow> bool" where
  "in_int64 i \<longleftrightarrow> min_int64 \<le> i \<and> i \<le> max_int64"

definition sat64 :: "int \<Rightarrow> int" where
  "sat64 i = (if i < min_int64 then min_int64 else if i > max_int64 then max_int64 else i)"

lemma wrap64_in_int64: "in_int64 (wrap64 i)"
  using sint_greater_eq [of "word_of_int i :: u64"] sint_less [of "word_of_int i :: u64"]
  by (simp add: wrap64_def in_int64_def max_int64_def min_int64_def)

lemma wrap64_id: "in_int64 i \<Longrightarrow> wrap64 i = i"
  by (simp add: wrap64_def in_int64_def max_int64_def min_int64_def signed_of_int signed_take_bit_int_eq_self)

lemma wrap64_idem [simp]: "wrap64 (wrap64 i) = wrap64 i"
  by (rule wrap64_id [OF wrap64_in_int64])

lemma sat64_id: "in_int64 i \<Longrightarrow> sat64 i = i"
  by (simp add: sat64_def in_int64_def)

lemma sat64_le: "min_int64 \<le> i \<Longrightarrow> sat64 i \<le> i"
  by (simp add: sat64_def)

section \<open>Errors\<close>

text \<open>
  An error is a sentinel (a package-level \<open>errors.New\<close> variable, identified by its name) or
  an error built by \<open>fmt.Errorf\<close> or \<open>errors.Join\<close> around the errors it wraps.  The message is
  kept as its format string, without the arguments.  A panic that leaves a function is the value
  \<open>Panic\<close> of the same type: like an error it ends the call and everything that called it, and no
  code of the repository turns it into a result except where a \<open>recover\<close> is modelled.
\<close>

datatype error = Sentinel string | Wrap string "error list" | Panic string

type_synonym 'a result = "error + 'a"

fun errors_Is :: "error \<Rightarrow> error \<Rightarrow> bool" where
  "errors_Is (Sentinel s) t = (t = Sentinel s)"
| "errors_Is (Wrap m es) t = (t = Wrap m es \<or> (\<exists>e \<in> set es. errors_Is e t))"
| "errors_Is (Panic m) t = (t = Panic m)"

definition errors_New :: "string \<Rightarrow> error" where
  "errors_New m = Wrap m []"

text \<open>\<open>errors.Join\<close> drops the nil errors and is nil when none is left.\<close>

definition errors_Join :: "error option list \<Rightarrow> error option" where
  "errors_Join es = (case List.map_filter id es of [] \<Rightarrow> None | xs \<Rightarrow> Some (Wrap ''join'' xs))"

lemma errors_Is_refl [simp]: "errors_Is e e"
  by (cases e) auto

lemma errors_Is_Wrap_hd [simp]: "errors_Is e t \<Longrightarrow> errors_Is (Wrap m (e # es)) t"
  by simp

lemma errors_Join_None_iff: "errors_Join es = None \<longleftrightarrow> (\<forall>e \<in> set es. e = None)"
  by (induction es) (auto simp: errors_Join_def List.map_filter_def split: list.splits)

lemma errors_Join_Is:
  "Some e \<in> set es \<Longrightarrow> errors_Is e t \<Longrightarrow> \<exists>j. errors_Join es = Some j \<and> errors_Is j t"
proof -
  assume mem: "Some e \<in> set es" and is_t: "errors_Is e t"
  let ?xs = "List.map_filter id es"
  have e: "e \<in> set ?xs" using mem by (force simp: List.map_filter_def image_iff)
  then have "errors_Join es = Some (Wrap ''join'' ?xs)"
    by (auto simp: errors_Join_def split: list.splits)
  moreover have "errors_Is (Wrap ''join'' ?xs) t" using e is_t by auto
  ultimately show ?thesis by blast
qed

section \<open>Lists\<close>

lemma drop_plus: "drop (m + n) xs = drop n (drop m xs)"
  by (simp add: add.commute)

lemma take_plus: "take (m + n) xs = take m xs @ take n (drop m xs)"
  by (rule take_add)

lemma list_eq_8:
  "length xs = 8 \<Longrightarrow> \<exists>a b c d e f g h. xs = [a, b, c, d, e, f, g, h]"
  by (auto simp: length_Suc_conv eval_nat_numeral)

section \<open>Strings and bytes\<close>

definition byte_of_char :: "char \<Rightarrow> byte" where
  "byte_of_char c = word_of_nat (of_char c)"

definition char_of_byte :: "byte \<Rightarrow> char" where
  "char_of_byte b = char_of (unat b)"

text \<open>The conversions \<open>[]byte(s)\<close> and \<open>string(b)\<close>.\<close>

definition bytes_of :: "string \<Rightarrow> bytes" where
  "bytes_of s = map byte_of_char s"

definition string_of :: "bytes \<Rightarrow> string" where
  "string_of bs = map char_of_byte bs"

lemma unat_byte_of_char: "unat (byte_of_char c) = of_char c"
proof -
  have "(of_char c :: nat) < 256" by simp
  then show ?thesis by (simp add: byte_of_char_def unat_of_nat take_bit_nat_eq_self)
qed

lemma char_of_byte_of_char [simp]: "char_of_byte (byte_of_char c) = c"
  by (simp add: char_of_byte_def unat_byte_of_char)

lemma byte_of_char_of_byte [simp]: "byte_of_char (char_of_byte b) = b"
proof -
  have "unat b < 256" by (rule order_less_le_trans [OF unsigned_less]) simp
  then have "(of_char (char_of (unat b)) :: nat) = unat b" by simp
  then show ?thesis by (simp add: byte_of_char_def char_of_byte_def)
qed

lemma string_of_bytes_of [simp]: "string_of (bytes_of s) = s"
  by (induction s) (simp_all add: string_of_def bytes_of_def)

lemma bytes_of_string_of [simp]: "bytes_of (string_of bs) = bs"
  by (induction bs) (simp_all add: string_of_def bytes_of_def)

lemma length_bytes_of [simp]: "length (bytes_of s) = length s"
  by (simp add: bytes_of_def)

lemma length_string_of [simp]: "length (string_of bs) = length bs"
  by (simp add: string_of_def)

section \<open>encoding/binary: big-endian uint64\<close>

text \<open>\<open>AppendUint64(b, v)\<close> appends these eight bytes.\<close>

definition be64 :: "u64 \<Rightarrow> bytes" where
  "be64 v = [ucast (drop_bit 56 v), ucast (drop_bit 48 v), ucast (drop_bit 40 v),
     ucast (drop_bit 32 v), ucast (drop_bit 24 v), ucast (drop_bit 16 v),
     ucast (drop_bit 8 v), ucast v]"

text \<open>\<open>Uint64(b)\<close> reads the first eight bytes; Go panics on fewer, and every caller checks first.\<close>

definition un_be64 :: "bytes \<Rightarrow> u64" where
  "un_be64 b = ucast (b ! 7) OR push_bit 8 (ucast (b ! 6)) OR push_bit 16 (ucast (b ! 5))
     OR push_bit 24 (ucast (b ! 4)) OR push_bit 32 (ucast (b ! 3))
     OR push_bit 40 (ucast (b ! 2)) OR push_bit 48 (ucast (b ! 1)) OR push_bit 56 (ucast (b ! 0))"

lemma length_be64 [simp]: "length (be64 v) = 8"
  by (simp add: be64_def)

text \<open>The bits of the decoded integer, byte by byte: both round trips follow from this.\<close>

lemma un_be64_8:
  "un_be64 [a, b, c, d, e, f, g, h] = ucast h OR push_bit 8 (ucast g)
     OR push_bit 16 (ucast f) OR push_bit 24 (ucast e) OR push_bit 32 (ucast d)
     OR push_bit 40 (ucast c) OR push_bit 48 (ucast b) OR push_bit 56 (ucast a)"
  by (simp add: un_be64_def)

lemma bit_un_be64:
  "bit (un_be64 [a, b, c, d, e, f, g, h]) n \<longleftrightarrow>
   (if n < 8 then bit h n else if n < 16 then bit g (n - 8) else if n < 24 then bit f (n - 16)
    else if n < 32 then bit e (n - 24) else if n < 40 then bit d (n - 32)
    else if n < 48 then bit c (n - 40) else if n < 56 then bit b (n - 48)
    else if n < 64 then bit a (n - 56) else False)"
  by (simp only: un_be64_8 bit_or_iff bit_push_bit_iff bit_ucast_iff)
    (auto dest: bit_imp_le_length)

lemma un_be64_be64 [simp]: "un_be64 (be64 v) = v"
  by (rule bit_word_eqI)
    (simp only: be64_def bit_un_be64, simp only: bit_ucast_iff bit_drop_bit_eq o_def, auto)

lemma un_be64_append [simp]: "length b = 8 \<Longrightarrow> un_be64 (b @ c) = un_be64 b"
  by (simp add: un_be64_def nth_append)

lemma un_be64_take: "8 \<le> length b \<Longrightarrow> un_be64 b = un_be64 (take 8 b)"
  by (simp add: un_be64_def)

lemma be64_un_be64_8: "be64 (un_be64 [a, b, c, d, e, f, g, h]) = [a, b, c, d, e, f, g, h]"
  unfolding be64_def list.inject
  by (intro conjI bit_word_eqI refl;
      simp only: bit_ucast_iff bit_drop_bit_eq o_def bit_un_be64; auto)

lemma be64_un_be64 [simp]: "length b = 8 \<Longrightarrow> be64 (un_be64 b) = b"
  using be64_un_be64_8 list_eq_8 [of b] by auto

end
