(* ===== verification/Singleflight.thy ===== *)
theory Singleflight
  imports Prelude
begin

text \<open>
  \<open>internal/singleflight/singleflight.go\<close> as a transition system.  A state holds the group's map, the
  \<open>call\<close> objects by reference, and the callers of \<open>Do\<close>; an action is one block of a goroutine that no
  other goroutine can interrupt (a critical section, a channel operation, the return of the loader),
  or an event of the environment (a caller's context ends, a load's timer fires).  Every interleaving
  of goroutines is a list of actions.  \<open>Group\<close> is used at \<open>T = []byte\<close>, with zero value \<open>[]\<close>.
\<close>

section \<open>State\<close>

text \<open>Where the goroutine of \<open>run\<close> is: in \<open>fn\<close>, then at its deferred calls, in the order they run.\<close>

datatype run_pc = Running | Ran | Closed | Forgotten | Cancelled

text \<open>\<open>c_key\<close> and \<open>c_run\<close> are the argument and the program counter of the call's \<open>run\<close> goroutine;
  \<open>timer\<close> tells whether the timeout of the load's context has fired.\<close>

record call =
  c_key :: string
  c_run :: run_pc
  c_timer :: bool
  c_done :: bool
  c_expired :: bool
  c_val :: bytes
  c_err :: "error option"
  c_panic :: "string option"
  c_waiting :: int

text \<open>How \<open>Do\<close> ends: it returns, or it panics with the load's \<open>PanicError\<close>.\<close>

datatype outcome = Returns bytes "error option" | Panics string

datatype do_pc = Selecting | Checking | Leaving outcome | Finished outcome

record caller =
  cl_key :: string
  cl_call :: nat
  cl_pc :: do_pc
  cl_ctx :: "error option"

record group =
  sf_calls :: "string \<Rightarrow> nat option"
  sf_flights :: "nat \<Rightarrow> call option"
  sf_next :: nat
  sf_callers :: "nat \<Rightarrow> caller option"

definition empty_group :: group where
  "empty_group = \<lparr>sf_calls = Map.empty, sf_flights = Map.empty, sf_next = 0, sf_callers = Map.empty\<rparr>"

definition DeadlineExceeded :: error where
  "DeadlineExceeded = Sentinel ''context deadline exceeded''"

definition timeout_error :: error where
  "timeout_error = Wrap ''singleflight: load timed out after %v: %w'' [DeadlineExceeded]"

section \<open>Actions\<close>

text \<open>The first critical section of \<open>Do\<close>: join a flight that has not expired, or start one.\<close>

definition Do_enter :: "nat \<Rightarrow> string \<Rightarrow> error option \<Rightarrow> group \<Rightarrow> group option" where
  "Do_enter i key ctx g =
     (if sf_callers g i \<noteq> None then None
      else
        let inFlight = (case sf_calls g key of None \<Rightarrow> None
              | Some c \<Rightarrow> (case sf_flights g c of None \<Rightarrow> None
                  | Some f \<Rightarrow> if c_expired f then None else Some (c, f)));
            (c, f, g) = (case inFlight of
                Some (c, f) \<Rightarrow> (c, f, g)
              | None \<Rightarrow>
                  (sf_next g,
                   \<lparr>c_key = key, c_run = Running, c_timer = False, c_done = False, c_expired = False,
                     c_val = [], c_err = None, c_panic = None, c_waiting = 0\<rparr>,
                   g\<lparr>sf_calls := (sf_calls g)(key \<mapsto> sf_next g), sf_next := Suc (sf_next g)\<rparr>))
        in Some (g\<lparr>sf_flights := (sf_flights g)(c \<mapsto> f\<lparr>c_waiting := c_waiting f + 1\<rparr>),
                  sf_callers := (sf_callers g)(i \<mapsto> \<lparr>cl_key = key, cl_call = c, cl_pc = Selecting, cl_ctx = ctx\<rparr>)\<rparr>))"

definition call_result :: "call \<Rightarrow> outcome" where
  "call_result f = (case c_panic f of Some p \<Rightarrow> Panics p | None \<Rightarrow> Returns (c_val f) (c_err f))"

lemma call_result_update [simp]:
  "call_result (f\<lparr>c_run := r\<rparr>) = call_result f" "call_result (f\<lparr>c_done := b\<rparr>) = call_result f"
  "call_result (f\<lparr>c_expired := b\<rparr>) = call_result f" "call_result (f\<lparr>c_timer := b\<rparr>) = call_result f"
  "call_result (f\<lparr>c_waiting := n\<rparr>) = call_result f"
  by (simp_all add: call_result_def split: option.split)

datatype branch = OnDone | OnCtx | OnExpired

text \<open>The \<open>select\<close> of \<open>Do\<close>: any branch whose channel is closed may be taken.\<close>

definition Do_select :: "nat \<Rightarrow> branch \<Rightarrow> group \<Rightarrow> group option" where
  "Do_select i b g = do {
     p \<leftarrow> sf_callers g i;
     f \<leftarrow> sf_flights g (cl_call p);
     if cl_pc p \<noteq> Selecting then None
     else do {
       pc \<leftarrow> (case b of
           OnDone \<Rightarrow> if c_done f then Some (Leaving (call_result f)) else None
         | OnCtx \<Rightarrow> (case cl_ctx p of Some e \<Rightarrow> Some (Leaving (Returns [] (Some e))) | None \<Rightarrow> None)
         | OnExpired \<Rightarrow> if c_expired f then Some Checking else None);
       Some (g\<lparr>sf_callers := (sf_callers g)(i \<mapsto> p\<lparr>cl_pc := pc\<rparr>)\<rparr>) } }"

text \<open>The \<open>select\<close> inside the expiry branch: a result already there is preferred.\<close>

definition Do_check :: "nat \<Rightarrow> group \<Rightarrow> group option" where
  "Do_check i g = do {
     p \<leftarrow> sf_callers g i;
     f \<leftarrow> sf_flights g (cl_call p);
     if cl_pc p \<noteq> Checking then None
     else Some (g\<lparr>sf_callers := (sf_callers g)(i \<mapsto>
       p\<lparr>cl_pc := Leaving (if c_done f then call_result f else Returns [] (Some timeout_error))\<rparr>)\<rparr>) }"

text \<open>The deferred critical section of \<open>Do\<close>.\<close>

definition Do_leave :: "nat \<Rightarrow> group \<Rightarrow> group option" where
  "Do_leave i g = do {
     p \<leftarrow> sf_callers g i;
     f \<leftarrow> sf_flights g (cl_call p);
     case cl_pc p of
       Leaving r \<Rightarrow> Some (g\<lparr>sf_flights := (sf_flights g)(cl_call p \<mapsto> f\<lparr>c_waiting := c_waiting f - 1\<rparr>),
                        sf_callers := (sf_callers g)(i \<mapsto> p\<lparr>cl_pc := Finished r\<rparr>)\<rparr>)
     | _ \<Rightarrow> None }"

definition Waiting :: "string \<Rightarrow> group \<Rightarrow> int" where
  "Waiting key g = (case sf_calls g key of None \<Rightarrow> 0
     | Some c \<Rightarrow> (case sf_flights g c of None \<Rightarrow> 0 | Some f \<Rightarrow> c_waiting f))"

text \<open>The body of \<open>run\<close>: the loader returns a value and an error, or panics and is recovered.\<close>

definition run_fn :: "nat \<Rightarrow> outcome \<Rightarrow> group \<Rightarrow> group option" where
  "run_fn c r g = do {
     f \<leftarrow> sf_flights g c;
     if c_run f \<noteq> Running then None
     else Some (g\<lparr>sf_flights := (sf_flights g)(c \<mapsto> (case r of
         Returns v e \<Rightarrow> f\<lparr>c_val := v, c_err := e, c_run := Ran\<rparr>
       | Panics p \<Rightarrow> f\<lparr>c_panic := Some p, c_run := Ran\<rparr>))\<rparr>) }"

definition run_close :: "nat \<Rightarrow> group \<Rightarrow> group option" where
  "run_close c g = do {
     f \<leftarrow> sf_flights g c;
     if c_run f \<noteq> Ran then None
     else Some (g\<lparr>sf_flights := (sf_flights g)(c \<mapsto> f\<lparr>c_done := True, c_run := Closed\<rparr>)\<rparr>) }"

definition forget :: "nat \<Rightarrow> group \<Rightarrow> group option" where
  "forget c g = do {
     f \<leftarrow> sf_flights g c;
     if c_run f \<noteq> Closed then None
     else Some (g\<lparr>sf_calls := (if sf_calls g (c_key f) = Some c then (sf_calls g)(c_key f := None) else sf_calls g),
                 sf_flights := (sf_flights g)(c \<mapsto> f\<lparr>c_run := Forgotten\<rparr>)\<rparr>) }"

definition run_cancel :: "nat \<Rightarrow> group \<Rightarrow> group option" where
  "run_cancel c g = do {
     f \<leftarrow> sf_flights g c;
     if c_run f \<noteq> Forgotten then None
     else Some (g\<lparr>sf_flights := (sf_flights g)(c \<mapsto> f\<lparr>c_expired := True, c_run := Cancelled\<rparr>)\<rparr>) }"

text \<open>The environment: a load times out (its context cannot outlive \<open>cancel\<close>), a caller's context ends.\<close>

definition timer_fires :: "nat \<Rightarrow> group \<Rightarrow> group option" where
  "timer_fires c g = do {
     f \<leftarrow> sf_flights g c;
     if c_run f = Cancelled then None
     else Some (g\<lparr>sf_flights := (sf_flights g)(c \<mapsto> f\<lparr>c_timer := True, c_expired := True\<rparr>)\<rparr>) }"

definition ctx_ends :: "nat \<Rightarrow> error \<Rightarrow> group \<Rightarrow> group option" where
  "ctx_ends i e g = do {
     p \<leftarrow> sf_callers g i;
     if cl_ctx p \<noteq> None then None
     else Some (g\<lparr>sf_callers := (sf_callers g)(i \<mapsto> p\<lparr>cl_ctx := Some e\<rparr>)\<rparr>) }"

datatype action = Enter nat string "error option" | Select nat branch | Check nat | Leave nat
  | FnEnds nat outcome | CloseDone nat | Forget nat | Cancel nat | TimerFires nat | CtxEnds nat error

fun sf_act :: "action \<Rightarrow> group \<Rightarrow> group option" where
  "sf_act (Enter i k e) g = Do_enter i k e g"
| "sf_act (Select i b) g = Do_select i b g"
| "sf_act (Check i) g = Do_check i g"
| "sf_act (Leave i) g = Do_leave i g"
| "sf_act (FnEnds c r) g = run_fn c r g"
| "sf_act (CloseDone c) g = run_close c g"
| "sf_act (Forget c) g = forget c g"
| "sf_act (Cancel c) g = run_cancel c g"
| "sf_act (TimerFires c) g = timer_fires c g"
| "sf_act (CtxEnds i e) g = ctx_ends i e g"

fun sf_acts :: "action list \<Rightarrow> group \<Rightarrow> group option" where
  "sf_acts [] g = Some g"
| "sf_acts (a # as) g = do { g \<leftarrow> sf_act a g; sf_acts as g }"

inductive sf_reachable :: "group \<Rightarrow> bool" where
  init: "sf_reachable empty_group"
| step: "sf_reachable g \<Longrightarrow> sf_act a g = Some g' \<Longrightarrow> sf_reachable g'"

lemma sf_reachable_acts: "sf_reachable g \<Longrightarrow> sf_acts as g = Some g' \<Longrightarrow> sf_reachable g'"
  by (induction as arbitrary: g) (auto split: bind_splits intro: sf_reachable.step)

section \<open>Invariants\<close>

definition call_inv :: "group \<Rightarrow> nat \<Rightarrow> call \<Rightarrow> bool" where
  "call_inv g c f \<longleftrightarrow> c < sf_next g
     \<and> (c_done f \<longleftrightarrow> c_run f \<in> {Closed, Forgotten, Cancelled})
     \<and> (c_expired f \<longleftrightarrow> c_timer f \<or> c_run f = Cancelled)
     \<and> (\<not> c_expired f \<and> c_run f \<in> {Running, Ran, Closed} \<longrightarrow> sf_calls g (c_key f) = Some c)"

definition map_inv :: "group \<Rightarrow> bool" where
  "map_inv g \<longleftrightarrow> (\<forall>k c. sf_calls g k = Some c \<longrightarrow>
     (\<exists>f. sf_flights g c = Some f \<and> c_key f = k \<and> c_run f \<in> {Running, Ran, Closed}))"

text \<open>What a caller may leave with.\<close>

definition allowed :: "caller \<Rightarrow> call \<Rightarrow> outcome \<Rightarrow> bool" where
  "allowed p f r \<longleftrightarrow> (c_done f \<and> r = call_result f)
     \<or> (\<exists>e. cl_ctx p = Some e \<and> r = Returns [] (Some e))
     \<or> (c_timer f \<and> r = Returns [] (Some timeout_error))"

definition caller_inv :: "group \<Rightarrow> caller \<Rightarrow> bool" where
  "caller_inv g p \<longleftrightarrow> (\<exists>f. sf_flights g (cl_call p) = Some f \<and> c_key f = cl_key p
     \<and> (cl_pc p = Checking \<longrightarrow> c_expired f)
     \<and> (\<forall>r. cl_pc p \<in> {Leaving r, Finished r} \<longrightarrow> allowed p f r))"

definition sf_inv :: "group \<Rightarrow> bool" where
  "sf_inv g \<longleftrightarrow> map_inv g \<and> (\<forall>c f. sf_flights g c = Some f \<longrightarrow> call_inv g c f)
     \<and> (\<forall>i p. sf_callers g i = Some p \<longrightarrow> caller_inv g p)"

lemmas sf_defs = sf_inv_def map_inv_def call_inv_def caller_inv_def

text \<open>A step of one flight: the callers' guarantees survive when the flight only moves forward.\<close>

definition forward :: "call \<Rightarrow> call \<Rightarrow> bool" where
  "forward f f' \<longleftrightarrow> c_key f' = c_key f \<and> (c_expired f \<longrightarrow> c_expired f') \<and> (c_timer f \<longrightarrow> c_timer f')
     \<and> (c_done f \<longrightarrow> c_done f' \<and> call_result f' = call_result f)"

lemma caller_inv_forward:
  assumes "caller_inv g p" "sf_flights g c = Some f" "forward f f'" "sf_flights g' = (sf_flights g)(c \<mapsto> f')"
  shows "caller_inv g' p"
  using assms by (fastforce simp: caller_inv_def forward_def allowed_def)

text \<open>One flight moves, the map may lose its key: the invariant is local to that flight.\<close>

lemma sf_inv_flight:
  assumes I: "sf_inv g" and f: "sf_flights g c = Some f" and fw: "forward f f'"
    and g': "sf_flights g' = (sf_flights g)(c \<mapsto> f')" "sf_next g' = sf_next g" "sf_callers g' = sf_callers g"
    and m: "map_inv g'" and inv: "call_inv g' c f'"
    and others: "\<And>k d. d \<noteq> c \<Longrightarrow> sf_calls g k = Some d \<Longrightarrow> sf_calls g' k = Some d"
  shows "sf_inv g'"
proof -
  have "call_inv g' d h" if "sf_flights g' d = Some h" for d h
  proof (cases "d = c")
    case True
    then show ?thesis using inv that g'(1) by simp
  next
    case False
    then have "call_inv g d h" using I that g'(1) by (auto simp: sf_inv_def)
    then show ?thesis using others [OF False] g'(2) by (auto simp: call_inv_def)
  qed
  moreover have "caller_inv g' p" if "sf_callers g' i = Some p" for i p
    using caller_inv_forward [OF _ f fw g'(1)] I that g'(3) by (auto simp: sf_inv_def)
  ultimately show ?thesis using m by (auto simp: sf_inv_def)
qed

definition live :: "call \<Rightarrow> bool" where
  "live f \<longleftrightarrow> c_run f \<in> {Running, Ran, Closed}"

lemma map_inv_live: "map_inv g \<longleftrightarrow> (\<forall>k c. sf_calls g k = Some c \<longrightarrow>
     (\<exists>f. sf_flights g c = Some f \<and> c_key f = k \<and> live f))"
  by (simp add: map_inv_def live_def)

text \<open>One flight moves, the map stays.\<close>

lemma sf_inv_move:
  assumes I: "sf_inv g" and f: "sf_flights g c = Some f"
    and g': "g' = g\<lparr>sf_flights := (sf_flights g)(c \<mapsto> f')\<rparr>"
    and fw: "forward f f'" and l: "live f \<longrightarrow> live f'"
    and d: "c_done f' \<longleftrightarrow> c_run f' \<in> {Closed, Forgotten, Cancelled}"
    and e: "c_expired f' \<longleftrightarrow> c_timer f' \<or> c_run f' = Cancelled"
    and n: "\<not> c_expired f' \<longrightarrow> live f' \<longrightarrow> \<not> c_expired f \<and> live f"
  shows "sf_inv g'"
proof (rule sf_inv_flight [OF I f fw])
  have k: "c_key f' = c_key f" using fw by (simp add: forward_def)
  have m: "map_inv g" and ci: "call_inv g c f" using I f by (auto simp: sf_inv_def)
  have "\<exists>h. sf_flights g' d = Some h \<and> c_key h = q \<and> live h" if "sf_calls g q = Some d" for q d
    using m that f k l unfolding map_inv_live g' by (cases "d = c") fastforce+
  then show "map_inv g'" unfolding map_inv_live by (simp add: g')
  show "call_inv g' c f'" using ci d e n k unfolding call_inv_def live_def g' by auto
qed (simp_all add: g')

text \<open>One caller moves, nothing else.\<close>

lemma sf_inv_caller:
  assumes "sf_inv g" "g' = g\<lparr>sf_callers := (sf_callers g)(i \<mapsto> p)\<rparr>" "caller_inv g p"
  shows "sf_inv g'"
  using assms by (auto simp: sf_defs)

section \<open>Every action keeps the invariant\<close>

lemma sf_inv_flightD: "sf_inv g \<Longrightarrow> sf_flights g c = Some f \<Longrightarrow> call_inv g c f"
  by (simp add: sf_inv_def)

lemma sf_inv_callerD:
  "sf_inv g \<Longrightarrow> sf_callers g i = Some p \<Longrightarrow> sf_flights g (cl_call p) = Some f \<Longrightarrow>
   c_key f = cl_key p \<and> (cl_pc p = Checking \<longrightarrow> c_expired f)
   \<and> (\<forall>r. cl_pc p \<in> {Leaving r, Finished r} \<longrightarrow> allowed p f r)"
  by (simp add: sf_inv_def caller_inv_def) (metis option.inject)

lemma run_fn_inv: "sf_inv g \<Longrightarrow> run_fn c r g = Some g' \<Longrightarrow> sf_inv g'"
proof -
  assume I: "sf_inv g" and r: "run_fn c r g = Some g'"
  then obtain f where f: "sf_flights g c = Some f" "c_run f = Running"
    "g' = g\<lparr>sf_flights := (sf_flights g)(c \<mapsto> (case r of
         Returns v e \<Rightarrow> f\<lparr>c_val := v, c_err := e, c_run := Ran\<rparr>
       | Panics p \<Rightarrow> f\<lparr>c_panic := Some p, c_run := Ran\<rparr>))\<rparr>"
    by (auto simp: run_fn_def split: bind_splits if_splits)
  show ?thesis
    by (rule sf_inv_move [OF I f(1) f(3)])
      (use f(2) sf_inv_flightD [OF I f(1)] in
        \<open>auto simp: forward_def call_inv_def live_def split: outcome.splits\<close>)
qed

lemma run_close_inv: "sf_inv g \<Longrightarrow> run_close c g = Some g' \<Longrightarrow> sf_inv g'"
proof -
  assume I: "sf_inv g" and r: "run_close c g = Some g'"
  then obtain f where f: "sf_flights g c = Some f" "c_run f = Ran"
    "g' = g\<lparr>sf_flights := (sf_flights g)(c \<mapsto> f\<lparr>c_done := True, c_run := Closed\<rparr>)\<rparr>"
    by (auto simp: run_close_def split: bind_splits if_splits)
  show ?thesis
    by (rule sf_inv_move [OF I f(1) f(3)])
      (use f(2) sf_inv_flightD [OF I f(1)] in
        \<open>auto simp: forward_def call_inv_def live_def split: outcome.splits\<close>)
qed

lemma forget_inv: "sf_inv g \<Longrightarrow> forget c g = Some g' \<Longrightarrow> sf_inv g'"
proof -
  assume I: "sf_inv g" and r: "forget c g = Some g'"
  then obtain f where f: "sf_flights g c = Some f" "c_run f = Closed"
    "g' = g\<lparr>sf_calls := (if sf_calls g (c_key f) = Some c then (sf_calls g)(c_key f := None) else sf_calls g),
       sf_flights := (sf_flights g)(c \<mapsto> f\<lparr>c_run := Forgotten\<rparr>)\<rparr>"
    by (auto simp: forget_def split: bind_splits if_splits)
  have m: "map_inv g" using I by (simp add: sf_inv_def)
  have own: "k = c_key f" if "sf_calls g k = Some c" for k
    using m that f(1) unfolding map_inv_def by fastforce
  have kept: "d \<noteq> c \<and> sf_calls g k = Some d" if "sf_calls g' k = Some d" for k d
    using that own [of k] f(3) by (auto split: if_splits)
  show ?thesis
  proof (rule sf_inv_flight [OF I f(1), where g' = g'])
    have "sf_flights g' d = sf_flights g d" if "d \<noteq> c" for d using that f(3) by simp
    then show "map_inv g'" using m kept unfolding map_inv_def by metis
    show "call_inv g' c (f\<lparr>c_run := Forgotten\<rparr>)"
      using sf_inv_flightD [OF I f(1)] f(2,3) by (auto simp: call_inv_def)
    show "sf_calls g' k = Some d" if "d \<noteq> c" "sf_calls g k = Some d" for k d
      using that f(3) by auto
  qed (simp_all add: f(3) forward_def)
qed

lemma run_cancel_inv: "sf_inv g \<Longrightarrow> run_cancel c g = Some g' \<Longrightarrow> sf_inv g'"
proof -
  assume I: "sf_inv g" and r: "run_cancel c g = Some g'"
  then obtain f where f: "sf_flights g c = Some f" "c_run f = Forgotten"
    "g' = g\<lparr>sf_flights := (sf_flights g)(c \<mapsto> f\<lparr>c_expired := True, c_run := Cancelled\<rparr>)\<rparr>"
    by (auto simp: run_cancel_def split: bind_splits if_splits)
  show ?thesis
    by (rule sf_inv_move [OF I f(1) f(3)])
      (use f(2) sf_inv_flightD [OF I f(1)] in
        \<open>auto simp: forward_def call_inv_def live_def split: outcome.splits\<close>)
qed

lemma timer_fires_inv: "sf_inv g \<Longrightarrow> timer_fires c g = Some g' \<Longrightarrow> sf_inv g'"
proof -
  assume I: "sf_inv g" and r: "timer_fires c g = Some g'"
  then obtain f where f: "sf_flights g c = Some f" "c_run f \<noteq> Cancelled"
    "g' = g\<lparr>sf_flights := (sf_flights g)(c \<mapsto> f\<lparr>c_timer := True, c_expired := True\<rparr>)\<rparr>"
    by (auto simp: timer_fires_def split: bind_splits if_splits)
  show ?thesis
    by (rule sf_inv_move [OF I f(1) f(3)])
      (use f(2) sf_inv_flightD [OF I f(1)] in
        \<open>auto simp: forward_def call_inv_def live_def split: outcome.splits\<close>)
qed

lemma Do_select_inv: "sf_inv g \<Longrightarrow> Do_select i b g = Some g' \<Longrightarrow> sf_inv g'"
proof -
  assume I: "sf_inv g" and r: "Do_select i b g = Some g'"
  then obtain p pc f where p: "sf_callers g i = Some p" "sf_flights g (cl_call p) = Some f"
    "cl_pc p = Selecting" "g' = g\<lparr>sf_callers := (sf_callers g)(i \<mapsto> p\<lparr>cl_pc := pc\<rparr>)\<rparr>"
    "(case b of
           OnDone \<Rightarrow> if c_done f then Some (Leaving (call_result f)) else None
         | OnCtx \<Rightarrow> (case cl_ctx p of Some e \<Rightarrow> Some (Leaving (Returns [] (Some e))) | None \<Rightarrow> None)
         | OnExpired \<Rightarrow> if c_expired f then Some Checking else None) = Some pc"
    by (auto simp: Do_select_def split: bind_splits if_splits)
  have "caller_inv g (p\<lparr>cl_pc := pc\<rparr>)"
    using sf_inv_callerD [OF I p(1,2)] p(2,5)
    by (cases b) (auto simp: caller_inv_def allowed_def split: option.splits if_splits)
  then show ?thesis by (rule sf_inv_caller [OF I p(4)])
qed

lemma Do_check_inv: "sf_inv g \<Longrightarrow> Do_check i g = Some g' \<Longrightarrow> sf_inv g'"
proof -
  assume I: "sf_inv g" and r: "Do_check i g = Some g'"
  then obtain p f where p: "sf_callers g i = Some p" "sf_flights g (cl_call p) = Some f"
    "cl_pc p = Checking" "g' = g\<lparr>sf_callers := (sf_callers g)(i \<mapsto>
       p\<lparr>cl_pc := Leaving (if c_done f then call_result f else Returns [] (Some timeout_error))\<rparr>)\<rparr>"
    by (auto simp: Do_check_def split: bind_splits if_splits)
  have "c_key f = cl_key p" "c_expired f" using sf_inv_callerD [OF I p(1,2)] p(3) by simp_all
  moreover have "c_done f \<or> c_timer f"
    using sf_inv_flightD [OF I p(2)] \<open>c_expired f\<close> by (auto simp: call_inv_def)
  ultimately have "caller_inv g
      (p\<lparr>cl_pc := Leaving (if c_done f then call_result f else Returns [] (Some timeout_error))\<rparr>)"
    using p(2) by (auto simp: caller_inv_def allowed_def)
  then show ?thesis by (rule sf_inv_caller [OF I p(4)])
qed

lemma Do_leave_inv: "sf_inv g \<Longrightarrow> Do_leave i g = Some g' \<Longrightarrow> sf_inv g'"
proof -
  assume I: "sf_inv g" and r: "Do_leave i g = Some g'"
  then obtain p f r where p: "sf_callers g i = Some p" "sf_flights g (cl_call p) = Some f"
    "cl_pc p = Leaving r" "g' = g\<lparr>sf_flights := (sf_flights g)(cl_call p \<mapsto> f\<lparr>c_waiting := c_waiting f - 1\<rparr>),
       sf_callers := (sf_callers g)(i \<mapsto> p\<lparr>cl_pc := Finished r\<rparr>)\<rparr>"
    by (auto simp: Do_leave_def split: bind_splits do_pc.splits)
  let ?g = "g\<lparr>sf_flights := (sf_flights g)(cl_call p \<mapsto> f\<lparr>c_waiting := c_waiting f - 1\<rparr>)\<rparr>"
  have J: "sf_inv ?g"
    by (rule sf_inv_move [OF I p(2) refl])
      (use sf_inv_flightD [OF I p(2)] in
        \<open>auto simp: forward_def call_inv_def live_def\<close>)
  have "caller_inv g p" using I p(1) by (auto simp: sf_inv_def)
  then have "caller_inv ?g (p\<lparr>cl_pc := Finished r\<rparr>)"
    using p(2,3) by (auto simp: caller_inv_def allowed_def)
  then show ?thesis by (rule sf_inv_caller [OF J, rotated]) (simp add: p(4))
qed

lemma ctx_ends_inv: "sf_inv g \<Longrightarrow> ctx_ends i e g = Some g' \<Longrightarrow> sf_inv g'"
proof -
  assume I: "sf_inv g" and r: "ctx_ends i e g = Some g'"
  then obtain p where p: "sf_callers g i = Some p" "cl_ctx p = None"
    "g' = g\<lparr>sf_callers := (sf_callers g)(i \<mapsto> p\<lparr>cl_ctx := Some e\<rparr>)\<rparr>"
    by (auto simp: ctx_ends_def split: bind_splits if_splits)
  have "caller_inv g p" using I p(1) by (auto simp: sf_inv_def)
  then have "caller_inv g (p\<lparr>cl_ctx := Some e\<rparr>)"
    using p(2) by (fastforce simp: caller_inv_def allowed_def)
  then show ?thesis by (rule sf_inv_caller [OF I p(3)])
qed

definition new_call :: "string \<Rightarrow> call" where
  "new_call key = \<lparr>c_key = key, c_run = Running, c_timer = False, c_done = False, c_expired = False,
     c_val = [], c_err = None, c_panic = None, c_waiting = 0\<rparr>"

definition new_caller :: "string \<Rightarrow> nat \<Rightarrow> error option \<Rightarrow> caller" where
  "new_caller key c ctx = \<lparr>cl_key = key, cl_call = c, cl_pc = Selecting, cl_ctx = ctx\<rparr>"

lemma Do_enter_cases:
  assumes "Do_enter i key ctx g = Some g'"
  obtains (join) c f where "sf_callers g i = None" "sf_calls g key = Some c" "sf_flights g c = Some f"
      "\<not> c_expired f" "g' = g\<lparr>sf_flights := (sf_flights g)(c \<mapsto> f\<lparr>c_waiting := c_waiting f + 1\<rparr>),
         sf_callers := (sf_callers g)(i \<mapsto> new_caller key c ctx)\<rparr>"
  | (start) "sf_callers g i = None"
      "\<And>c f. sf_calls g key = Some c \<Longrightarrow> sf_flights g c = Some f \<Longrightarrow> c_expired f"
      "g' = g\<lparr>sf_calls := (sf_calls g)(key \<mapsto> sf_next g), sf_next := Suc (sf_next g),
         sf_flights := (sf_flights g)(sf_next g \<mapsto> (new_call key)\<lparr>c_waiting := 1\<rparr>),
         sf_callers := (sf_callers g)(i \<mapsto> new_caller key (sf_next g) ctx)\<rparr>"
proof (cases "\<exists>c f. sf_calls g key = Some c \<and> sf_flights g c = Some f \<and> \<not> c_expired f")
  case True
  then obtain c f where "sf_calls g key = Some c" "sf_flights g c = Some f" "\<not> c_expired f" by blast
  with assms show ?thesis
    by (intro join [of c f]) (auto simp: Do_enter_def new_caller_def split: if_splits)
next
  case False
  then have free: "c_expired f" if "sf_calls g key = Some c" "sf_flights g c = Some f" for c f
    using that by blast
  then have "(case sf_calls g key of None \<Rightarrow> None
              | Some c \<Rightarrow> (case sf_flights g c of None \<Rightarrow> None
                  | Some f \<Rightarrow> if c_expired f then None else Some (c, f))) = None"
    by (auto split: option.split)
  with assms show ?thesis
    by (intro start free) (auto simp: Do_enter_def new_caller_def new_call_def split: if_splits)
qed

lemma sf_inv_start:
  assumes I: "sf_inv g"
    and free: "\<And>c f. sf_calls g key = Some c \<Longrightarrow> sf_flights g c = Some f \<Longrightarrow> c_expired f"
    and g': "g' = g\<lparr>sf_calls := (sf_calls g)(key \<mapsto> sf_next g), sf_next := Suc (sf_next g),
         sf_flights := (sf_flights g)(sf_next g \<mapsto> (new_call key)\<lparr>c_waiting := 1\<rparr>)\<rparr>"
  shows "sf_inv g'"
proof -
  have m: "map_inv g" and old: "\<And>c f. sf_flights g c = Some f \<Longrightarrow> call_inv g c f"
    using I by (auto simp: sf_inv_def)
  have lt: "c < sf_next g" if "sf_flights g c = Some f" for c f using old [OF that] by (simp add: call_inv_def)
  have same: "sf_flights g' c = sf_flights g c" if "sf_flights g c = Some f" for c f
    using lt [OF that] g' by simp
  have new: "sf_flights g' (sf_next g) = Some ((new_call key)\<lparr>c_waiting := 1\<rparr>)" by (simp add: g')
  have "\<exists>f. sf_flights g' c = Some f \<and> c_key f = k \<and> live f" if "sf_calls g' k = Some c" for k c
  proof (cases "k = key")
    case True
    then show ?thesis using that new g' by (auto simp: new_call_def live_def)
  next
    case False
    then have "sf_calls g k = Some c" using that g' by simp
    then obtain f where "sf_flights g c = Some f" "c_key f = k" "live f"
      using m unfolding map_inv_live by blast
    then show ?thesis using same by auto
  qed
  then have "map_inv g'" by (simp add: map_inv_live)
  moreover have "call_inv g' c f" if f: "sf_flights g' c = Some f" for c f
  proof (cases "c = sf_next g")
    case True
    then have "f = (new_call key)\<lparr>c_waiting := 1\<rparr>" using f new by simp
    then show ?thesis using True by (simp add: call_inv_def new_call_def g')
  next
    case False
    then have fl: "sf_flights g c = Some f" using f g' by simp
    then have "sf_calls g (c_key f) = Some c" if "\<not> c_expired f" "live f"
      using old [OF fl] that by (auto simp: call_inv_def live_def)
    then have "sf_calls g' (c_key f) = Some c" if "\<not> c_expired f" "live f"
      using free [OF _ fl] that g' by auto
    then show ?thesis using old [OF fl] g' by (auto simp: call_inv_def live_def)
  qed
  moreover have "caller_inv g' p" if "sf_callers g' i = Some p" for i p
  proof -
    have "caller_inv g p" using I that g' by (auto simp: sf_inv_def)
    then show ?thesis using same by (auto simp: caller_inv_def)
  qed
  ultimately show ?thesis by (auto simp: sf_inv_def)
qed

lemma Do_enter_inv: "sf_inv g \<Longrightarrow> Do_enter i key ctx g = Some g' \<Longrightarrow> sf_inv g'"
proof -
  assume I: "sf_inv g" and r: "Do_enter i key ctx g = Some g'"
  from r show ?thesis
  proof (cases rule: Do_enter_cases)
    case (join c f)
    let ?g = "g\<lparr>sf_flights := (sf_flights g)(c \<mapsto> f\<lparr>c_waiting := c_waiting f + 1\<rparr>)\<rparr>"
    have J: "sf_inv ?g"
      by (rule sf_inv_move [OF I join(3) refl])
        (use sf_inv_flightD [OF I join(3)] in \<open>auto simp: forward_def call_inv_def live_def\<close>)
    have "map_inv g" using I by (simp add: sf_inv_def)
    then have "c_key f = key" using join(2,3) unfolding map_inv_def by force
    then have "caller_inv ?g (new_caller key c ctx)" by (simp add: caller_inv_def new_caller_def)
    then show ?thesis by (rule sf_inv_caller [OF J, rotated]) (simp add: join(5))
  next
    case start
    let ?g = "g\<lparr>sf_calls := (sf_calls g)(key \<mapsto> sf_next g), sf_next := Suc (sf_next g),
         sf_flights := (sf_flights g)(sf_next g \<mapsto> (new_call key)\<lparr>c_waiting := 1\<rparr>)\<rparr>"
    have J: "sf_inv ?g" by (rule sf_inv_start [OF I start(2) refl])
    have "caller_inv ?g (new_caller key (sf_next g) ctx)"
      by (simp add: caller_inv_def new_caller_def new_call_def)
    then show ?thesis by (rule sf_inv_caller [OF J, rotated]) (simp add: start(3))
  qed
qed

lemma sf_act_inv:
  assumes I: "sf_inv g" and r: "sf_act a g = Some g'"
  shows "sf_inv g'"
proof (cases a)
  case (Enter i k e)
  then show ?thesis using Do_enter_inv [OF I] r by simp
next
  case (Select i b)
  then show ?thesis using Do_select_inv [OF I] r by simp
next
  case (Check i)
  then show ?thesis using Do_check_inv [OF I] r by simp
next
  case (Leave i)
  then show ?thesis using Do_leave_inv [OF I] r by simp
next
  case (FnEnds c o')
  then show ?thesis using run_fn_inv [OF I] r by simp
next
  case (CloseDone c)
  then show ?thesis using run_close_inv [OF I] r by simp
next
  case (Forget c)
  then show ?thesis using forget_inv [OF I] r by simp
next
  case (Cancel c)
  then show ?thesis using run_cancel_inv [OF I] r by simp
next
  case (TimerFires c)
  then show ?thesis using timer_fires_inv [OF I] r by simp
next
  case (CtxEnds i e)
  then show ?thesis using ctx_ends_inv [OF I] r by simp
qed

lemma reachable_inv: "sf_reachable g \<Longrightarrow> sf_inv g"
proof (induction rule: sf_reachable.induct)
  case init
  show ?case by (simp add: sf_defs empty_group_def)
next
  case (step g a g')
  then show ?case using sf_act_inv by blast
qed

section \<open>The waiting count\<close>

definition waiters :: "group \<Rightarrow> nat \<Rightarrow> nat set" where
  "waiters g c = {i. \<exists>p. sf_callers g i = Some p \<and> cl_call p = c \<and> (\<forall>r. cl_pc p \<noteq> Finished r)}"

definition count_inv :: "group \<Rightarrow> bool" where
  "count_inv g \<longleftrightarrow> finite (dom (sf_callers g))
     \<and> (\<forall>c f. sf_flights g c = Some f \<longrightarrow> c_waiting f = int (card (waiters g c)))"

lemma waiters_finite: "finite (dom (sf_callers g)) \<Longrightarrow> finite (waiters g c)"
  by (rule finite_subset [of _ "dom (sf_callers g)"]) (auto simp: waiters_def)

text \<open>Steps that change no count.\<close>

lemma count_flight:
  assumes "count_inv g" "sf_flights g c = Some f" "sf_callers g' = sf_callers g"
    "sf_flights g' = (sf_flights g)(c \<mapsto> f')" "c_waiting f' = c_waiting f"
  shows "count_inv g'"
proof -
  have "waiters g' d = waiters g d" for d using assms(3) by (simp add: waiters_def)
  then show ?thesis using assms by (auto simp: count_inv_def)
qed

lemma count_caller:
  assumes "count_inv g" "sf_callers g i = Some p" "sf_callers g' = (sf_callers g)(i \<mapsto> p')"
    "sf_flights g' = sf_flights g" "cl_call p' = cl_call p"
    "(\<exists>r. cl_pc p = Finished r) \<longleftrightarrow> (\<exists>r. cl_pc p' = Finished r)"
  shows "count_inv g'"
proof -
  have "waiters g' d = waiters g d" for d using assms(2,3,5,6) by (auto simp: waiters_def)
  then show ?thesis using assms by (auto simp: count_inv_def)
qed

lemma count_enter:
  assumes C: "count_inv g" and i: "sf_callers g i = None"
    and g': "sf_callers g' = (sf_callers g)(i \<mapsto> new_caller key c ctx)"
      "sf_flights g' = (sf_flights g)(c \<mapsto> f)"
    and f: "c_waiting f = int (card (waiters g c)) + 1"
  shows "count_inv g'"
proof -
  have "waiters g' c = insert i (waiters g c)" "i \<notin> waiters g c"
    using i g'(1) by (auto simp: waiters_def new_caller_def)
  moreover have "waiters g' d = waiters g d" if "d \<noteq> c" for d
    using that i g'(1) by (auto simp: waiters_def new_caller_def)
  ultimately show ?thesis using C f g' waiters_finite [of g c]
    by (auto simp: count_inv_def)
qed

lemma count_leave:
  assumes C: "count_inv g" and r: "Do_leave i g = Some g'"
  shows "count_inv g'"
proof -
  from r obtain p f r where p: "sf_callers g i = Some p" "sf_flights g (cl_call p) = Some f"
    "cl_pc p = Leaving r" "g' = g\<lparr>sf_flights := (sf_flights g)(cl_call p \<mapsto> f\<lparr>c_waiting := c_waiting f - 1\<rparr>),
       sf_callers := (sf_callers g)(i \<mapsto> p\<lparr>cl_pc := Finished r\<rparr>)\<rparr>"
    by (auto simp: Do_leave_def split: bind_splits do_pc.splits)
  have w: "waiters g (cl_call p) = insert i (waiters g' (cl_call p))" "i \<notin> waiters g' (cl_call p)"
    using p by (auto simp: waiters_def)
  have o: "waiters g' d = waiters g d" if "d \<noteq> cl_call p" for d
    using that p by (auto simp: waiters_def)
  have fin: "finite (dom (sf_callers g'))" using C p(4) by (simp add: count_inv_def)
  have "c_waiting f = int (card (waiters g (cl_call p)))" using C p(2) by (simp add: count_inv_def)
  then have "c_waiting f - 1 = int (card (waiters g' (cl_call p)))"
    unfolding w(1) using w(2) waiters_finite [OF fin, of "cl_call p"] by simp
  then show ?thesis using C fin o p(4) by (auto simp: count_inv_def)
qed

lemma reachable_count: "sf_reachable g \<Longrightarrow> count_inv g"
proof (induction rule: sf_reachable.induct)
  case init
  show ?case by (simp add: count_inv_def empty_group_def)
next
  case (step g a g')
  have C: "count_inv g" and I: "sf_inv g" using step reachable_inv by auto
  show ?case
  proof (cases a)
    case (Enter i k e)
    with step.hyps have r: "Do_enter i k e g = Some g'" by simp
    then show ?thesis
    proof (cases rule: Do_enter_cases)
      case (join c f)
      then show ?thesis using C
        by (intro count_enter [OF C join(1), of g' k c e "f\<lparr>c_waiting := c_waiting f + 1\<rparr>"])
          (auto simp: count_inv_def)
    next
      case start
      have "waiters g (sf_next g) = {}"
        using I by (fastforce simp: sf_inv_def caller_inv_def call_inv_def waiters_def)
      with start show ?thesis
        by (intro count_enter [OF C start(1), of g' k "sf_next g" e "(new_call k)\<lparr>c_waiting := 1\<rparr>"]) auto
    qed
  next
    case (Leave i)
    then show ?thesis using count_leave C step.hyps by simp
  next
    case (Select i b)
    with step.hyps show ?thesis
      by (auto simp: Do_select_def split: bind_splits if_splits branch.splits option.splits
          intro!: count_caller [OF C])
  next
    case (Check i)
    with step.hyps show ?thesis
      by (auto simp: Do_check_def split: bind_splits if_splits intro!: count_caller [OF C])
  next
    case (CtxEnds i e)
    with step.hyps show ?thesis
      by (auto simp: ctx_ends_def split: bind_splits if_splits intro!: count_caller [OF C])
  next
    case (FnEnds c r)
    with step.hyps show ?thesis
      by (auto simp: run_fn_def split: bind_splits if_splits outcome.splits intro!: count_flight [OF C])
  next
    case (CloseDone c)
    with step.hyps show ?thesis
      by (auto simp: run_close_def split: bind_splits if_splits intro!: count_flight [OF C])
  next
    case (Forget c)
    with step.hyps show ?thesis
      by (auto simp: forget_def split: bind_splits if_splits intro!: count_flight [OF C])
  next
    case (Cancel c)
    with step.hyps show ?thesis
      by (auto simp: run_cancel_def split: bind_splits if_splits intro!: count_flight [OF C])
  next
    case (TimerFires c)
    with step.hyps show ?thesis
      by (auto simp: timer_fires_def split: bind_splits if_splits intro!: count_flight [OF C])
  qed
qed

section \<open>Properties\<close>

text \<open>C16. In every interleaving, at most one load of a key that has not timed out is running: the
  loader is called at most once among concurrent callers of the same key.\<close>

theorem sf_single_load:
  assumes "sf_reachable g" "sf_flights g c = Some f" "sf_flights g d = Some h" "c_key f = c_key h"
    "c_run f = Running" "c_run h = Running" "\<not> c_expired f" "\<not> c_expired h"
  shows "c = d"
proof -
  have "sf_calls g (c_key f) = Some c" "sf_calls g (c_key h) = Some d"
    using sf_inv_flightD [OF reachable_inv [OF assms(1)] assms(2)]
      sf_inv_flightD [OF reachable_inv [OF assms(1)] assms(3)] assms(5-8)
    by (simp_all add: call_inv_def)
  then show ?thesis using assms(4) by simp
qed

definition demo_group :: group where
  "demo_group = the (sf_acts [Enter 1 ''k'' None, Enter 2 ''k'' None] empty_group)"

lemma demo_group_reachable: "sf_reachable demo_group"
  by (rule sf_reachable_acts [OF sf_reachable.init, of "[Enter 1 ''k'' None, Enter 2 ''k'' None]"])
    (simp add: demo_group_def Do_enter_def empty_group_def)

theorem sf_single_load_witness: "the (sf_calls demo_group ''k'') = 0"
  by (rule sf_single_load [OF demo_group_reachable,
      where f = "the (sf_flights demo_group 0)" and h = "the (sf_flights demo_group 0)"])
    (simp_all add: demo_group_def Do_enter_def empty_group_def)

text \<open>C17. What a caller ends with belongs to the flight it joined, and that flight is of the caller's
  own key.  It is that flight's complete result (its value and error, or its panic), or the error of
  the caller's own context, or a timeout of a load whose timer really fired: the cancellation that
  \<open>run\<close> does itself, after the loader returned, is never reported as a timeout.\<close>

theorem sf_caller_outcome:
  assumes "sf_reachable g" "sf_callers g i = Some p" "cl_pc p = Finished r"
  shows "\<exists>f. sf_flights g (cl_call p) = Some f \<and> c_key f = cl_key p
    \<and> ((c_done f \<and> r = call_result f)
      \<or> (\<exists>e. cl_ctx p = Some e \<and> r = Returns [] (Some e))
      \<or> (c_timer f \<and> r = Returns [] (Some timeout_error)))"
proof -
  have "caller_inv g p" using reachable_inv [OF assms(1)] assms(2) by (simp add: sf_inv_def)
  then show ?thesis using assms(3) unfolding caller_inv_def allowed_def by blast
qed

text \<open>A load that panics, seen by both of its callers.\<close>

definition demo_panic :: group where
  "demo_panic = the (sf_acts [FnEnds 0 (Panics ''boom''), CloseDone 0, Forget 0, Cancel 0,
     Select 1 OnDone, Leave 1, Select 2 OnExpired, Check 2, Leave 2] demo_group)"

lemma demo_panic_reachable: "sf_reachable demo_panic"
  by (rule sf_reachable_acts [OF demo_group_reachable, of "[FnEnds 0 (Panics ''boom''), CloseDone 0,
      Forget 0, Cancel 0, Select 1 OnDone, Leave 1, Select 2 OnExpired, Check 2, Leave 2]"])
    (simp add: demo_panic_def demo_group_def Do_enter_def empty_group_def run_fn_def run_close_def
      forget_def run_cancel_def Do_select_def Do_check_def Do_leave_def)

theorem sf_caller_outcome_witness:
  "\<exists>p f. sf_callers demo_panic 2 = Some p \<and> cl_pc p = Finished (Panics ''boom'')
    \<and> sf_flights demo_panic (cl_call p) = Some f \<and> c_key f = cl_key p
    \<and> ((c_done f \<and> Panics ''boom'' = call_result f)
      \<or> (\<exists>e. cl_ctx p = Some e \<and> Panics ''boom'' = Returns [] (Some e))
      \<or> (c_timer f \<and> Panics ''boom'' = Returns [] (Some timeout_error)))"
proof -
  have p: "sf_callers demo_panic 2 = Some (the (sf_callers demo_panic 2))"
    "cl_pc (the (sf_callers demo_panic 2)) = Finished (Panics ''boom'')"
    by (simp_all add: demo_panic_def demo_group_def Do_enter_def empty_group_def run_fn_def run_close_def
      forget_def run_cancel_def Do_select_def Do_check_def Do_leave_def call_result_def)
  from sf_caller_outcome [OF demo_panic_reachable this] p show ?thesis by blast
qed

text \<open>A timed-out load never holds its key: the next caller starts a fresh load, which is not
  expired, even if the old loader never returns.\<close>

theorem sf_timeout_frees_key:
  assumes "sf_reachable g" "sf_calls g key = Some c" "sf_flights g c = Some f" "c_expired f"
    "sf_callers g i = None"
  shows "\<exists>g' d h. Do_enter i key ctx g = Some g' \<and> sf_calls g' key = Some d \<and> d \<noteq> c
    \<and> sf_flights g' d = Some h \<and> c_run h = Running \<and> \<not> c_expired h"
proof -
  have "c < sf_next g"
    using sf_inv_flightD [OF reachable_inv [OF assms(1)] assms(3)] by (simp add: call_inv_def)
  then show ?thesis using assms by (simp add: Do_enter_def)
qed

theorem sf_timeout_frees_key_witness:
  "\<exists>g' d h. Do_enter 3 ''k'' None (the (timer_fires 0 demo_group)) = Some g'
    \<and> sf_calls g' ''k'' = Some d \<and> d \<noteq> 0
    \<and> sf_flights g' d = Some h \<and> c_run h = Running \<and> \<not> c_expired h"
proof (rule sf_timeout_frees_key)
  show "sf_reachable (the (timer_fires 0 demo_group))"
    by (rule sf_reachable_acts [OF demo_group_reachable, of "[TimerFires 0]"])
      (simp add: timer_fires_def demo_group_def Do_enter_def empty_group_def)
  show "sf_flights (the (timer_fires 0 demo_group)) 0 = Some (the (sf_flights (the (timer_fires 0 demo_group)) 0))"
    by (simp add: timer_fires_def demo_group_def Do_enter_def empty_group_def)
qed (simp_all add: timer_fires_def demo_group_def Do_enter_def empty_group_def)

text \<open>C30. Once the loader has returned or panicked, a caller waiting on it is at most three
  uninterrupted steps of \<open>run\<close> and of its own goroutine away from the load's result: nothing it
  waits for can be lost.\<close>

theorem sf_waiter_served:
  assumes R: "sf_reachable g" and p: "sf_callers g i = Some p" "cl_pc p = Selecting"
    and f: "sf_flights g (cl_call p) = Some f" "c_run f \<noteq> Running"
  shows "\<exists>as g' p'. length as \<le> 3 \<and> sf_acts as g = Some g' \<and> sf_callers g' i = Some p'
    \<and> cl_pc p' = Finished (call_result f)"
proof (cases "c_run f = Ran")
  case True
  let ?as = "[CloseDone (cl_call p), Select i OnDone, Leave i]"
  show ?thesis
    by (rule exI [of _ ?as])
      (use True p f in \<open>simp add: run_close_def Do_select_def Do_leave_def\<close>)
next
  case False
  then have "c_done f"
    using sf_inv_flightD [OF reachable_inv [OF R] f(1)] f(2) by (cases "c_run f") (auto simp: call_inv_def)
  let ?as = "[Select i OnDone, Leave i]"
  show ?thesis
    by (rule exI [of _ ?as])
      (use \<open>c_done f\<close> p f in \<open>simp add: Do_select_def Do_leave_def\<close>)
qed

theorem sf_waiter_served_witness:
  "\<exists>as g' p'. length as \<le> 3 \<and> sf_acts as (the (run_fn 0 (Returns [7] None) demo_group)) = Some g'
    \<and> sf_callers g' 2 = Some p'
    \<and> cl_pc p' = Finished (call_result (the (sf_flights (the (run_fn 0 (Returns [7] None) demo_group)) 0)))"
proof (rule sf_waiter_served)
  show "sf_reachable (the (run_fn 0 (Returns [7] None) demo_group))"
    by (rule sf_reachable_acts [OF demo_group_reachable, of "[FnEnds 0 (Returns [7] None)]"])
      (simp add: run_fn_def demo_group_def Do_enter_def empty_group_def)
  show "sf_callers (the (run_fn 0 (Returns [7] None) demo_group)) 2 = Some (new_caller ''k'' 0 None)"
    by (simp add: run_fn_def demo_group_def Do_enter_def empty_group_def new_caller_def)
qed (simp_all add: run_fn_def demo_group_def Do_enter_def empty_group_def new_caller_def)

text \<open>\<open>Waiting\<close> reports how many callers of \<open>Do\<close> are still waiting on the key's flight.\<close>

theorem sf_waiting_counts:
  assumes "sf_reachable g"
  shows "Waiting key g = (case sf_calls g key of None \<Rightarrow> 0
    | Some c \<Rightarrow> int (card {i. \<exists>p. sf_callers g i = Some p \<and> cl_call p = c \<and> (\<forall>r. cl_pc p \<noteq> Finished r)}))"
  using reachable_count [OF assms] reachable_inv [OF assms]
  by (fastforce simp: Waiting_def count_inv_def sf_inv_def map_inv_def waiters_def split: option.split)

theorem sf_waiting_counts_witness:
  "Waiting ''k'' demo_group = (case sf_calls demo_group ''k'' of None \<Rightarrow> 0
    | Some c \<Rightarrow> int (card {i. \<exists>p. sf_callers demo_group i = Some p \<and> cl_call p = c \<and> (\<forall>r. cl_pc p \<noteq> Finished r)}))"
  by (rule sf_waiting_counts [OF demo_group_reachable])

end
