(* ===== verification/Errors.thy ===== *)
theory Errors
  imports Prelude
begin

text \<open>The sentinel errors of \<open>errors.go\<close>, by their messages.\<close>

definition ErrNotFound :: error where "ErrNotFound = Sentinel ''cistern: not found''"

definition ErrInvalidConfig :: error where
  "ErrInvalidConfig = Sentinel ''cistern: invalid configuration''"

definition ErrValueTooLarge :: error where
  "ErrValueTooLarge = Sentinel ''cistern: value too large''"

definition ErrInvalidKey :: error where "ErrInvalidKey = Sentinel ''cistern: invalid key''"

definition ErrUncacheable :: error where
  "ErrUncacheable = Sentinel ''cistern: value must not be cached''"

lemmas sentinel_defs = ErrNotFound_def ErrInvalidConfig_def ErrValueTooLarge_def ErrInvalidKey_def
  ErrUncacheable_def

end
