(* ===== verification/Generation.thy ===== *)
theory Generation
  imports Errors
begin

text \<open>
  \<open>NewGeneration\<close> of \<open>tagstore.go\<close>: the value a tag store gives a counter it creates.  The eight
  bytes are what \<open>crypto/rand.Read\<close> returned, \<open>None\<close> when it failed.
\<close>

definition NewGeneration :: "bytes option \<Rightarrow> u64 result" where
  "NewGeneration drawn =
     (case drawn of None \<Rightarrow> Inl (errors_New ''cistern: drawing a generation: %w'')
      | Some b \<Rightarrow> Inr (un_be64 b mod (push_bit 62 1 - 1) + 1))"

lemma NewGeneration_unat:
  "NewGeneration (Some b) = Inr g \<Longrightarrow> unat g = unat (un_be64 b) mod (2 ^ 62 - 1) + 1"
proof -
  assume "NewGeneration (Some b) = Inr g"
  then have g: "g = un_be64 b mod 0x3FFFFFFFFFFFFFFF + 1" by (simp add: NewGeneration_def)
  let ?m = "un_be64 b mod 0x3FFFFFFFFFFFFFFF"
  have m: "unat ?m = unat (un_be64 b) mod (2 ^ 62 - 1)" by (simp add: unat_mod_distrib)
  then have "unat ?m < 2 ^ 62" by simp
  then have "unat (?m + 1) = unat ?m + 1" by (simp add: unat_word_ariths)
  then show ?thesis using m by (simp add: g)
qed

text \<open>A generation just created lies in \<open>[1, 2 ^ 62)\<close>: never zero, and far below the wrap-around
  that increments could reach.\<close>

theorem NewGeneration_range:
  "NewGeneration drawn = Inr g \<Longrightarrow> 1 \<le> unat g \<and> unat g < 2 ^ 62"
  by (cases drawn) (auto simp: NewGeneration_unat NewGeneration_def [of None])

theorem NewGeneration_range_witness:
  "1 \<le> unat (4 :: u64) \<and> unat (4 :: u64) < 2 ^ 62"
  by (rule NewGeneration_range [of "Some [0, 0, 0, 0, 0, 0, 0, 3]"])
    (simp add: NewGeneration_def un_be64_def)

end
