(* ===== verification/Memory.thy ===== *)
theory Memory
  imports Generation
begin

text \<open>
  \<open>memory/memory.go\<close>, the in-process store, at the level of its pointers: entries are nodes of an
  explicit heap, linked into a ring through the sentinel \<open>s.head\<close> (address 0), and \<open>items\<close>
  points into the same nodes.  A nil or dangling dereference is \<open>None\<close>, so a Go panic is visible.
  The mutex makes every exported method one atomic step, apart from the delivery of eviction
  reports, which each method runs last.

  The clock (\<open>s.now\<close>) and \<open>crypto/rand\<close> are oracles: the n-th reading is \<open>m_clock s n\<close>, the n-th
  draw \<open>m_rand s n\<close>, both arbitrary functions.
\<close>

section \<open>State\<close>

type_synonym addr = nat

record node =
  n_key :: string
  n_value :: bytes
  n_expires :: time
  n_prev :: "addr option"
  n_next :: "addr option"

type_synonym heap = "addr \<Rightarrow> node option"

datatype EvictReason = EvictCapacity | EvictExpired

record store =
  maxEntries :: int
  maxBytes :: int
  m_size :: int
  m_count :: int
  m_heap :: heap
  m_items :: "string \<Rightarrow> addr option"
  m_fresh :: addr
  m_onEvict :: bool
  m_evicted :: "EvictReason list"
  m_reported :: "EvictReason list"
  m_clock :: "nat \<Rightarrow> time"
  m_tick :: nat
  m_rand :: "nat \<Rightarrow> bytes option"
  m_draw :: nat

definition head :: addr where "head = 0"

record mconfig =
  mc_maxEntries :: int
  mc_maxBytes :: int
  mc_onEvict :: bool

definition DefaultMaxEntries :: int where "DefaultMaxEntries = 10000"
definition DefaultMaxBytes :: int where "DefaultMaxBytes = push_bit 20 64"

definition WithMaxEntries :: "int \<Rightarrow> mconfig \<Rightarrow> mconfig" where
  "WithMaxEntries n c = c\<lparr>mc_maxEntries := n\<rparr>"

definition WithMaxBytes :: "int \<Rightarrow> mconfig \<Rightarrow> mconfig" where
  "WithMaxBytes n c = c\<lparr>mc_maxBytes := n\<rparr>"

definition WithOnEvict :: "bool \<Rightarrow> mconfig \<Rightarrow> mconfig" where
  "WithOnEvict fn c = c\<lparr>mc_onEvict := fn\<rparr>"

text \<open>The clock and the random source are the two things \<open>New\<close> does not build.\<close>

definition mem_New :: "(nat \<Rightarrow> time) \<Rightarrow> (nat \<Rightarrow> bytes option) \<Rightarrow> (mconfig \<Rightarrow> mconfig) list
    \<Rightarrow> store result" where
  "mem_New clk rnd opts =
     (let cfg = fold (\<lambda>opt c. opt c) opts
            \<lparr>mc_maxEntries = DefaultMaxEntries, mc_maxBytes = DefaultMaxBytes, mc_onEvict = False\<rparr> in
      if mc_maxEntries cfg \<le> 0
        then Inl (Wrap ''%w: memory: max entries must be positive'' [ErrInvalidConfig])
      else if mc_maxBytes cfg \<le> 0
        then Inl (Wrap ''%w: memory: max bytes must be positive'' [ErrInvalidConfig])
      else Inr \<lparr>maxEntries = mc_maxEntries cfg, maxBytes = mc_maxBytes cfg, m_size = 0, m_count = 0,
        m_heap = (\<lambda>_. None)(head \<mapsto> \<lparr>n_key = [], n_value = [], n_expires = 0,
                                    n_prev = Some head, n_next = Some head\<rparr>),
        m_items = (\<lambda>_. None), m_fresh = 1, m_onEvict = mc_onEvict cfg, m_evicted = [],
        m_reported = [], m_clock = clk, m_tick = 0, m_rand = rnd, m_draw = 0\<rparr>)"

section \<open>The list operations\<close>

definition set_next :: "addr option \<Rightarrow> addr option \<Rightarrow> heap \<Rightarrow> heap option" where
  "set_next p v h = do { a \<leftarrow> p; n \<leftarrow> h a; Some (h(a \<mapsto> n\<lparr>n_next := v\<rparr>)) }"

definition set_prev :: "addr option \<Rightarrow> addr option \<Rightarrow> heap \<Rightarrow> heap option" where
  "set_prev p v h = do { a \<leftarrow> p; n \<leftarrow> h a; Some (h(a \<mapsto> n\<lparr>n_prev := v\<rparr>)) }"

definition unlink :: "addr \<Rightarrow> heap \<Rightarrow> heap option" where
  "unlink e h = do {
     n \<leftarrow> h e;
     h \<leftarrow> set_next (n_prev n) (n_next n) h;
     h \<leftarrow> set_prev (n_next n) (n_prev n) h;
     h \<leftarrow> set_prev (Some e) None h;
     set_next (Some e) None h }"

definition pushFront :: "addr \<Rightarrow> heap \<Rightarrow> heap option" where
  "pushFront e h = do {
     hd \<leftarrow> h head;
     h \<leftarrow> set_prev (Some e) (Some head) h;
     h \<leftarrow> set_next (Some e) (n_next hd) h;
     hd \<leftarrow> h head;
     h \<leftarrow> set_prev (n_next hd) (Some e) h;
     set_next (Some head) (Some e) h }"

section \<open>The locked operations\<close>

definition entry_size :: "node \<Rightarrow> int" where
  "entry_size e = int (length (n_key e) + length (n_value e))"

definition mem_now :: "store \<Rightarrow> time \<times> store" where
  "mem_now s = (m_clock s (m_tick s), s\<lparr>m_tick := Suc (m_tick s)\<rparr>)"

definition mem_remove :: "addr \<Rightarrow> store \<Rightarrow> store option" where
  "mem_remove a s = do {
     h \<leftarrow> unlink a (m_heap s);
     e \<leftarrow> h a;
     Some (s\<lparr>m_heap := h, m_items := (m_items s)(n_key e := None),
             m_count := m_count s - 1, m_size := m_size s - entry_size e\<rparr>) }"

definition mem_evict :: "addr option \<Rightarrow> EvictReason \<Rightarrow> store \<Rightarrow> store option" where
  "mem_evict p reason s = do {
     a \<leftarrow> p;
     s \<leftarrow> mem_remove a s;
     Some (if m_onEvict s then s\<lparr>m_evicted := m_evicted s @ [reason]\<rparr> else s) }"

definition getLocked :: "string \<Rightarrow> store \<Rightarrow> (bytes option \<times> store) option" where
  "getLocked key s =
     (case m_items s key of
        None \<Rightarrow> Some (None, s)
      | Some a \<Rightarrow> do {
          e \<leftarrow> m_heap s a;
          let (now, s) = mem_now s;
          if \<not> now < n_expires e then do {
            s \<leftarrow> mem_evict (Some a) EvictExpired s;
            Some (None, s) }
          else do {
            h \<leftarrow> unlink a (m_heap s);
            h \<leftarrow> pushFront a h;
            Some (Some (n_value e), s\<lparr>m_heap := h\<rparr>) } })"

text \<open>The eviction loop of \<open>setLocked\<close>; \<open>None\<close> also stands for a loop that never ends.\<close>

partial_function (option) evict_loop :: "int \<Rightarrow> store \<Rightarrow> store option" where
  "evict_loop sz s =
     (if m_count s \<ge> maxEntries s \<or> m_size s + sz > maxBytes s
      then do {
        hd \<leftarrow> m_heap s head;
        s \<leftarrow> mem_evict (n_prev hd) EvictCapacity s;
        evict_loop sz s }
      else Some s)"

text \<open>\<open>&entry{...}\<close>: a fresh node, not linked yet.\<close>

definition new_entry :: "string \<Rightarrow> bytes \<Rightarrow> time \<Rightarrow> store \<Rightarrow> addr \<times> store" where
  "new_entry key value expires s =
     (m_fresh s,
      s\<lparr>m_heap := (m_heap s)(m_fresh s \<mapsto> \<lparr>n_key = key, n_value = value, n_expires = expires,
                                          n_prev = None, n_next = None\<rparr>),
        m_fresh := Suc (m_fresh s)\<rparr>)"

definition setLocked :: "addr \<Rightarrow> store \<Rightarrow> store option" where
  "setLocked a s = do {
     e \<leftarrow> m_heap s a;
     s \<leftarrow> (case m_items s (n_key e) of Some old \<Rightarrow> mem_remove old s | None \<Rightarrow> Some s);
     if entry_size e > maxBytes s then Some s
     else do {
       s \<leftarrow> evict_loop (entry_size e) s;
       h \<leftarrow> pushFront a (m_heap s);
       Some (s\<lparr>m_items := (m_items s)(n_key e \<mapsto> a), m_heap := h,
               m_count := m_count s + 1, m_size := m_size s + entry_size e\<rparr>) } }"

definition counterLocked :: "string \<Rightarrow> duration \<Rightarrow> store \<Rightarrow> (u64 result \<times> store) option" where
  "counterLocked gk ttl s = do {
     (v, s) \<leftarrow> getLocked gk s;
     let create = (let drawn = m_rand s (m_draw s); s = s\<lparr>m_draw := Suc (m_draw s)\<rparr> in
       case NewGeneration drawn of
         Inl err \<Rightarrow> Some (Inl err, s)
       | Inr g \<Rightarrow> do {
           let (now, s) = mem_now s;
           let (a, s) = new_entry gk (be64 g) (now + ttl) s;
           s \<leftarrow> setLocked a s;
           Some (Inr g, s) });
     case v of Some b \<Rightarrow> if length b = 8 then Some (Inr (un_be64 b), s) else create
     | None \<Rightarrow> create }"

section \<open>The exported methods\<close>

text \<open>Reports go to the hook after the lock is released; a panic in the hook is recovered.\<close>

definition reportEvictions :: "store \<Rightarrow> store" where
  "reportEvictions s =
     (if \<not> m_onEvict s then s
      else s\<lparr>m_evicted := [], m_reported := m_reported s @ m_evicted s\<rparr>)"

text \<open>The first argument of each method is what \<open>ctx.Err()\<close> returned.\<close>

definition mem_Get :: "error option \<Rightarrow> string \<Rightarrow> store \<Rightarrow> (bytes option result \<times> store) option" where
  "mem_Get ctxErr key s =
     (case ctxErr of Some err \<Rightarrow> Some (Inl err, s)
      | None \<Rightarrow> do {
          (v, s) \<leftarrow> getLocked key s;
          Some (Inr v, reportEvictions s) })"

fun counters :: "string list \<Rightarrow> duration \<Rightarrow> store \<Rightarrow> (u64 list result \<times> store) option" where
  "counters [] ttl s = Some (Inr [], s)"
| "counters (gk # gks) ttl s = do {
     (g, s) \<leftarrow> counterLocked gk ttl s;
     case g of Inl err \<Rightarrow> Some (Inl err, s)
     | Inr g \<Rightarrow> do {
         (gs, s) \<leftarrow> counters gks ttl s;
         Some (map_sum id (\<lambda>gs. g # gs) gs, s) } }"

definition mem_GetTagged :: "error option \<Rightarrow> string \<Rightarrow> string list \<Rightarrow> duration \<Rightarrow> store
    \<Rightarrow> ((bytes option \<times> u64 list) result \<times> store) option" where
  "mem_GetTagged ctxErr key genKeys genTTL s =
     (case ctxErr of Some err \<Rightarrow> Some (Inl err, s)
      | None \<Rightarrow>
          if genTTL \<le> 0 then Some (Inl (errors_New ''memory: counter ttl must be positive''), s)
          else do {
            (v, s) \<leftarrow> getLocked key s;
            (gens, s) \<leftarrow> counters genKeys genTTL s;
            Some (map_sum id (\<lambda>gs. (v, gs)) gens, reportEvictions s) })"

fun bump_loop :: "string list \<Rightarrow> duration \<Rightarrow> store \<Rightarrow> (error option \<times> store) option" where
  "bump_loop [] ttl s = Some (None, s)"
| "bump_loop (gk # gks) ttl s = do {
     (g, s) \<leftarrow> counterLocked gk ttl s;
     case g of Inl err \<Rightarrow> Some (Some err, s)
     | Inr g \<Rightarrow> do {
         let (now, s) = mem_now s;
         let (a, s) = new_entry gk (be64 (g + 1)) (now + ttl) s;
         s \<leftarrow> setLocked a s;
         bump_loop gks ttl s } }"

definition mem_Bump :: "error option \<Rightarrow> string list \<Rightarrow> duration \<Rightarrow> store
    \<Rightarrow> (error option \<times> store) option" where
  "mem_Bump ctxErr genKeys genTTL s =
     (case ctxErr of Some err \<Rightarrow> Some (Some err, s)
      | None \<Rightarrow>
          if genTTL \<le> 0 then Some (Some (errors_New ''memory: counter ttl must be positive''), s)
          else do {
            (err, s) \<leftarrow> bump_loop genKeys genTTL s;
            Some (err, reportEvictions s) })"

definition mem_Set :: "error option \<Rightarrow> string \<Rightarrow> bytes \<Rightarrow> duration \<Rightarrow> store
    \<Rightarrow> (error option \<times> store) option" where
  "mem_Set ctxErr key value ttl s =
     (case ctxErr of Some err \<Rightarrow> Some (Some err, s)
      | None \<Rightarrow>
          if ttl \<le> 0 then Some (Some (errors_New ''memory: ttl must be positive''), s)
          else do {
            let (now, s) = mem_now s;
            let (a, s) = new_entry key value (now + ttl) s;
            s \<leftarrow> setLocked a s;
            Some (None, reportEvictions s) })"

definition mem_Delete :: "error option \<Rightarrow> string \<Rightarrow> store \<Rightarrow> (error option \<times> store) option" where
  "mem_Delete ctxErr key s =
     (case ctxErr of Some err \<Rightarrow> Some (Some err, s)
      | None \<Rightarrow>
          case m_items s key of
            Some a \<Rightarrow> do { s \<leftarrow> mem_remove a s; Some (None, s) }
          | None \<Rightarrow> Some (None, s))"

end
