(* ===== verification/MemoryRing.thy ===== *)
theory MemoryRing
  imports Memory
begin

text \<open>
  The pointer structure of the store.  \<open>seg h a as b\<close> says that from \<open>a\<close> the nodes \<open>as\<close> follow one
  another up to \<open>b\<close>, forwards through \<open>next\<close> and backwards through \<open>prev\<close>; a ring is a segment from
  the sentinel to itself.  \<open>unlink\<close> takes one address out of the ring and \<open>pushFront\<close> puts one
  behind the sentinel, both without a nil dereference and without touching what any node carries.
\<close>

definition nxt :: "heap \<Rightarrow> addr \<Rightarrow> addr option" where
  "nxt h a = Option.bind (h a) n_next"

definition prv :: "heap \<Rightarrow> addr \<Rightarrow> addr option" where
  "prv h a = Option.bind (h a) n_prev"

text \<open>What a node carries, apart from its links.\<close>

definition carried :: "heap \<Rightarrow> addr \<Rightarrow> (string \<times> bytes \<times> time) option" where
  "carried h a = map_option (\<lambda>n. (n_key n, n_value n, n_expires n)) (h a)"

fun seg :: "heap \<Rightarrow> addr \<Rightarrow> addr list \<Rightarrow> addr \<Rightarrow> bool" where
  "seg h a [] b \<longleftrightarrow> nxt h a = Some b \<and> prv h b = Some a"
| "seg h a (x # xs) b \<longleftrightarrow> nxt h a = Some x \<and> prv h x = Some a \<and> seg h x xs b"

definition ring :: "heap \<Rightarrow> addr list \<Rightarrow> bool" where
  "ring h as \<longleftrightarrow> seg h head as head \<and> distinct (head # as)"

lemma seg_append [simp]: "seg h a (xs @ y # ys) b \<longleftrightarrow> seg h a xs y \<and> seg h y ys b"
  by (induction xs arbitrary: a) auto

lemma seg_cong:
  "\<lbrakk>seg h a xs b; \<And>x. x \<in> insert a (set xs) \<Longrightarrow> nxt h' x = nxt h x;
    \<And>x. x \<in> insert b (set xs) \<Longrightarrow> prv h' x = prv h x\<rbrakk> \<Longrightarrow> seg h' a xs b"
  by (induction xs arbitrary: a) auto

lemma seg_nxt: "seg h a xs b \<Longrightarrow> x \<in> insert a (set xs) \<Longrightarrow> \<exists>y. nxt h x = Some y"
  by (induction xs arbitrary: a) auto

lemma nxt_node: "nxt h a = Some b \<Longrightarrow> \<exists>n. h a = Some n \<and> n_next n = Some b"
  by (auto simp: nxt_def split: bind_splits)

lemma prv_node: "prv h a = Some b \<Longrightarrow> \<exists>n. h a = Some n \<and> n_prev n = Some b"
  by (auto simp: prv_def split: bind_splits)

lemma ring_nodes: "ring h as \<Longrightarrow> a \<in> insert head (set as) \<Longrightarrow> \<exists>n. h a = Some n"
  unfolding ring_def using seg_nxt nxt_node by metis

section \<open>Writing a link\<close>

lemma set_next_Some:
  "h a = Some n \<Longrightarrow> set_next (Some a) v h = Some (h(a \<mapsto> n\<lparr>n_next := v\<rparr>))"
  by (simp add: set_next_def)

lemma set_prev_Some:
  "h a = Some n \<Longrightarrow> set_prev (Some a) v h = Some (h(a \<mapsto> n\<lparr>n_prev := v\<rparr>))"
  by (simp add: set_prev_def)

lemma set_next_D:
  assumes "a \<in> dom h"
  obtains h' where "set_next (Some a) v h = Some h'" "nxt h' = (nxt h)(a := v)" "prv h' = prv h"
    "carried h' = carried h" "dom h' = dom h"
proof -
  from assms obtain n where n: "h a = Some n" by blast
  let ?h = "h(a \<mapsto> n\<lparr>n_next := v\<rparr>)"
  have "nxt ?h = (nxt h)(a := v)" "prv ?h = prv h" "carried ?h = carried h" "dom ?h = dom h"
    using n by (auto simp: nxt_def prv_def carried_def fun_eq_iff)
  then show ?thesis using that [OF set_next_Some [of h a n v]] n by blast
qed

lemma set_prev_D:
  assumes "a \<in> dom h"
  obtains h' where "set_prev (Some a) v h = Some h'" "prv h' = (prv h)(a := v)" "nxt h' = nxt h"
    "carried h' = carried h" "dom h' = dom h"
proof -
  from assms obtain n where n: "h a = Some n" by blast
  let ?h = "h(a \<mapsto> n\<lparr>n_prev := v\<rparr>)"
  have "prv ?h = (prv h)(a := v)" "nxt ?h = nxt h" "carried ?h = carried h" "dom ?h = dom h"
    using n by (auto simp: nxt_def prv_def carried_def fun_eq_iff)
  then show ?thesis using that [OF set_prev_Some [of h a n v]] n by blast
qed

section \<open>unlink and pushFront\<close>

lemma unlink_effect:
  assumes "nxt h e = Some n" "prv h e = Some p" "n \<in> dom h" "p \<in> dom h"
  obtains h' where "unlink e h = Some h'" "nxt h' = ((nxt h)(p := Some n))(e := None)"
    "prv h' = ((prv h)(n := Some p))(e := None)" "carried h' = carried h" "dom h' = dom h"
proof -
  obtain nd where nd: "h e = Some nd" "n_next nd = Some n" "n_prev nd = Some p"
    using nxt_node [OF assms(1)] prv_node [OF assms(2)] by auto
  have ed: "e \<in> dom h" using nd(1) by blast
  obtain h1 where h1: "set_next (Some p) (Some n) h = Some h1" "nxt h1 = (nxt h)(p := Some n)"
    "prv h1 = prv h" "carried h1 = carried h" "dom h1 = dom h"
    using set_next_D [of p h "Some n"] assms(4) by blast
  obtain h2 where h2: "set_prev (Some n) (Some p) h1 = Some h2" "prv h2 = (prv h1)(n := Some p)"
    "nxt h2 = nxt h1" "carried h2 = carried h1" "dom h2 = dom h1"
    using set_prev_D [of n h1 "Some p"] assms(3) h1(5) by blast
  obtain h3 where h3: "set_prev (Some e) None h2 = Some h3" "prv h3 = (prv h2)(e := None)"
    "nxt h3 = nxt h2" "carried h3 = carried h2" "dom h3 = dom h2"
    using set_prev_D [of e h2 None] ed h2(5) h1(5) by blast
  have "e \<in> dom h3" using ed h1(5) h2(5) h3(5) by simp
  then obtain h4 where h4: "set_next (Some e) None h3 = Some h4" "nxt h4 = (nxt h3)(e := None)"
    "prv h4 = prv h3" "carried h4 = carried h3" "dom h4 = dom h3"
    using set_next_D [of e h3 None] by blast
  have "unlink e h = Some h4"
    using nd h1(1) h2(1) h3(1) h4(1) by (simp add: unlink_def)
  then show ?thesis by (rule that) (use h1 h2 h3 h4 in simp_all)
qed

lemma seg_unlink:
  assumes "seg h a (xs @ e # ys) b" "distinct (xs @ e # ys)" "a \<notin> set (xs @ e # ys)"
    "b \<notin> set (xs @ e # ys)"
    and "nxt h' = ((nxt h)(last (a # xs) := Some (hd (ys @ [b]))))(e := None)"
    and "prv h' = ((prv h)(hd (ys @ [b]) := Some (last (a # xs))))(e := None)"
  shows "seg h' a (xs @ ys) b"
proof (cases xs rule: rev_cases; cases ys)
  assume "xs = []" "ys = []"
  then show ?thesis using assms by auto
next
  fix y ys' assume c: "xs = []" "ys = y # ys'"
  then have "seg h' y ys' b" using assms by (intro seg_cong [of h y ys' b h']) auto
  then show ?thesis using assms c by auto
next
  fix xs' x assume c: "xs = xs' @ [x]" "ys = []"
  then have "seg h' a xs' x" using assms by (intro seg_cong [of h a xs' x h']) auto
  then show ?thesis using assms c by auto
next
  fix xs' x y ys' assume c: "xs = xs' @ [x]" "ys = y # ys'"
  then have "seg h' a xs' x" using assms by (intro seg_cong [of h a xs' x h']) auto
  moreover have "seg h' y ys' b" using assms c by (intro seg_cong [of h y ys' b h']) auto
  ultimately show ?thesis using assms c by auto
qed

lemma seg_neighbours:
  "seg h a (xs @ e # ys) b \<Longrightarrow> nxt h e = Some (hd (ys @ [b])) \<and> prv h e = Some (last (a # xs))"
  by (cases xs rule: rev_cases; cases ys) auto

lemma unlink_ring:
  assumes "ring h (xs @ e # ys)"
  obtains h' where "unlink e h = Some h'" "ring h' (xs @ ys)" "carried h' = carried h" "dom h' = dom h"
proof -
  let ?n = "hd (ys @ [head])" and ?p = "last (head # xs)"
  have nb: "nxt h e = Some ?n" "prv h e = Some ?p"
    using seg_neighbours [of h head xs e ys head] assms by (simp_all add: ring_def)
  have "?n \<in> insert head (set (xs @ e # ys))" by (cases ys) auto
  moreover have "?p \<in> insert head (set (xs @ e # ys))" by (cases xs rule: rev_cases) auto
  ultimately have "?n \<in> dom h" "?p \<in> dom h"
    using ring_nodes [OF assms] by blast+
  from unlink_effect [OF nb this] obtain h' where h': "unlink e h = Some h'"
    "nxt h' = ((nxt h)(?p := Some ?n))(e := None)" "prv h' = ((prv h)(?n := Some ?p))(e := None)"
    "carried h' = carried h" "dom h' = dom h" .
  have "ring h' (xs @ ys)"
    using seg_unlink [OF _ _ _ _ h'(2,3)] assms unfolding ring_def by auto
  then show ?thesis by (rule that [OF h'(1) _ h'(4,5)])
qed

lemma pushFront_ring:
  assumes "ring h as" "e \<notin> insert head (set as)" "e \<in> dom h"
  obtains h' where "pushFront e h = Some h'" "ring h' (e # as)" "carried h' = carried h" "dom h' = dom h"
proof -
  let ?n = "hd (as @ [head])"
  have nh: "nxt h head = Some ?n" using assms(1) by (cases as) (auto simp: ring_def)
  then obtain hd0 where hd0: "h head = Some hd0" "n_next hd0 = Some ?n" using nxt_node by blast
  have "?n \<in> insert head (set as)" by (cases as) auto
  then have nd: "?n \<in> dom h" using ring_nodes [OF assms(1)] by blast
  obtain h1 where h1: "set_prev (Some e) (Some head) h = Some h1" "prv h1 = (prv h)(e := Some head)"
    "nxt h1 = nxt h" "carried h1 = carried h" "dom h1 = dom h"
    using set_prev_D [of e h "Some head"] assms(3) by blast
  obtain h2 where h2: "set_next (Some e) (Some ?n) h1 = Some h2" "nxt h2 = (nxt h1)(e := Some ?n)"
    "prv h2 = prv h1" "carried h2 = carried h1" "dom h2 = dom h1"
    using set_next_D [of e h1 "Some ?n"] assms(3) h1(5) by blast
  have "nxt h2 head = Some ?n" using nh h1 h2 assms(2) by simp
  then obtain hd2 where hd2: "h2 head = Some hd2" "n_next hd2 = Some ?n" using nxt_node by blast
  obtain h3 where h3: "set_prev (Some ?n) (Some e) h2 = Some h3" "prv h3 = (prv h2)(?n := Some e)"
    "nxt h3 = nxt h2" "carried h3 = carried h2" "dom h3 = dom h2"
    using set_prev_D [of ?n h2 "Some e"] nd h2(5) h1(5) by blast
  have "head \<in> dom h3" using hd2(1) h3(5) by blast
  then obtain h4 where h4: "set_next (Some head) (Some e) h3 = Some h4" "nxt h4 = (nxt h3)(head := Some e)"
    "prv h4 = prv h3" "carried h4 = carried h3" "dom h4 = dom h3"
    using set_next_D [of head h3 "Some e"] by blast
  have run: "pushFront e h = Some h4"
    using hd0 h1(1) h2(1) hd2 h3(1) h4(1) by (simp add: pushFront_def)
  have n4: "nxt h4 = ((nxt h)(e := Some ?n))(head := Some e)"
    and p4: "prv h4 = ((prv h)(e := Some head))(?n := Some e)"
    using h1 h2 h3 h4 by auto
  have "seg h4 head (e # as) head"
  proof (cases as)
    case Nil
    then show ?thesis using n4 p4 assms(2) by auto
  next
    case (Cons x xs)
    then have "seg h4 x xs head"
      using assms(1,2) n4 p4 by (intro seg_cong [of h x xs head h4]) (auto simp: ring_def)
    then show ?thesis using Cons n4 p4 assms(1,2) by (auto simp: ring_def)
  qed
  then have "ring h4 (e # as)" using assms(1,2) by (auto simp: ring_def)
  with run show ?thesis by (rule that) (use h1 h2 h3 h4 in simp_all)
qed

end
