(* ===== verification/Lru.thy ===== *)
theory Lru
  imports Memory
begin

text \<open>
  What the in-process store promises, without pointers: an association list of the live entries,
  most recently used first.  A read moves its entry to the front, a write evicts from the back until
  both limits hold, and a counter is an entry whose value is eight bytes.  \<open>MemoryRefine\<close> shows that
  the pointer program computes exactly this.
\<close>

section \<open>State\<close>

type_synonym lentry = "string \<times> bytes \<times> time"

record lru =
  l_es :: "lentry list"
  l_maxEntries :: int
  l_maxBytes :: int
  l_onEvict :: bool
  l_evicted :: "EvictReason list"
  l_reported :: "EvictReason list"
  l_clock :: "nat \<Rightarrow> time"
  l_tick :: nat
  l_rand :: "nat \<Rightarrow> bytes option"
  l_draw :: nat

fun lsize :: "lentry \<Rightarrow> int" where
  "lsize (k, v, x) = int (length k + length v)"

definition lru_total :: "lentry list \<Rightarrow> int" where
  "lru_total es = sum_list (map lsize es)"

definition without :: "string \<Rightarrow> lentry list \<Rightarrow> lentry list" where
  "without k es = filter (\<lambda>e. fst e \<noteq> k) es"

definition fits :: "int \<Rightarrow> int \<Rightarrow> int \<Rightarrow> lentry list \<Rightarrow> bool" where
  "fits maxE maxB sz es \<longleftrightarrow> int (length es) < maxE \<and> lru_total es + sz \<le> maxB"

function trim :: "int \<Rightarrow> int \<Rightarrow> int \<Rightarrow> lentry list \<Rightarrow> lentry list" where
  "trim maxE maxB sz es =
     (if es = [] \<or> fits maxE maxB sz es then es else trim maxE maxB sz (butlast es))"
  by pat_completeness auto
termination
  by (relation "measure (\<lambda>(_, _, _, es). length es)") auto

declare trim.simps [simp del]

section \<open>Operations\<close>

definition lru_now :: "lru \<Rightarrow> time \<times> lru" where
  "lru_now l = (l_clock l (l_tick l), l\<lparr>l_tick := Suc (l_tick l)\<rparr>)"

definition lru_note :: "EvictReason \<Rightarrow> nat \<Rightarrow> lru \<Rightarrow> lru" where
  "lru_note r n l =
     (if l_onEvict l then l\<lparr>l_evicted := l_evicted l @ replicate n r\<rparr> else l)"

definition lru_get :: "string \<Rightarrow> lru \<Rightarrow> bytes option \<times> lru" where
  "lru_get k l =
     (case map_of (l_es l) k of
        None \<Rightarrow> (None, l)
      | Some (v, x) \<Rightarrow>
          let (t, l) = lru_now l in
          if \<not> t < x then (None, lru_note EvictExpired 1 (l\<lparr>l_es := without k (l_es l)\<rparr>))
          else (Some v, l\<lparr>l_es := (k, v, x) # without k (l_es l)\<rparr>))"

definition lru_put :: "lentry \<Rightarrow> lru \<Rightarrow> lru" where
  "lru_put e l =
     (let es = without (fst e) (l_es l) in
      if lsize e > l_maxBytes l then l\<lparr>l_es := es\<rparr>
      else let es' = trim (l_maxEntries l) (l_maxBytes l) (lsize e) es in
        lru_note EvictCapacity (length es - length es') (l\<lparr>l_es := e # es'\<rparr>))"

definition lru_counter :: "string \<Rightarrow> duration \<Rightarrow> lru \<Rightarrow> u64 result \<times> lru" where
  "lru_counter gk ttl l =
     (let (v, l) = lru_get gk l;
          create = (case NewGeneration (l_rand l (l_draw l)) of
              Inl err \<Rightarrow> (Inl err, l\<lparr>l_draw := Suc (l_draw l)\<rparr>)
            | Inr g \<Rightarrow> let (t, l) = lru_now (l\<lparr>l_draw := Suc (l_draw l)\<rparr>)
                in (Inr g, lru_put (gk, be64 g, t + ttl) l))
      in case v of Some b \<Rightarrow> if length b = 8 then (Inr (un_be64 b), l) else create
         | None \<Rightarrow> create)"

definition lru_report :: "lru \<Rightarrow> lru" where
  "lru_report l =
     (if \<not> l_onEvict l then l else l\<lparr>l_evicted := [], l_reported := l_reported l @ l_evicted l\<rparr>)"

fun lru_counters :: "string list \<Rightarrow> duration \<Rightarrow> lru \<Rightarrow> u64 list result \<times> lru" where
  "lru_counters [] ttl l = (Inr [], l)"
| "lru_counters (gk # gks) ttl l =
     (case lru_counter gk ttl l of
        (Inl err, l) \<Rightarrow> (Inl err, l)
      | (Inr g, l) \<Rightarrow> (case lru_counters gks ttl l of (gs, l) \<Rightarrow> (map_sum id (\<lambda>gs. g # gs) gs, l)))"

fun lru_bumps :: "string list \<Rightarrow> duration \<Rightarrow> lru \<Rightarrow> error option \<times> lru" where
  "lru_bumps [] ttl l = (None, l)"
| "lru_bumps (gk # gks) ttl l =
     (case lru_counter gk ttl l of
        (Inl err, l) \<Rightarrow> (Some err, l)
      | (Inr g, l) \<Rightarrow> (case lru_now l of (t, l) \<Rightarrow>
          lru_bumps gks ttl (lru_put (gk, be64 (g + 1), t + ttl) l)))"

definition lru_Get :: "error option \<Rightarrow> string \<Rightarrow> lru \<Rightarrow> bytes option result \<times> lru" where
  "lru_Get ctxErr k l =
     (case ctxErr of Some err \<Rightarrow> (Inl err, l)
      | None \<Rightarrow> (case lru_get k l of (v, l) \<Rightarrow> (Inr v, lru_report l)))"

definition lru_GetTagged :: "error option \<Rightarrow> string \<Rightarrow> string list \<Rightarrow> duration \<Rightarrow> lru
    \<Rightarrow> (bytes option \<times> u64 list) result \<times> lru" where
  "lru_GetTagged ctxErr k gks ttl l =
     (case ctxErr of Some err \<Rightarrow> (Inl err, l)
      | None \<Rightarrow>
          if ttl \<le> 0 then (Inl (errors_New ''memory: counter ttl must be positive''), l)
          else (case lru_get k l of (v, l) \<Rightarrow>
                case lru_counters gks ttl l of (gens, l) \<Rightarrow>
                  (map_sum id (\<lambda>gs. (v, gs)) gens, lru_report l)))"

definition lru_Bump :: "error option \<Rightarrow> string list \<Rightarrow> duration \<Rightarrow> lru \<Rightarrow> error option \<times> lru" where
  "lru_Bump ctxErr gks ttl l =
     (case ctxErr of Some err \<Rightarrow> (Some err, l)
      | None \<Rightarrow>
          if ttl \<le> 0 then (Some (errors_New ''memory: counter ttl must be positive''), l)
          else (case lru_bumps gks ttl l of (err, l) \<Rightarrow> (err, lru_report l)))"

definition lru_Set :: "error option \<Rightarrow> string \<Rightarrow> bytes \<Rightarrow> duration \<Rightarrow> lru \<Rightarrow> error option \<times> lru" where
  "lru_Set ctxErr k v ttl l =
     (case ctxErr of Some err \<Rightarrow> (Some err, l)
      | None \<Rightarrow>
          if ttl \<le> 0 then (Some (errors_New ''memory: ttl must be positive''), l)
          else (case lru_now l of (t, l) \<Rightarrow> (None, lru_report (lru_put (k, v, t + ttl) l))))"

definition lru_Delete :: "error option \<Rightarrow> string \<Rightarrow> lru \<Rightarrow> error option \<times> lru" where
  "lru_Delete ctxErr k l =
     (case ctxErr of Some err \<Rightarrow> (Some err, l)
      | None \<Rightarrow> (None, l\<lparr>l_es := without k (l_es l)\<rparr>))"

section \<open>Lemmas\<close>

lemma lru_total_simps [simp]: "lru_total [] = 0" "lru_total (e # es) = lsize e + lru_total es"
  "lru_total (es @ fs) = lru_total es + lru_total fs"
  by (simp_all add: lru_total_def)

lemma lsize_nonneg [simp]: "0 \<le> lsize e"
  by (cases e) simp

lemma lru_total_nonneg [simp]: "0 \<le> lru_total es"
  by (induction es) simp_all

lemma map_of_without [simp]: "map_of (without k es) k' = (if k' = k then None else map_of es k')"
  by (induction es) (auto simp: without_def)

lemma set_without: "set (without k es) = {e \<in> set es. fst e \<noteq> k}"
  by (simp add: without_def)

lemma distinct_without: "distinct (map fst es) \<Longrightarrow> distinct (map fst (without k es))"
  by (induction es) (auto simp: without_def)

lemma without_split:
  "distinct (map fst (xs @ (k, e) # ys)) \<Longrightarrow> without k (xs @ (k, e) # ys) = xs @ ys"
proof -
  assume "distinct (map fst (xs @ (k, e) # ys))"
  then have nk: "k \<notin> fst ` set xs" "k \<notin> fst ` set ys" by simp_all
  have "filter (\<lambda>e. fst e \<noteq> k) xs = xs" "filter (\<lambda>e. fst e \<noteq> k) ys = ys"
    by (rule filter_True; use nk in blast)+
  then show ?thesis by (simp add: without_def)
qed

lemma without_notin: "map_of es k = None \<Longrightarrow> without k es = es"
  by (force simp: without_def filter_id_conv map_of_eq_None_iff)

lemma length_without: "length (without k es) \<le> length es"
  by (simp add: without_def)

lemma lru_total_without: "lru_total (without k es) \<le> lru_total es"
  by (induction es) (auto simp: without_def)

text \<open>\<open>trim\<close> keeps the longest prefix (the most recently used entries) that leaves room.\<close>

lemma trim_prefix: "\<exists>n. trim mE mB sz es = take n es"
proof (induction mE mB sz es rule: trim.induct)
  case (1 mE mB sz es)
  show ?case
  proof (cases "es = [] \<or> fits mE mB sz es")
    case True
    then show ?thesis by (subst trim.simps) (metis take_all_iff order_refl)
  next
    case False
    with 1 obtain n where "trim mE mB sz (butlast es) = take n (butlast es)" by blast
    then have "trim mE mB sz (butlast es) = take (min n (length es - 1)) es"
      by (simp add: butlast_conv_take min.commute)
    with False show ?thesis by (subst trim.simps) auto
  qed
qed

lemma trim_fits: "0 < mE \<Longrightarrow> sz \<le> mB \<Longrightarrow> fits mE mB sz (trim mE mB sz es)"
proof (induction mE mB sz es rule: trim.induct)
  case (1 mE mB sz es)
  then show ?case by (subst trim.simps) (auto simp: fits_def)
qed

lemma fits_prefix: "fits mE mB sz (xs @ ys) \<Longrightarrow> fits mE mB sz xs"
  using lru_total_nonneg [of ys] by (simp add: fits_def del: lru_total_nonneg)

lemma trim_maximal:
  "fits mE mB sz (take n es) \<Longrightarrow> n \<le> length es \<Longrightarrow> n \<le> length (trim mE mB sz es)"
proof (induction mE mB sz es rule: trim.induct)
  case (1 mE mB sz es)
  show ?case
  proof (cases "es = [] \<or> fits mE mB sz es")
    case True
    then show ?thesis using 1 by (subst trim.simps) auto
  next
    case False
    then have "n \<noteq> length es" using "1.prems" by auto
    then have "n \<le> length (butlast es)" "take n (butlast es) = take n es"
      using "1.prems" by (simp_all add: take_butlast)
    then show ?thesis using 1 False by (subst trim.simps) simp
  qed
qed

lemma trim_subset: "set (trim mE mB sz es) \<subseteq> set es"
  using trim_prefix [of mE mB sz es] by (metis set_take_subset)

lemma trim_distinct: "distinct (map fst es) \<Longrightarrow> distinct (map fst (trim mE mB sz es))"
  using trim_prefix [of mE mB sz es] by (metis distinct_take take_map)

end
