(* ===== verification/MemoryRefine.thy ===== *)
theory MemoryRefine
  imports MemoryRing Lru
begin

text \<open>
  The pointer program of \<open>Memory\<close> computes the abstract store of \<open>Lru\<close>: related states stay related
  under every method, with the same results, and no method panics or loops (\<open>Some\<close> in every
  conclusion).  From this and the bounds of the abstract store follow the bounds of the program
  for every sequence of calls.
\<close>

section \<open>The relation\<close>

definition links :: "store \<Rightarrow> addr list \<Rightarrow> lentry list \<Rightarrow> bool" where
  "links s as es \<longleftrightarrow> ring (m_heap s) as \<and> map (carried (m_heap s)) as = map Some es
     \<and> distinct (map fst es) \<and> m_items s = map_of (zip (map fst es) as)
     \<and> m_count s = int (length es) \<and> m_size s = lru_total es
     \<and> (\<forall>a \<in> dom (m_heap s). a < m_fresh s)"

definition same_env :: "store \<Rightarrow> lru \<Rightarrow> bool" where
  "same_env s l \<longleftrightarrow> maxEntries s = l_maxEntries l \<and> maxBytes s = l_maxBytes l
     \<and> m_onEvict s = l_onEvict l \<and> m_evicted s = l_evicted l \<and> m_reported s = l_reported l
     \<and> m_clock s = l_clock l \<and> m_tick s = l_tick l \<and> m_rand s = l_rand l \<and> m_draw s = l_draw l
     \<and> 0 < l_maxEntries l \<and> 0 < l_maxBytes l"

definition env_of :: "store \<Rightarrow> (int \<times> int \<times> bool \<times> EvictReason list \<times> EvictReason list) \<times>
    (nat \<Rightarrow> time) \<times> nat \<times> (nat \<Rightarrow> bytes option) \<times> nat" where
  "env_of s = ((maxEntries s, maxBytes s, m_onEvict s, m_evicted s, m_reported s),
     m_clock s, m_tick s, m_rand s, m_draw s)"

lemma same_env_cong: "same_env s l \<Longrightarrow> env_of s' = env_of s \<Longrightarrow> same_env s' l"
  by (simp add: same_env_def env_of_def)

lemma same_env_es [simp]: "same_env s (l\<lparr>l_es := es\<rparr>) = same_env s l"
  by (simp add: same_env_def)

definition rel :: "store \<Rightarrow> lru \<Rightarrow> bool" where
  "rel s l \<longleftrightarrow> same_env s l \<and> (\<exists>as. links s as (l_es l))"

section \<open>Linked entries\<close>

lemma links_length: "links s as es \<Longrightarrow> length as = length es"
  unfolding links_def by (metis length_map)

lemma carried_node:
  "carried h a = Some (k, v, x) \<Longrightarrow> \<exists>n. h a = Some n \<and> n_key n = k \<and> n_value n = v \<and> n_expires n = x"
  by (auto simp: carried_def)

lemma carried_dom: "carried h a = Some e \<Longrightarrow> a \<in> dom h"
  by (auto simp: carried_def)

lemma links_None: "links s as es \<Longrightarrow> m_items s k = None \<longleftrightarrow> map_of es k = None"
  using links_length [of s as es] map_of_zip_is_None [of "map fst es" as k]
  by (simp add: links_def map_of_eq_None_iff [of es])

lemma links_Some:
  assumes L: "links s as es" and k: "m_items s k = Some a"
  obtains ps qs xs ys v x where "as = ps @ a # qs" "es = xs @ (k, v, x) # ys" "length ps = length xs"
    "carried (m_heap s) a = Some (k, v, x)" "map_of es k = Some (v, x)"
proof -
  have len: "length as = length es" by (rule links_length [OF L])
  from k L have "(k, a) \<in> set (zip (map fst es) as)"
    by (auto simp: links_def dest: map_of_SomeD)
  then obtain i where i: "i < length es" "map fst es ! i = k" "as ! i = a"
    using len by (auto simp: in_set_zip)
  obtain v x where e: "es ! i = (k, v, x)" using i(1,2) by (cases "es ! i") auto
  have "map (carried (m_heap s)) as ! i = map Some es ! i" using L by (simp add: links_def)
  then have "carried (m_heap s) a = Some (k, v, x)" using i len e by simp
  moreover have "map_of es k = Some (v, x)"
    using L i(1) e nth_mem [of i es] by (simp add: links_def)
  moreover have "as = take i as @ a # drop (Suc i) as"
    using i len id_take_nth_drop [of i as] by simp
  moreover have "es = take i es @ (k, v, x) # drop (Suc i) es"
    using i(1) e id_take_nth_drop [of i es] by simp
  ultimately show ?thesis using that [of "take i as" "drop (Suc i) as" "take i es" v x] i len
    by simp
qed

lemma map_of_zip_without:
  assumes "length ps = length xs" "distinct (map fst (xs @ (k, e) # ys))" "length qs = length ys"
  shows "(map_of (zip (map fst (xs @ (k, e) # ys)) (ps @ a # qs)))(k := None)
       = map_of (zip (map fst (xs @ ys)) (ps @ qs))"
proof -
  define f where "f = map_of (zip (map fst xs) ps)"
  define g where "g = map_of (zip (map fst ys) qs)"
  have "k \<notin> set (map fst xs)" "k \<notin> set (map fst ys)" using assms(2) by auto
  then have none: "f k = None" "g k = None"
    using assms(1,3) by (simp_all add: f_def g_def map_of_zip_is_None)
  have "map_of (zip (map fst (xs @ (k, e) # ys)) (ps @ a # qs)) = g(k \<mapsto> a) ++ f"
    using assms(1) by (simp add: f_def g_def)
  moreover have "map_of (zip (map fst (xs @ ys)) (ps @ qs)) = g ++ f"
    using assms(1) by (simp add: f_def g_def)
  moreover have "(g(k \<mapsto> a) ++ f)(k := None) = g ++ f"
    using none by (auto simp: map_add_def fun_eq_iff split: option.split)
  ultimately show ?thesis by simp
qed

lemma entry_size_carried:
  "carried h a = Some (k, v, x) \<Longrightarrow> h a = Some n \<Longrightarrow> entry_size n = lsize (k, v, x) \<and> n_key n = k"
  by (auto simp: carried_def entry_size_def)

lemma links_remove:
  assumes L: "links s (ps @ a # qs) (xs @ (k, v, x) # ys)" and len: "length ps = length xs"
  obtains s' where "mem_remove a s = Some s'" "links s' (ps @ qs) (xs @ ys)" "env_of s' = env_of s"
    "carried (m_heap s') = carried (m_heap s)" "dom (m_heap s') = dom (m_heap s)" "m_fresh s' = m_fresh s"
proof -
  from L have r: "ring (m_heap s) (ps @ a # qs)" by (simp add: links_def)
  have len': "length qs = length ys" using links_length [OF L] len by simp
  have pa: "carried (m_heap s) a = Some (k, v, x)" and
    pl: "map (carried (m_heap s)) (ps @ qs) = map Some (xs @ ys)"
    using L len by (auto simp: links_def)
  from unlink_ring [OF r] obtain h where h: "unlink a (m_heap s) = Some h" "ring h (ps @ qs)"
    "carried h = carried (m_heap s)" "dom h = dom (m_heap s)" by blast
  obtain n where n: "h a = Some n" using carried_dom [OF pa] h(4) by auto
  have sz: "entry_size n = lsize (k, v, x)" "n_key n = k"
    using entry_size_carried [of h a k v x n] n pa h(3) by simp_all
  let ?s = "s\<lparr>m_heap := h, m_items := (m_items s)(k := None),
      m_count := m_count s - 1, m_size := m_size s - lsize (k, v, x)\<rparr>"
  have run: "mem_remove a s = Some ?s" by (simp add: mem_remove_def h(1) n sz)
  have "links ?s (ps @ qs) (xs @ ys)"
    using L h(2,3,4) pl map_of_zip_without [OF len _ len'] by (auto simp: links_def)
  with run show ?thesis by (rule that) (simp_all add: env_of_def h(3,4))
qed

lemma links_pushFront:
  assumes L: "links s as es" and pl: "carried (m_heap s) a = Some (k, v, x)"
    and a: "a \<notin> insert head (set as)" and k: "map_of es k = None"
  obtains h where "pushFront a (m_heap s) = Some h"
    "links (s\<lparr>m_items := (m_items s)(k \<mapsto> a), m_heap := h, m_count := m_count s + 1,
       m_size := m_size s + lsize (k, v, x)\<rparr>) (a # as) ((k, v, x) # es)"
proof -
  have r: "ring (m_heap s) as" using L by (simp add: links_def)
  from pushFront_ring [OF r a carried_dom [OF pl]] obtain h where h: "pushFront a (m_heap s) = Some h"
    "ring h (a # as)" "carried h = carried (m_heap s)" "dom h = dom (m_heap s)" by blast
  have "links (s\<lparr>m_items := (m_items s)(k \<mapsto> a), m_heap := h, m_count := m_count s + 1,
       m_size := m_size s + lsize (k, v, x)\<rparr>) (a # as) ((k, v, x) # es)"
    using L h(2,3,4) pl k by (auto simp: links_def map_of_eq_None_iff)
  with h(1) show ?thesis by (rule that)
qed

section \<open>Simulation\<close>

text \<open>The program's outcome matches the specification's: same result, related states, no panic.\<close>

definition sim :: "('a \<times> store) option \<Rightarrow> 'a \<times> lru \<Rightarrow> bool" where
  "sim m p \<longleftrightarrow> (\<exists>s. m = Some (fst p, s) \<and> rel s (snd p))"

lemma simI: "m = Some (r, s) \<Longrightarrow> rel s l \<Longrightarrow> sim m (r, l)"
  by (simp add: sim_def)

lemma sim_bind:
  assumes "sim m p" "\<And>s. rel s (snd p) \<Longrightarrow> sim (f (fst p, s)) q"
  shows "sim (m \<bind> f) q"
  using assms by (auto simp: sim_def)

lemma sim_now:
  "rel s l \<Longrightarrow> fst (mem_now s) = fst (lru_now l) \<and> rel (snd (mem_now s)) (snd (lru_now l))"
  by (auto simp: rel_def mem_now_def lru_now_def same_env_def links_def)

lemma rel_report: "rel s l \<Longrightarrow> rel (reportEvictions s) (lru_report l)"
  by (auto simp: rel_def reportEvictions_def lru_report_def same_env_def links_def)

lemma links_cong:
  "links s as es \<Longrightarrow> m_heap s' = m_heap s \<Longrightarrow> m_items s' = m_items s \<Longrightarrow> m_count s' = m_count s \<Longrightarrow>
   m_size s' = m_size s \<Longrightarrow> m_fresh s' = m_fresh s \<Longrightarrow> links s' as es"
  by (simp add: links_def)

lemma mem_remove_rel:
  assumes L: "links s as (l_es l)" and E: "same_env s l" and k: "m_items s k = Some a"
  obtains s' where "mem_remove a s = Some s'" "rel s' (l\<lparr>l_es := without k (l_es l)\<rparr>)"
proof -
  obtain ps qs xs ys v x where sp: "as = ps @ a # qs" "l_es l = xs @ (k, v, x) # ys"
    "length ps = length xs" by (rule links_Some [OF L k])
  have L': "links s (ps @ a # qs) (xs @ (k, v, x) # ys)" using L sp by simp
  have d: "distinct (map fst (xs @ (k, v, x) # ys))" using L' by (simp add: links_def)
  obtain s' where s': "mem_remove a s = Some s'" "links s' (ps @ qs) (xs @ ys)"
    "env_of s' = env_of s" by (rule links_remove [OF L' sp(3)])
  have "links s' (ps @ qs) (l_es (l\<lparr>l_es := without k (l_es l)\<rparr>))"
    using s'(2) without_split [OF d] sp(2) by simp
  moreover have "same_env s' (l\<lparr>l_es := without k (l_es l)\<rparr>)"
    using same_env_cong [OF E s'(3)] by simp
  ultimately have "rel s' (l\<lparr>l_es := without k (l_es l)\<rparr>)" unfolding rel_def by blast
  with s'(1) show ?thesis by (rule that)
qed

lemma mem_evict_rel:
  assumes "links s as (l_es l)" "same_env s l" "m_items s k = Some a"
  obtains s' where "mem_evict (Some a) r s = Some s'"
    "rel s' (lru_note r 1 (l\<lparr>l_es := without k (l_es l)\<rparr>))"
proof -
  obtain s' where s': "mem_remove a s = Some s'" "rel s' (l\<lparr>l_es := without k (l_es l)\<rparr>)"
    by (rule mem_remove_rel [OF assms])
  let ?s = "if m_onEvict s' then s'\<lparr>m_evicted := m_evicted s' @ [r]\<rparr> else s'"
  have "mem_evict (Some a) r s = Some ?s" by (simp add: mem_evict_def s'(1))
  moreover have "rel ?s (lru_note r 1 (l\<lparr>l_es := without k (l_es l)\<rparr>))"
    using s'(2) by (auto simp: rel_def same_env_def lru_note_def links_def)
  ultimately show ?thesis by (rule that)
qed

lemma move_to_front:
  assumes L: "links s as (l_es l)" and E: "same_env s l" and k: "m_items s k = Some a"
    and m: "map_of (l_es l) k = Some (v, x)"
  obtains h1 h2 where "unlink a (m_heap s) = Some h1" "pushFront a h1 = Some h2"
    "rel (s\<lparr>m_heap := h2\<rparr>) (l\<lparr>l_es := (k, v, x) # without k (l_es l)\<rparr>)"
proof -
  obtain ps qs xs ys where sp: "as = ps @ a # qs" "l_es l = xs @ (k, v, x) # ys"
    "length ps = length xs" "carried (m_heap s) a = Some (k, v, x)"
    using links_Some [OF L k] m by (metis option.inject prod.inject)
  have d: "distinct (map fst (xs @ (k, v, x) # ys))" using L sp by (simp add: links_def)
  have len: "length qs = length ys" using links_length [OF L] sp by simp
  have r: "ring (m_heap s) (ps @ a # qs)" using L sp by (simp add: links_def)
  from unlink_ring [OF r] obtain h1 where h1: "unlink a (m_heap s) = Some h1" "ring h1 (ps @ qs)"
    "carried h1 = carried (m_heap s)" "dom h1 = dom (m_heap s)" by blast
  have "a \<notin> insert head (set (ps @ qs))" using r by (auto simp: ring_def)
  moreover have "a \<in> dom h1" using carried_dom [OF sp(4)] h1(4) by simp
  ultimately obtain h2 where h2: "pushFront a h1 = Some h2" "ring h2 (a # ps @ qs)"
    "carried h2 = carried h1" "dom h2 = dom h1" using pushFront_ring [OF h1(2)] by blast
  have it: "m_items s = map_of (zip (map fst (xs @ (k, v, x) # ys)) (ps @ a # qs))"
    using L sp by (simp add: links_def)
  have "map_of (zip (map fst ((k, v, x) # xs @ ys)) (a # ps @ qs)) = ((m_items s)(k := None))(k \<mapsto> a)"
    using map_of_zip_without [OF sp(3) d len, of a] it by simp
  then have "m_items s = map_of (zip (map fst ((k, v, x) # xs @ ys)) (a # ps @ qs))"
    using k by (simp add: fun_upd_idem)
  moreover have "map (carried (m_heap s)) (ps @ qs) = map Some (xs @ ys)"
    using L sp by (auto simp: links_def)
  ultimately have "links (s\<lparr>m_heap := h2\<rparr>) (a # ps @ qs) ((k, v, x) # xs @ ys)"
    using L h1 h2 sp d by (auto simp: links_def)
  then have "links (s\<lparr>m_heap := h2\<rparr>) (a # ps @ qs) (l_es (l\<lparr>l_es := (k, v, x) # without k (l_es l)\<rparr>))"
    using without_split [OF d] sp(2) by simp
  moreover have "same_env (s\<lparr>m_heap := h2\<rparr>) (l\<lparr>l_es := (k, v, x) # without k (l_es l)\<rparr>)"
    using E by (simp add: same_env_def)
  ultimately have "rel (s\<lparr>m_heap := h2\<rparr>) (l\<lparr>l_es := (k, v, x) # without k (l_es l)\<rparr>)"
    unfolding rel_def by blast
  with h1(1) h2(1) show ?thesis by (rule that)
qed

lemma getLocked_sim: "rel s l \<Longrightarrow> sim (getLocked k s) (lru_get k l)"
proof -
  assume R: "rel s l"
  then obtain as where L: "links s as (l_es l)" and E: "same_env s l" by (auto simp: rel_def)
  show ?thesis
  proof (cases "m_items s k")
    case None
    then have "map_of (l_es l) k = None" using links_None [OF L] by simp
    with None R show ?thesis by (auto simp: getLocked_def lru_get_def sim_def)
  next
    case (Some a)
    obtain v x where sp: "carried (m_heap s) a = Some (k, v, x)" and m: "map_of (l_es l) k = Some (v, x)"
      by (rule links_Some [OF L Some])
    then obtain n where n: "m_heap s a = Some n" "n_value n = v" "n_expires n = x"
      using carried_node by blast
    define s1 where "s1 = snd (mem_now s)"
    define l1 where "l1 = snd (lru_now l)"
    have now: "mem_now s = (fst (lru_now l), s1)" "lru_now l = (fst (lru_now l), l1)" "rel s1 l1"
      using sim_now [OF R] by (simp_all add: s1_def l1_def prod_eq_iff)
    have s1: "links s1 as (l_es l1)" "same_env s1 l1" "m_items s1 k = Some a" "m_heap s1 = m_heap s"
      "l_es l1 = l_es l"
      using L E Some by (auto simp: s1_def l1_def mem_now_def lru_now_def links_def same_env_def)
    show ?thesis
    proof (cases "fst (lru_now l) < x")
      case True
      obtain h1 h2 where "unlink a (m_heap s) = Some h1" "pushFront a h1 = Some h2"
        "rel (s1\<lparr>m_heap := h2\<rparr>) (l1\<lparr>l_es := (k, v, x) # without k (l_es l1)\<rparr>)"
        using move_to_front [OF s1(1,2,3)] m s1(4,5) by metis
      then show ?thesis using True Some n now(1,2) m s1(4,5)
        by (auto simp: getLocked_def lru_get_def sim_def Let_def split: prod.splits)
    next
      case False
      obtain s2 where "mem_evict (Some a) EvictExpired s1 = Some s2"
        "rel s2 (lru_note EvictExpired 1 (l1\<lparr>l_es := without k (l_es l1)\<rparr>))"
        by (rule mem_evict_rel [OF s1(1,2,3)])
      then show ?thesis using False Some n now(1,2) m s1(4,5)
        by (auto simp: getLocked_def lru_get_def sim_def Let_def split: prod.splits)
    qed
  qed
qed

section \<open>The eviction loop and setLocked\<close>

text \<open>Evicting from the back: the last address of the ring is \<open>head.prev\<close>.\<close>

lemma ring_prev_head: "ring h (as @ [a]) \<Longrightarrow> \<exists>n. h head = Some n \<and> n_prev n = Some a"
  using prv_node [of h head a] by (simp add: ring_def)

lemma links_snoc:
  assumes "links s as (es @ [e])"
  obtains ps a where "as = ps @ [a]" "length ps = length es"
  using links_length [OF assms] by (cases as rule: rev_cases) auto

lemma evict_last:
  assumes L: "links s (ps @ [a]) (es @ [e])" and len: "length ps = length es"
  obtains s' hd where "m_heap s head = Some hd" "mem_evict (n_prev hd) r s = Some s'" "links s' ps es"
    "env_of s' = env_of (if m_onEvict s then s\<lparr>m_evicted := m_evicted s @ [r]\<rparr> else s)"
    "carried (m_heap s') = carried (m_heap s)" "dom (m_heap s') = dom (m_heap s)" "m_fresh s' = m_fresh s"
proof -
  obtain k v x where e: "e = (k, v, x)" by (cases e)
  obtain hd where hd: "m_heap s head = Some hd" "n_prev hd = Some a"
    using ring_prev_head L unfolding links_def by blast
  have "links s (ps @ a # []) (es @ (k, v, x) # [])" using L e by simp
  from links_remove [OF this len] obtain s1 where s1: "mem_remove a s = Some s1" "links s1 ps es"
    "env_of s1 = env_of s" "carried (m_heap s1) = carried (m_heap s)"
    "dom (m_heap s1) = dom (m_heap s)" "m_fresh s1 = m_fresh s" by simp blast
  let ?s = "if m_onEvict s1 then s1\<lparr>m_evicted := m_evicted s1 @ [r]\<rparr> else s1"
  have "mem_evict (n_prev hd) r s = Some ?s" using hd(2) s1(1) by (simp add: mem_evict_def)
  moreover have "links ?s ps es" using s1(2) by (auto intro: links_cong)
  moreover have "env_of ?s = env_of (if m_onEvict s then s\<lparr>m_evicted := m_evicted s @ [r]\<rparr> else s)"
    using s1(3) by (auto simp: env_of_def)
  ultimately show ?thesis by (rule that [OF hd(1)]) (simp_all add: s1)
qed

lemma lru_note_Suc: "lru_note r (Suc n) l = lru_note r n (lru_note r 1 l)"
  by (simp add: lru_note_def)

lemma lru_note_0 [simp]: "lru_note r 0 l = l"
  by (simp add: lru_note_def)

lemma lru_note_fields [simp]:
  "l_es (lru_note r n l) = l_es l" "l_maxEntries (lru_note r n l) = l_maxEntries l"
  "l_maxBytes (lru_note r n l) = l_maxBytes l" "l_onEvict (lru_note r n l) = l_onEvict l"
  "l_clock (lru_note r n l) = l_clock l" "l_tick (lru_note r n l) = l_tick l"
  "l_rand (lru_note r n l) = l_rand l" "l_draw (lru_note r n l) = l_draw l"
  "l_reported (lru_note r n l) = l_reported l"
  by (simp_all add: lru_note_def)

lemma same_env_note:
  "same_env s l \<Longrightarrow>
   env_of s' = env_of (if m_onEvict s then s\<lparr>m_evicted := m_evicted s @ [r]\<rparr> else s) \<Longrightarrow>
   same_env s' (lru_note r 1 l)"
  by (auto simp: same_env_def env_of_def lru_note_def split: if_splits)

lemma evict_loop_spec:
  assumes "links s as es" "same_env s l" "sz \<le> l_maxBytes l"
  shows "\<exists>s'. evict_loop sz s = Some s'
    \<and> links s' (take (length (trim (l_maxEntries l) (l_maxBytes l) sz es)) as)
        (trim (l_maxEntries l) (l_maxBytes l) sz es)
    \<and> same_env s' (lru_note EvictCapacity
        (length es - length (trim (l_maxEntries l) (l_maxBytes l) sz es)) l)
    \<and> carried (m_heap s') = carried (m_heap s) \<and> dom (m_heap s') = dom (m_heap s)
    \<and> m_fresh s' = m_fresh s"
  using assms
proof (induction es arbitrary: s as l rule: rev_induct)
  case Nil
  then have "evict_loop sz s = Some s"
    by (subst evict_loop.simps) (auto simp: links_def same_env_def)
  moreover have "as = []" using links_length [OF Nil(1)] by simp
  ultimately show ?case using Nil by (simp add: trim.simps)
next
  case (snoc e es)
  let ?mE = "l_maxEntries l" and ?mB = "l_maxBytes l"
  have cond: "(m_count s \<ge> maxEntries s \<or> m_size s + sz > maxBytes s) \<longleftrightarrow> \<not> fits ?mE ?mB sz (es @ [e])"
    using snoc.prems by (auto simp: links_def same_env_def fits_def)
  show ?case
  proof (cases "fits ?mE ?mB sz (es @ [e])")
    case True
    then have "evict_loop sz s = Some s" using cond by (subst evict_loop.simps) simp
    moreover have "take (length (es @ [e])) as = as" using links_length [OF snoc.prems(1)] by simp
    moreover have "trim ?mE ?mB sz (es @ [e]) = es @ [e]" using True by (subst trim.simps) simp
    ultimately show ?thesis using snoc.prems by simp
  next
    case False
    then have tr: "trim ?mE ?mB sz (es @ [e]) = trim ?mE ?mB sz es" by (subst trim.simps) simp
    obtain ps a where as: "as = ps @ [a]" "length ps = length es"
      using links_snoc [OF snoc.prems(1)] .
    have "links s (ps @ [a]) (es @ [e])" using snoc.prems(1) as by simp
    from evict_last [OF this as(2), of EvictCapacity] obtain s1 hd where
      s1: "m_heap s head = Some hd" "mem_evict (n_prev hd) EvictCapacity s = Some s1" "links s1 ps es"
      "env_of s1 = env_of (if m_onEvict s then s\<lparr>m_evicted := m_evicted s @ [EvictCapacity]\<rparr> else s)"
      "carried (m_heap s1) = carried (m_heap s)" "dom (m_heap s1) = dom (m_heap s)"
      "m_fresh s1 = m_fresh s" .
    have E1: "same_env s1 (lru_note EvictCapacity 1 l)" by (rule same_env_note [OF snoc.prems(2) s1(4)])
    have run: "evict_loop sz s = evict_loop sz s1"
      using False cond s1(1,2) by (subst evict_loop.simps) simp
    let ?t = "trim ?mE ?mB sz es"
    have "length ?t \<le> length es" using trim_prefix [of ?mE ?mB sz es] by auto
    then have "lru_note EvictCapacity (length (es @ [e]) - length ?t) l
        = lru_note EvictCapacity (length es - length ?t) (lru_note EvictCapacity 1 l)"
      and "take (length ?t) as = take (length ?t) ps"
      using as by (simp_all add: Suc_diff_le lru_note_Suc [of _ "length es - length ?t"])
    with snoc.IH [OF s1(3) E1] snoc.prems(3) run tr s1(5-7) show ?thesis by simp
  qed
qed

lemma links_fresh:
  assumes L: "links s as es"
  shows "links (s\<lparr>m_heap := (m_heap s)(m_fresh s \<mapsto> n), m_fresh := Suc (m_fresh s)\<rparr>) as es"
proof -
  let ?h = "(m_heap s)(m_fresh s \<mapsto> n)"
  have nf: "a \<noteq> m_fresh s" if "a \<in> insert head (set as)" for a
    using that ring_nodes [of "m_heap s" as a] L unfolding links_def by blast
  then have same: "nxt ?h a = nxt (m_heap s) a" "prv ?h a = prv (m_heap s) a"
      "carried ?h a = carried (m_heap s) a" if "a \<in> insert head (set as)" for a
    using that by (simp_all add: nxt_def prv_def carried_def)
  have r: "seg (m_heap s) head as head" "distinct (head # as)" using L by (simp_all add: links_def ring_def)
  have "seg ?h head as head"
    by (rule seg_cong [OF r(1)]) (use same in auto)
  with r(2) have "ring ?h as" by (simp add: ring_def)
  moreover have "map (carried ?h) as = map (carried (m_heap s)) as" using same(3) by simp
  moreover have "\<forall>x \<in> dom (m_heap s). x < m_fresh s" using L by (simp add: links_def)
  then have "\<forall>x \<in> dom ?h. x < Suc (m_fresh s)" by (auto intro: less_SucI)
  ultimately show ?thesis using L unfolding links_def by simp
qed

lemma setLocked_sim:
  assumes R: "rel s l" and new: "new_entry k v x s = (a, s0)"
  shows "\<exists>s'. setLocked a s0 = Some s' \<and> rel s' (lru_put (k, v, x) l)"
proof -
  obtain as where L: "links s as (l_es l)" and E: "same_env s l" using R by (auto simp: rel_def)
  let ?n = "\<lparr>n_key = k, n_value = v, n_expires = x, n_prev = None, n_next = None\<rparr>"
  have a: "a = m_fresh s" and s0: "s0 = s\<lparr>m_heap := (m_heap s)(m_fresh s \<mapsto> ?n), m_fresh := Suc (m_fresh s)\<rparr>"
    using new by (auto simp: new_entry_def)
  have L0: "links s0 as (l_es l)" unfolding s0 by (rule links_fresh [OF L])
  have E0: "same_env s0 l" using E by (simp add: s0 same_env_def)
  have na: "a \<notin> insert head (set as)"
    using L ring_nodes [of "m_heap s" as a] unfolding links_def a by blast
  have pa: "carried (m_heap s0) a = Some (k, v, x)" and ha: "m_heap s0 a = Some ?n"
    by (simp_all add: s0 a carried_def)
  have sz: "entry_size ?n = lsize (k, v, x)" by (simp add: entry_size_def)
  obtain s1 as1 where s1: "(case m_items s0 k of Some old \<Rightarrow> mem_remove old s0 | None \<Rightarrow> Some s0) = Some s1"
    "links s1 as1 (without k (l_es l))" "same_env s1 l" "carried (m_heap s1) a = Some (k, v, x)"
    "a \<notin> insert head (set as1)"
  proof (cases "m_items s0 k")
    case None
    then have "without k (l_es l) = l_es l" using links_None [OF L0] by (simp add: without_notin)
    then show ?thesis using None L0 E0 pa na by (intro that [of s0 as]) simp_all
  next
    case (Some old)
    obtain ps qs xs ys v' x' where sp: "as = ps @ old # qs" "l_es l = xs @ (k, v', x') # ys"
      "length ps = length xs" by (rule links_Some [OF L0 Some])
    have L1: "links s0 (ps @ old # qs) (xs @ (k, v', x') # ys)" using L0 sp by simp
    then have w: "without k (l_es l) = xs @ ys" using without_split sp(2) by (simp add: links_def)
    obtain s1 where r: "mem_remove old s0 = Some s1" "links s1 (ps @ qs) (xs @ ys)"
      "env_of s1 = env_of s0" "carried (m_heap s1) = carried (m_heap s0)"
      by (rule links_remove [OF L1 sp(3)])
    show ?thesis
      by (rule that [of s1 "ps @ qs"])
        (use Some r w sp(1) na pa same_env_cong [OF E0 r(3)] in simp_all)
  qed
  show ?thesis
  proof (cases "lsize (k, v, x) > l_maxBytes l")
    case True
    then have "setLocked a s0 = Some s1"
      using s1(1,3) ha sz by (simp add: setLocked_def same_env_def)
    moreover have "rel s1 (lru_put (k, v, x) l)"
      using True s1(2,3) by (auto simp: lru_put_def rel_def)
    ultimately show ?thesis by blast
  next
    case False
    let ?t = "trim (l_maxEntries l) (l_maxBytes l) (lsize (k, v, x)) (without k (l_es l))"
    let ?l = "lru_note EvictCapacity (length (without k (l_es l)) - length ?t) l"
    have le: "lsize (k, v, x) \<le> l_maxBytes l" using False by linarith
    obtain s2 where s2: "evict_loop (lsize (k, v, x)) s1 = Some s2" "links s2 (take (length ?t) as1) ?t"
      "same_env s2 ?l" "carried (m_heap s2) = carried (m_heap s1)"
      using evict_loop_spec [OF s1(2,3) le] by blast
    have na2: "a \<notin> insert head (set (take (length ?t) as1))" using s1(5) by (auto dest: in_set_takeD)
    have "k \<notin> fst ` set ?t"
      using trim_subset [of "l_maxEntries l" "l_maxBytes l" "lsize (k, v, x)" "without k (l_es l)"]
      unfolding set_without by blast
    then have "map_of ?t k = None" by (simp add: map_of_eq_None_iff)
    from links_pushFront [OF s2(2) _ na2 this, of v x] s1(4) s2(4) obtain h where
      h: "pushFront a (m_heap s2) = Some h"
      "links (s2\<lparr>m_items := (m_items s2)(k \<mapsto> a), m_heap := h, m_count := m_count s2 + 1,
         m_size := m_size s2 + lsize (k, v, x)\<rparr>) (a # take (length ?t) as1) ((k, v, x) # ?t)"
      by auto
    have "setLocked a s0 = Some (s2\<lparr>m_items := (m_items s2)(k \<mapsto> a), m_heap := h,
        m_count := m_count s2 + 1, m_size := m_size s2 + lsize (k, v, x)\<rparr>)" (is "_ = Some ?s3")
      using False s1(1,3) s2(1) h(1) ha sz by (simp add: setLocked_def same_env_def)
    moreover have put: "lru_put (k, v, x) l = ?l\<lparr>l_es := (k, v, x) # ?t\<rparr>"
      using le by (simp add: lru_put_def Let_def lru_note_def)
    moreover have "same_env ?s3 ?l" using s2(3) by (simp add: same_env_def)
    then have "rel ?s3 (?l\<lparr>l_es := (k, v, x) # ?t\<rparr>)"
      unfolding rel_def same_env_es using h(2) by auto
    ultimately show ?thesis by simp
  qed
qed

end
