(* ===== verification/MemoryCalls.thy ===== *)
theory MemoryCalls
  imports MemoryRefine
begin

text \<open>
  The refinement of \<open>MemoryRefine\<close> lifted to the exported methods, and to any sequence of calls on a
  store built by \<open>New\<close>.  The calls are the five methods of \<open>cistern.Store\<close> and \<open>cistern.TagStore\<close>.
\<close>

section \<open>Counters\<close>

lemma now_cases:
  assumes "rel s l"
  obtains t s' l' where "mem_now s = (t, s')" "lru_now l = (t, l')" "rel s' l'"
  using sim_now [OF assms] by (metis prod.collapse)

lemma put_sim:
  assumes "rel s l"
  shows "\<exists>s'. setLocked (fst (new_entry k v x s)) (snd (new_entry k v x s)) = Some s'
    \<and> rel s' (lru_put (k, v, x) l)"
  using setLocked_sim [OF assms] by (metis prod.collapse)

lemma rel_draw:
  "rel s l \<Longrightarrow> m_rand s (m_draw s) = l_rand l (l_draw l)
    \<and> rel (s\<lparr>m_draw := Suc (m_draw s)\<rparr>) (l\<lparr>l_draw := Suc (l_draw l)\<rparr>)"
  by (auto simp: rel_def same_env_def links_def)

lemma create_sim:
  assumes R: "rel s l"
  shows "sim (let drawn = m_rand s (m_draw s); s = s\<lparr>m_draw := Suc (m_draw s)\<rparr> in
       case NewGeneration drawn of
         Inl err \<Rightarrow> Some (Inl err, s)
       | Inr g \<Rightarrow> do {
           let (now, s) = mem_now s;
           let (a, s) = new_entry k (be64 g) (now + ttl) s;
           s \<leftarrow> setLocked a s;
           Some (Inr g, s) })
    (case NewGeneration (l_rand l (l_draw l)) of
        Inl err \<Rightarrow> (Inl err, l\<lparr>l_draw := Suc (l_draw l)\<rparr>)
      | Inr g \<Rightarrow> let (t, l) = lru_now (l\<lparr>l_draw := Suc (l_draw l)\<rparr>)
          in (Inr g, lru_put (k, be64 g, t + ttl) l))"
proof (cases "NewGeneration (l_rand l (l_draw l))")
  case (Inl err)
  with rel_draw [OF R] show ?thesis by (simp add: sim_def Let_def)
next
  case (Inr g)
  obtain t s' l' where n: "mem_now (s\<lparr>m_draw := Suc (m_draw s)\<rparr>) = (t, s')"
    "lru_now (l\<lparr>l_draw := Suc (l_draw l)\<rparr>) = (t, l')" "rel s' l'"
    using now_cases rel_draw [OF R] by blast
  obtain s2 where "setLocked (fst (new_entry k (be64 g) (t + ttl) s')) (snd (new_entry k (be64 g) (t + ttl) s'))
      = Some s2" "rel s2 (lru_put (k, be64 g, t + ttl) l')" using put_sim [OF n(3)] by blast
  with Inr n rel_draw [OF R] show ?thesis by (simp add: sim_def Let_def split_beta)
qed

lemma simE:
  assumes "sim m p"
  obtains r s l where "m = Some (r, s)" "p = (r, l)" "rel s l"
  using assms by (cases p) (auto simp: sim_def)

lemma counterLocked_sim:
  assumes R: "rel s l"
  shows "sim (counterLocked k ttl s) (lru_counter k ttl l)"
proof (rule simE [OF getLocked_sim [OF R, of k]])
  fix v s1 l1
  assume r: "getLocked k s = Some (v, s1)" "lru_get k l = (v, l1)" "rel s1 l1"
  show ?thesis
    using create_sim [OF r(3), of k ttl] r
    by (cases v) (auto simp: counterLocked_def lru_counter_def Let_def intro!: simI)
qed

lemma counters_sim: "rel s l \<Longrightarrow> sim (counters gks ttl s) (lru_counters gks ttl l)"
proof (induction gks arbitrary: s l)
  case Nil
  then show ?case by (simp add: simI)
next
  case (Cons gk gks)
  show ?case
  proof (rule simE [OF counterLocked_sim [OF Cons.prems, of gk ttl]])
    fix g s1 l1
    assume r: "counterLocked gk ttl s = Some (g, s1)" "lru_counter gk ttl l = (g, l1)" "rel s1 l1"
    show ?thesis
      by (rule simE [OF Cons.IH [OF r(3)]]) (use r in \<open>cases g; simp add: sim_def\<close>)
  qed
qed

lemma bump_loop_sim: "rel s l \<Longrightarrow> sim (bump_loop gks ttl s) (lru_bumps gks ttl l)"
proof (induction gks arbitrary: s l)
  case Nil
  then show ?case by (simp add: simI)
next
  case (Cons gk gks)
  show ?case
  proof (rule simE [OF counterLocked_sim [OF Cons.prems, of gk ttl]])
    fix g s1 l1
    assume r: "counterLocked gk ttl s = Some (g, s1)" "lru_counter gk ttl l = (g, l1)" "rel s1 l1"
    show ?thesis
    proof (cases g)
      case (Inl err)
      with r show ?thesis by (simp add: sim_def)
    next
      case (Inr n)
      obtain t s2 l2 where n: "mem_now s1 = (t, s2)" "lru_now l1 = (t, l2)" "rel s2 l2"
        using now_cases [OF r(3)] .
      obtain s3 where s3: "setLocked (fst (new_entry gk (be64 (n + 1)) (t + ttl) s2))
          (snd (new_entry gk (be64 (n + 1)) (t + ttl) s2)) = Some s3"
        "rel s3 (lru_put (gk, be64 (n + 1), t + ttl) l2)" using put_sim [OF n(3)] by blast
      have "bump_loop (gk # gks) ttl s = bump_loop gks ttl s3"
        using r(1) Inr n(1) s3(1) by (simp add: split_beta)
      moreover have "lru_bumps (gk # gks) ttl l = lru_bumps gks ttl (lru_put (gk, be64 (n + 1), t + ttl) l2)"
        using r(2) Inr n(2) by simp
      ultimately show ?thesis using Cons.IH [OF s3(2)] by simp
    qed
  qed
qed

section \<open>The exported methods\<close>

lemma mem_Get_sim: "rel s l \<Longrightarrow> sim (mem_Get e k s) (lru_Get e k l)"
  by (rule simE [OF getLocked_sim [of s l k]])
    (auto simp: mem_Get_def lru_Get_def rel_report split: option.split intro!: simI)

lemma mem_GetTagged_sim:
  assumes "rel s l"
  shows "sim (mem_GetTagged e k gks ttl s) (lru_GetTagged e k gks ttl l)"
proof (rule simE [OF getLocked_sim [OF assms, of k]])
  fix v s1 l1
  assume r: "getLocked k s = Some (v, s1)" "lru_get k l = (v, l1)" "rel s1 l1"
  show ?thesis
    by (rule simE [OF counters_sim [OF r(3), of gks ttl]])
      (use r assms in \<open>auto simp: mem_GetTagged_def lru_GetTagged_def rel_report split: option.split intro!: simI\<close>)
qed

lemma mem_Bump_sim: "rel s l \<Longrightarrow> sim (mem_Bump e gks ttl s) (lru_Bump e gks ttl l)"
  by (rule simE [OF bump_loop_sim [of s l gks ttl]])
    (auto simp: mem_Bump_def lru_Bump_def rel_report split: option.split intro!: simI)

lemma mem_Set_sim:
  assumes "rel s l"
  shows "sim (mem_Set e k v ttl s) (lru_Set e k v ttl l)"
proof -
  obtain t s1 l1 where n: "mem_now s = (t, s1)" "lru_now l = (t, l1)" "rel s1 l1"
    using now_cases [OF assms] .
  obtain s2 where "setLocked (fst (new_entry k v (t + ttl) s1)) (snd (new_entry k v (t + ttl) s1)) = Some s2"
    "rel s2 (lru_put (k, v, t + ttl) l1)" using put_sim [OF n(3)] by blast
  with n assms show ?thesis
    by (auto simp: mem_Set_def lru_Set_def split_beta rel_report split: option.split intro!: simI)
qed

lemma mem_Delete_sim:
  assumes R: "rel s l"
  shows "sim (mem_Delete e k s) (lru_Delete e k l)"
proof -
  obtain as where L: "links s as (l_es l)" and E: "same_env s l" using R by (auto simp: rel_def)
  show ?thesis
  proof (cases "m_items s k")
    case None
    then have "without k (l_es l) = l_es l" using links_None [OF L] by (simp add: without_notin)
    with None R show ?thesis by (auto simp: mem_Delete_def lru_Delete_def split: option.split intro!: simI)
  next
    case (Some a)
    obtain s' where "mem_remove a s = Some s'" "rel s' (l\<lparr>l_es := without k (l_es l)\<rparr>)"
      by (rule mem_remove_rel [OF L E Some])
    with Some R show ?thesis by (auto simp: mem_Delete_def lru_Delete_def split: option.split intro!: simI)
  qed
qed

section \<open>Sequences of calls\<close>

datatype mcall =
    MGet "error option" string
  | MGetTagged "error option" string "string list" duration
  | MBump "error option" "string list" duration
  | MSet "error option" string bytes duration
  | MDelete "error option" string

datatype mres = RGet "bytes option result" | RTagged "(bytes option \<times> u64 list) result"
  | RErr "error option"

fun mem_call :: "mcall \<Rightarrow> store \<Rightarrow> (mres \<times> store) option" where
  "mem_call (MGet e k) s = map_option (apfst RGet) (mem_Get e k s)"
| "mem_call (MGetTagged e k gks ttl) s = map_option (apfst RTagged) (mem_GetTagged e k gks ttl s)"
| "mem_call (MBump e gks ttl) s = map_option (apfst RErr) (mem_Bump e gks ttl s)"
| "mem_call (MSet e k v ttl) s = map_option (apfst RErr) (mem_Set e k v ttl s)"
| "mem_call (MDelete e k) s = map_option (apfst RErr) (mem_Delete e k s)"

fun lru_call :: "mcall \<Rightarrow> lru \<Rightarrow> mres \<times> lru" where
  "lru_call (MGet e k) l = apfst RGet (lru_Get e k l)"
| "lru_call (MGetTagged e k gks ttl) l = apfst RTagged (lru_GetTagged e k gks ttl l)"
| "lru_call (MBump e gks ttl) l = apfst RErr (lru_Bump e gks ttl l)"
| "lru_call (MSet e k v ttl) l = apfst RErr (lru_Set e k v ttl l)"
| "lru_call (MDelete e k) l = apfst RErr (lru_Delete e k l)"

fun mem_run :: "mcall list \<Rightarrow> store \<Rightarrow> (mres list \<times> store) option" where
  "mem_run [] s = Some ([], s)"
| "mem_run (c # cs) s = do { (r, s) \<leftarrow> mem_call c s; (rs, s) \<leftarrow> mem_run cs s; Some (r # rs, s) }"

fun lru_run :: "mcall list \<Rightarrow> lru \<Rightarrow> mres list \<times> lru" where
  "lru_run [] l = ([], l)"
| "lru_run (c # cs) l =
     (case lru_call c l of (r, l) \<Rightarrow> case lru_run cs l of (rs, l) \<Rightarrow> (r # rs, l))"

definition lru_New :: "(nat \<Rightarrow> time) \<Rightarrow> (nat \<Rightarrow> bytes option) \<Rightarrow> int \<Rightarrow> int \<Rightarrow> bool \<Rightarrow> lru" where
  "lru_New clk rnd mE mB hook =
     \<lparr>l_es = [], l_maxEntries = mE, l_maxBytes = mB, l_onEvict = hook, l_evicted = [],
      l_reported = [], l_clock = clk, l_tick = 0, l_rand = rnd, l_draw = 0\<rparr>"

lemma sim_map: "sim m p \<Longrightarrow> sim (map_option (apfst f) m) (apfst f p)"
  by (auto simp: sim_def)

lemma mem_call_sim: "rel s l \<Longrightarrow> sim (mem_call c s) (lru_call c l)"
  by (cases c) (simp_all add: sim_map mem_Get_sim mem_GetTagged_sim mem_Bump_sim mem_Set_sim mem_Delete_sim)

lemma mem_run_sim: "rel s l \<Longrightarrow> sim (mem_run cs s) (lru_run cs l)"
proof (induction cs arbitrary: s l)
  case Nil
  then show ?case by (simp add: simI)
next
  case (Cons c cs)
  show ?case
  proof (rule simE [OF mem_call_sim [OF Cons.prems, of c]])
    fix r s1 l1
    assume r: "mem_call c s = Some (r, s1)" "lru_call c l = (r, l1)" "rel s1 l1"
    show ?thesis by (rule simE [OF Cons.IH [OF r(3)]]) (use r in \<open>simp add: sim_def\<close>)
  qed
qed

end
