(* ===== verification/MemorySpec.thy ===== *)
theory MemorySpec
  imports MemoryCalls
begin

text \<open>
  What the in-process store guarantees for every sequence of calls on a store built by \<open>New\<close>: it
  never panics, it stays within both of its limits, a hit is the value of the last write of that key
  and has not expired, and a counter moves by one when its tag is invalidated.  The invariants are
  proved once for the abstract store, in the locale \<open>lru_invariant\<close>, and carried to the pointers by
  the refinement of \<open>MemoryCalls\<close>.
\<close>

section \<open>States of a built store\<close>

text \<open>The state after \<open>New\<close> with these options and then these calls.\<close>

definition mem_state :: "(nat \<Rightarrow> time) \<Rightarrow> (nat \<Rightarrow> bytes option) \<Rightarrow> (mconfig \<Rightarrow> mconfig) list
    \<Rightarrow> mcall list \<Rightarrow> store option" where
  "mem_state clk rnd opts cs =
     (case mem_New clk rnd opts of Inl _ \<Rightarrow> None | Inr s \<Rightarrow> map_option snd (mem_run cs s))"

lemma ring_empty: "ring (\<lambda>a. if a = 0 then Some \<lparr>n_key = [], n_value = [], n_expires = 0,
    n_prev = Some 0, n_next = Some 0\<rparr> else None) []"
  by (simp add: ring_def nxt_def prv_def head_def)

lemma New_rel:
  assumes "mem_New clk rnd opts = Inr s"
  shows "rel s (lru_New clk rnd (maxEntries s) (maxBytes s) (m_onEvict s))"
proof -
  have "links s [] [] \<and> same_env s (lru_New clk rnd (maxEntries s) (maxBytes s) (m_onEvict s))"
    using assms ring_empty
    by (auto simp: mem_New_def Let_def links_def same_env_def lru_New_def fun_upd_def head_def
        split: if_splits)
  then show ?thesis by (auto simp: rel_def lru_New_def)
qed

section \<open>Invariants of the abstract store\<close>

locale lru_invariant =
  fixes P :: "lru \<Rightarrow> bool"
  assumes get: "P l \<Longrightarrow> P (snd (lru_get k l))"
    and put: "P l \<Longrightarrow> P (lru_put e l)"
    and env: "P l \<Longrightarrow> l_es l' = l_es l \<Longrightarrow> l_maxEntries l' = l_maxEntries l \<Longrightarrow>
      l_maxBytes l' = l_maxBytes l \<Longrightarrow> P l'"
    and drop: "P l \<Longrightarrow> P (l\<lparr>l_es := without k (l_es l)\<rparr>)"
begin

lemma now: "P l \<Longrightarrow> P (snd (lru_now l))"
  by (erule env) (simp_all add: lru_now_def)

lemma report: "P l \<Longrightarrow> P (lru_report l)"
  by (erule env) (simp_all add: lru_report_def)

lemma draw: "P l \<Longrightarrow> P (l\<lparr>l_draw := n\<rparr>)"
  by (erule env) simp_all

lemma create: "P l \<Longrightarrow> P (lru_put e (snd (lru_now (l\<lparr>l_draw := n\<rparr>))))"
  by (intro put now draw)

lemma counter: "P l \<Longrightarrow> P (snd (lru_counter k ttl l))"
  using get [of l k] create draw
  by (auto simp: lru_counter_def Let_def split_beta split: option.split sum.split)

lemma counters: "P l \<Longrightarrow> P (snd (lru_counters ks ttl l))"
proof (induction ks arbitrary: l)
  case (Cons k ks)
  then show ?case using counter [OF Cons.prems, of k ttl]
    by (cases "lru_counter k ttl l"; cases "fst (lru_counter k ttl l)") (auto simp: split_beta)
qed simp

lemma bumps: "P l \<Longrightarrow> P (snd (lru_bumps ks ttl l))"
proof (induction ks arbitrary: l)
  case (Cons k ks)
  then show ?case using counter [OF Cons.prems, of k ttl]
    by (cases "lru_counter k ttl l"; cases "fst (lru_counter k ttl l)")
      (auto simp: split_beta intro!: Cons.IH put now)
qed simp

lemma call: "P l \<Longrightarrow> P (snd (lru_call c l))"
  by (cases c)
    (auto simp: lru_Get_def lru_GetTagged_def lru_Bump_def lru_Set_def lru_Delete_def split_beta
      intro!: report get counters bumps put now drop split: option.split)

lemma run: "P l \<Longrightarrow> P (snd (lru_run cs l))"
  by (induction cs arbitrary: l) (simp_all add: split_beta call)

lemma run_New:
  "P (lru_New clk rnd mE mB h) \<Longrightarrow> P (snd (lru_run cs (lru_New clk rnd mE mB h)))"
  by (rule run)

end

definition lru_bounded :: "lru \<Rightarrow> bool" where
  "lru_bounded l \<longleftrightarrow> 0 < l_maxEntries l \<and> 0 < l_maxBytes l
     \<and> int (length (l_es l)) \<le> l_maxEntries l \<and> lru_total (l_es l) \<le> l_maxBytes l"

lemma without_drops:
  "map_of es k = Some (v, x) \<Longrightarrow>
   length (without k es) < length es \<and> lsize (k, v, x) + lru_total (without k es) \<le> lru_total es"
proof (induction es)
  case (Cons e es)
  obtain k' v' x' where e: "e = (k', v', x')" by (cases e)
  show ?case
  proof (cases "k' = k")
    case True
    then have "without k (e # es) = without k es" by (simp add: without_def e)
    moreover have "lsize (k, v, x) = lsize e" using Cons.prems True e by simp
    ultimately show ?thesis using length_without [of k es] lru_total_without [of k es] by simp
  next
    case False
    then have "without k (e # es) = e # without k es" by (simp add: without_def e)
    moreover have "map_of es k = Some (v, x)" using Cons.prems False e by simp
    ultimately show ?thesis using Cons.IH by simp
  qed
qed simp

lemma bounded_get: "lru_bounded l \<Longrightarrow> lru_bounded (snd (lru_get k l))"
  using length_without [of k "l_es l"] lru_total_without [of k "l_es l"] without_drops [of "l_es l" k]
  by (fastforce simp: lru_bounded_def lru_get_def lru_now_def split: option.split)

lemma bounded_put: "lru_bounded l \<Longrightarrow> lru_bounded (lru_put e l)"
  using length_without [of "fst e" "l_es l"] lru_total_without [of "fst e" "l_es l"]
    trim_fits [of "l_maxEntries l" "lsize e" "l_maxBytes l" "without (fst e) (l_es l)"]
  by (auto simp: lru_bounded_def lru_put_def Let_def fits_def)

interpretation bounded: lru_invariant lru_bounded
proof unfold_locales
  show "lru_bounded (l\<lparr>l_es := without k (l_es l)\<rparr>)" if "lru_bounded l" for l k
    using that length_without [of k "l_es l"] lru_total_without [of k "l_es l"]
    by (simp add: lru_bounded_def)
qed (simp_all add: bounded_get bounded_put, simp add: lru_bounded_def)

definition lru_limits :: "int \<Rightarrow> int \<Rightarrow> lru \<Rightarrow> bool" where
  "lru_limits mE mB l \<longleftrightarrow> l_maxEntries l = mE \<and> l_maxBytes l = mB"

interpretation limits: lru_invariant "lru_limits mE mB"
  by unfold_locales
    (auto simp: lru_limits_def lru_get_def lru_put_def lru_now_def Let_def split: option.split)

section \<open>The built store\<close>

lemma mem_state_run:
  assumes "mem_state clk rnd opts cs = Some s"
  obtains s0 rs l where "mem_New clk rnd opts = Inr s0" "mem_run cs s0 = Some (rs, s)"
    "lru_run cs (lru_New clk rnd (maxEntries s0) (maxBytes s0) (m_onEvict s0)) = (rs, l)" "rel s l"
proof -
  from assms obtain s0 rs where s: "mem_New clk rnd opts = Inr s0" "mem_run cs s0 = Some (rs, s)"
    by (auto simp: mem_state_def split: sum.splits)
  show ?thesis
    by (rule simE [OF mem_run_sim [OF New_rel [OF s(1)], of cs]]) (use s that in auto)
qed

lemma mem_state_total:
  assumes "mem_New clk rnd opts = Inr s0"
  shows "\<exists>s. mem_state clk rnd opts cs = Some s"
  by (rule simE [OF mem_run_sim [OF New_rel [OF assms], of cs]]) (simp add: mem_state_def assms)

lemma limits_kept:
  assumes "mem_state clk rnd opts cs = Some s" "mem_New clk rnd opts = Inr s0"
  shows "maxEntries s = maxEntries s0 \<and> maxBytes s = maxBytes s0"
proof -
  obtain rs l where "lru_run cs (lru_New clk rnd (maxEntries s0) (maxBytes s0) (m_onEvict s0)) = (rs, l)"
    "rel s l" using mem_state_run [OF assms(1)] assms(2) by (metis Inr_inject)
  then show ?thesis
    using limits.run_New [of "maxEntries s0" "maxBytes s0" clk rnd "maxEntries s0" "maxBytes s0" "m_onEvict s0" cs]
    by (simp add: lru_limits_def lru_New_def rel_def same_env_def)
qed

lemma rel_items: "rel s l \<Longrightarrow> dom (m_items s) = fst ` set (l_es l)"
  unfolding rel_def using links_None by (metis (no_types, lifting) domIff map_of_eq_None_iff subsetI subset_antisym)

lemma rel_entry:
  assumes "rel s l" "(k, v, x) \<in> set (l_es l)"
  shows "\<exists>a n. m_items s k = Some a \<and> m_heap s a = Some n \<and> entry_size n = lsize (k, v, x)"
proof -
  obtain as where L: "links s as (l_es l)" using assms(1) by (auto simp: rel_def)
  have d: "distinct (map fst (l_es l))" using L by (simp add: links_def)
  have "map_of (l_es l) k = Some (v, x)" using assms(2) d by simp
  moreover obtain a where a: "m_items s k = Some a"
    using links_None [OF L, of k] calculation by (metis option.distinct(1) option.exhaust)
  ultimately have "carried (m_heap s) a = Some (k, v, x)"
    using links_Some [OF L a] by (metis option.inject prod.inject)
  then show ?thesis using a carried_node entry_size_carried by blast
qed

lemma rel_size:
  assumes R: "rel s l"
  shows "m_count s = int (card (dom (m_items s)))"
    "m_size s = (\<Sum>k \<in> dom (m_items s). entry_size (the (m_heap s (the (m_items s k)))))"
proof -
  obtain as where L: "links s as (l_es l)" using R by (auto simp: rel_def)
  have d: "distinct (map fst (l_es l))" using L by (simp add: links_def)
  show "m_count s = int (card (dom (m_items s)))"
    using L distinct_card [OF d] rel_items [OF R] by (simp add: links_def)
  let ?f = "\<lambda>k. entry_size (the (m_heap s (the (m_items s k))))"
  have "map lsize (l_es l) = map ?f (map fst (l_es l))"
  proof (simp, rule ballI)
    fix e assume "e \<in> set (l_es l)"
    moreover obtain k v x where e: "e = (k, v, x)" by (cases e)
    ultimately have "(k, v, x) \<in> set (l_es l)" by simp
    from rel_entry [OF R this] show "lsize e = ?f (fst e)" by (auto simp: e)
  qed
  moreover have "m_size s = sum_list (map lsize (l_es l))" using L by (simp add: links_def lru_total_def)
  ultimately have "m_size s = sum_list (map ?f (map fst (l_es l)))" by (simp only:)
  also have "\<dots> = sum ?f (set (map fst (l_es l)))" by (rule sum_list_distinct_conv_sum_set [OF d])
  finally show "m_size s = sum ?f (dom (m_items s))" using rel_items [OF R] by simp
qed

lemma evict_loop_fits:
  "m_count s < maxEntries s \<Longrightarrow> m_size s + sz \<le> maxBytes s \<Longrightarrow> evict_loop sz s = Some s"
  by (subst evict_loop.simps) simp

text \<open>A small store to evaluate: the default limits, a clock that counts its readings, and a random
  source that always draws the same bytes.\<close>

definition demo_store :: store where
  "demo_store = projr (mem_New int (\<lambda>_. Some (be64 41)) [])"

definition demo_set :: store where
  "demo_set = snd (the (mem_run [MSet None ''a'' [1] 10, MGet None ''b''] demo_store))"

lemmas mem_eval = mem_Get_def mem_Set_def mem_Delete_def mem_now_def new_entry_def setLocked_def
  getLocked_def pushFront_def unlink_def mem_remove_def mem_evict_def set_next_def set_prev_def
  entry_size_def evict_loop_fits head_def reportEvictions_def

lemma demo_New: "mem_New int (\<lambda>_. Some (be64 41)) [] = Inr demo_store"
  by (simp add: demo_store_def mem_New_def DefaultMaxEntries_def DefaultMaxBytes_def Let_def)

lemmas demo_eval = demo_store_def demo_set_def mem_New_def DefaultMaxEntries_def DefaultMaxBytes_def
  Let_def mem_eval

lemma demo_run: "mem_run [MSet None ''a'' [1] 10, MGet None ''b''] demo_store
    = Some ([RErr None, RGet (Inr None)], demo_set)"
  by (simp add: demo_eval)

lemma demo_state:
  "mem_state int (\<lambda>_. Some (be64 41)) [] [MSet None ''a'' [1] 10, MGet None ''b''] = Some demo_set"
  by (simp add: mem_state_def demo_New demo_run del: mem_run.simps)

section \<open>Properties\<close>

text \<open>C13. Every sequence of calls on a store built by \<open>New\<close> runs to the end, without a nil
  dereference and with a terminating eviction loop, and returns exactly what the abstract LRU store
  with the same limits, clock and random source returns.\<close>

theorem mem_run_refines:
  "mem_New clk rnd opts = Inr s \<Longrightarrow>
   \<exists>s'. mem_run cs s =
     Some (fst (lru_run cs (lru_New clk rnd (maxEntries s) (maxBytes s) (m_onEvict s))), s')"
  by (rule simE [OF mem_run_sim [OF New_rel, of clk rnd opts s cs]]) auto

theorem mem_run_refines_witness:
  "\<exists>s'. mem_run [MSet None ''a'' [1] 10, MGet None ''a'', MGetTagged None ''a'' [''g''] 9] demo_store =
     Some (fst (lru_run [MSet None ''a'' [1] 10, MGet None ''a'', MGetTagged None ''a'' [''g''] 9]
       (lru_New int (\<lambda>_. Some (be64 41)) (maxEntries demo_store) (maxBytes demo_store) (m_onEvict demo_store))), s')"
  by (rule mem_run_refines [OF demo_New])

text \<open>C15. After any calls, the store holds at most \<open>maxEntries\<close> entries of at most \<open>maxBytes\<close>
  bytes altogether, and its two counters are what they count: the number of items, and the bytes of
  their keys and values.\<close>

theorem mem_bounds:
  assumes "mem_state clk rnd opts cs = Some s"
  shows "m_count s \<le> maxEntries s \<and> m_size s \<le> maxBytes s
    \<and> m_count s = int (card (dom (m_items s)))
    \<and> m_size s = (\<Sum>k \<in> dom (m_items s). entry_size (the (m_heap s (the (m_items s k)))))"
proof -
  obtain s0 rs l where r: "mem_New clk rnd opts = Inr s0"
    "lru_run cs (lru_New clk rnd (maxEntries s0) (maxBytes s0) (m_onEvict s0)) = (rs, l)" "rel s l"
    using mem_state_run [OF assms] by metis
  have "0 < maxEntries s0 \<and> 0 < maxBytes s0"
    using New_rel [OF r(1)] by (auto simp: rel_def same_env_def)
  then have "lru_bounded l"
    using bounded.run_New [of clk rnd "maxEntries s0" "maxBytes s0" "m_onEvict s0" cs] r(2)
    by (simp add: lru_bounded_def lru_New_def)
  then have "m_count s \<le> maxEntries s \<and> m_size s \<le> maxBytes s"
    using r(3) by (auto simp: rel_def links_def same_env_def lru_bounded_def)
  then show ?thesis using rel_size [OF r(3)] by simp
qed

theorem mem_bounds_witness:
  "m_count demo_set \<le> maxEntries demo_set \<and> m_size demo_set \<le> maxBytes demo_set
    \<and> m_count demo_set = int (card (dom (m_items demo_set)))
    \<and> m_size demo_set = (\<Sum>k \<in> dom (m_items demo_set).
        entry_size (the (m_heap demo_set (the (m_items demo_set k)))))"
  by (rule mem_bounds [OF demo_state])

text \<open>The writes a sequence of plain calls made, as a map without bounds or expiry: a \<open>Set\<close> stores
  the value and its expiry, a \<open>Delete\<close> removes the key.\<close>

fun shadow :: "mcall list \<Rightarrow> store \<Rightarrow> (string \<Rightarrow> (bytes \<times> time) option) \<Rightarrow>
    string \<Rightarrow> (bytes \<times> time) option" where
  "shadow [] s w = w"
| "shadow (c # cs) s w =
     (case mem_call c s of None \<Rightarrow> w
      | Some (_, s') \<Rightarrow> shadow cs s' (case c of
          MSet None k v ttl \<Rightarrow> if 0 < ttl then w(k \<mapsto> (v, m_clock s (m_tick s) + ttl)) else w
        | MDelete None k \<Rightarrow> w(k := None)
        | _ \<Rightarrow> w))"

fun plain :: "mcall \<Rightarrow> bool" where
  "plain (MGetTagged _ _ _ _) = False" | "plain (MBump _ _ _) = False" | "plain _ = True"

definition covers :: "lru \<Rightarrow> (string \<Rightarrow> (bytes \<times> time) option) \<Rightarrow> bool" where
  "covers l w \<longleftrightarrow> (\<forall>(k, v, x) \<in> set (l_es l). w k = Some (v, x))"

lemma covers_get: "covers l w \<Longrightarrow> covers (snd (lru_get k l)) w"
  by (auto simp: covers_def lru_get_def lru_now_def set_without dest!: map_of_SomeD split: option.split)

lemma covers_put: "covers l w \<Longrightarrow> covers (lru_put (k, v, x) l) (w(k \<mapsto> (v, x)))"
  using trim_subset [of "l_maxEntries l" "l_maxBytes l" "lsize (k, v, x)" "without k (l_es l)"]
  by (fastforce simp: covers_def lru_put_def Let_def set_without)

lemma covers_simps [simp]:
  "covers (lru_report l) w = covers l w" "covers (snd (lru_now l)) w = covers l w"
  by (simp_all add: covers_def lru_report_def lru_now_def)

lemma shadow_covers:
  assumes "rel s l" "covers l w" "\<forall>c \<in> set cs. plain c" "mem_run cs s = Some (rs, s')"
  shows "\<exists>l'. rel s' l' \<and> covers l' (shadow cs s w)"
  using assms
proof (induction cs arbitrary: s l w rs)
  case Nil
  then show ?case by auto
next
  case (Cons c cs)
  show ?case
  proof (rule simE [OF mem_call_sim [OF Cons.prems(1), of c]])
    fix r s1 l1
    assume c: "mem_call c s = Some (r, s1)" "lru_call c l = (r, l1)" "rel s1 l1"
    obtain rs' where run: "mem_run cs s1 = Some (rs', s')"
      using Cons.prems(4) c(1) by (auto split: Option.bind_splits)
    have clk: "m_clock s (m_tick s) = fst (lru_now l)"
      using Cons.prems(1) by (simp add: rel_def same_env_def lru_now_def)
    let ?w = "(case c of
          MSet None k v ttl \<Rightarrow> if 0 < ttl then w(k \<mapsto> (v, m_clock s (m_tick s) + ttl)) else w
        | MDelete None k \<Rightarrow> w(k := None)
        | _ \<Rightarrow> w)"
    have "covers l1 ?w"
    proof (cases c)
      case (MSet e k v ttl)
      then show ?thesis using c(2) Cons.prems(2) covers_put [of "snd (lru_now l)" w]
        by (auto simp: lru_Set_def clk split_beta split: option.splits if_splits)
    next
      case (MGet e k)
      then show ?thesis using c(2) Cons.prems(2) covers_get [of l w k]
        by (auto simp: lru_Get_def split_beta split: option.splits)
    next
      case (MDelete e k)
      then show ?thesis using c(2) Cons.prems(2)
        by (auto simp: lru_Delete_def covers_def set_without split: option.splits)
    qed (use Cons.prems(3) in auto)
    with Cons.IH [OF c(3) _ _ run] Cons.prems(3) c(1) show ?thesis by simp
  qed
qed

text \<open>C27. A hit never invents, resurrects or outlives a value: after any sequence of \<open>Get\<close>, \<open>Set\<close> and
  \<open>Delete\<close>, what \<open>Get\<close> returns for a key is the value of the last write of that key, which no later
  \<open>Delete\<close> removed, and its time to live has not passed.\<close>

theorem mem_hit_is_last_write:
  assumes new: "mem_New clk rnd opts = Inr s0" and run: "mem_run cs s0 = Some (rs, s)"
    and plain: "\<forall>c \<in> set cs. plain c" and hit: "mem_Get None k s = Some (Inr (Some v), s')"
  shows "\<exists>x. shadow cs s0 Map.empty k = Some (v, x) \<and> m_clock s (m_tick s) < x"
proof -
  have "covers (lru_New clk rnd (maxEntries s0) (maxBytes s0) (m_onEvict s0)) Map.empty"
    by (simp add: covers_def lru_New_def)
  from shadow_covers [OF New_rel [OF new] this plain run] obtain l where
    l: "rel s l" "covers l (shadow cs s0 Map.empty)" by blast
  have "lru_Get None k l = (Inr (Some v), snd (lru_Get None k l))"
    using mem_Get_sim [OF l(1), of None k] hit by (auto simp: sim_def prod_eq_iff)
  then obtain x where "map_of (l_es l) k = Some (v, x)" "fst (lru_now l) < x"
    by (auto simp: lru_Get_def lru_get_def split_beta split: option.splits if_splits)
  then show ?thesis using l by (auto simp: covers_def rel_def same_env_def lru_now_def dest!: map_of_SomeD)
qed

theorem mem_hit_is_last_write_witness:
  "\<exists>x. shadow [MSet None ''a'' [1] 10, MGet None ''b''] demo_store Map.empty ''a'' = Some ([1], x)
     \<and> m_clock demo_set (m_tick demo_set) < x"
proof (rule mem_hit_is_last_write [OF demo_New])
  show "mem_run [MSet None ''a'' [1] 10, MGet None ''b''] demo_store
      = Some ([RErr None, RGet (Inr None)], demo_set)" by (rule demo_run)
  show "mem_Get None ''a'' demo_set = Some (Inr (Some [1]), snd (the (mem_Get None ''a'' demo_set)))"
    by (simp add: demo_eval)
qed simp

section \<open>What a call does to the store\<close>

text \<open>The entries from the head of the ring to its tail, read off the links; the fuel is the number
  of items.\<close>

fun walk :: "nat \<Rightarrow> heap \<Rightarrow> addr \<Rightarrow> lentry list" where
  "walk 0 h a = []"
| "walk (Suc n) h a = (case nxt h a of None \<Rightarrow> []
     | Some b \<Rightarrow> (case carried h b of None \<Rightarrow> [] | Some e \<Rightarrow> e # walk n h b))"

definition mem_list :: "store \<Rightarrow> lentry list" where
  "mem_list s = walk (nat (m_count s)) (m_heap s) head"

lemma walk_seg:
  "seg h a as b \<Longrightarrow> map (carried h) as = map Some es \<Longrightarrow> walk (length es) h a = es"
proof (induction es arbitrary: as a)
  case (Cons e es)
  then show ?case by (cases as) auto
qed simp

lemma mem_list_rel: "rel s l \<Longrightarrow> mem_list s = l_es l"
  by (auto simp: rel_def links_def ring_def mem_list_def intro: walk_seg)

lemma mem_state_rel: "mem_state clk rnd opts cs = Some s \<Longrightarrow> \<exists>l. rel s l"
  by (erule mem_state_run) blast

lemma run_eq:
  "rel s l \<Longrightarrow> fst (lru_run cs l) = rs \<Longrightarrow> \<exists>s'. mem_run cs s = Some (rs, s')"
  using mem_run_sim [of s l cs] by (auto simp: sim_def)

lemma trim_take: "trim mE mB sz es = take (length (trim mE mB sz es)) es"
proof -
  obtain n where n: "trim mE mB sz es = take n es" using trim_prefix by blast
  then show ?thesis by (cases "n \<le> length es") (simp_all add: n)
qed

lemma fits_take_iff:
  assumes "0 < mE" "sz \<le> mB" "m \<le> length es"
  shows "fits mE mB sz (take m es) \<longleftrightarrow> m \<le> length (trim mE mB sz es)"
proof
  assume "fits mE mB sz (take m es)"
  then show "m \<le> length (trim mE mB sz es)" using assms(3) by (rule trim_maximal)
next
  assume le: "m \<le> length (trim mE mB sz es)"
  define n where "n = length (trim mE mB sz es)"
  have "take n es = take m es @ take (n - m) (drop m es)"
    using le take_add [of m "n - m" es] by (simp add: n_def)
  moreover have "fits mE mB sz (take n es)"
    using trim_fits [OF assms(1,2), of es] trim_take [of mE mB sz es] by (simp add: n_def)
  ultimately show "fits mE mB sz (take m es)" using fits_prefix by metis
qed

text \<open>C28. A \<open>Set\<close> whose entry fits the byte limit puts it in front and evicts from the least recently
  used end only: what is left of the other entries is their longest prefix, in order of use, that
  leaves room for the new one within both limits.\<close>

theorem mem_set_evicts_lru:
  assumes built: "mem_state clk rnd opts cs = Some s" and ttl: "0 < ttl"
    and fit: "int (length k + length v) \<le> maxBytes s"
  shows "\<exists>s' n. mem_Set None k v ttl s = Some (None, s')
    \<and> mem_list s' = (k, v, m_clock s (m_tick s) + ttl) # take n (without k (mem_list s))
    \<and> (\<forall>m \<le> length (without k (mem_list s)).
         fits (maxEntries s) (maxBytes s) (int (length k + length v)) (take m (without k (mem_list s)))
           \<longleftrightarrow> m \<le> n)"
proof -
  obtain l where R: "rel s l" using mem_state_rel [OF built] by blast
  then have E: "maxEntries s = l_maxEntries l" "maxBytes s = l_maxBytes l" "m_clock s (m_tick s) = fst (lru_now l)"
    "0 < l_maxEntries l" by (auto simp: rel_def same_env_def lru_now_def)
  define es where "es = without k (l_es l)"
  let ?t = "trim (l_maxEntries l) (l_maxBytes l) (int (length k + length v)) es"
  obtain s' where s': "mem_Set None k v ttl s = Some (None, s')" "rel s' (snd (lru_Set None k v ttl l))"
    using mem_Set_sim [OF R, of None k v ttl] ttl by (auto simp: sim_def lru_Set_def split_beta)
  have es: "l_es (snd (lru_now l)) = l_es l" "l_maxEntries (snd (lru_now l)) = l_maxEntries l"
    "l_maxBytes (snd (lru_now l)) = l_maxBytes l" by (simp_all add: lru_now_def)
  have "mem_list s' = (k, v, fst (lru_now l) + ttl) # ?t"
    unfolding mem_list_rel [OF s'(2)] using ttl fit E es
    by (simp add: lru_Set_def split_beta lru_put_def lru_report_def es_def Let_def)
  moreover have "?t = take (length ?t) es" by (rule trim_take)
  moreover have "\<forall>m \<le> length es. fits (maxEntries s) (maxBytes s) (int (length k + length v)) (take m es)
      \<longleftrightarrow> m \<le> length ?t"
    using fits_take_iff E fit by simp
  ultimately show ?thesis using s'(1) E(3) unfolding mem_list_rel [OF R] es_def [symmetric] by metis
qed

text \<open>A store of two entries: writing a third evicts the one not read since.\<close>

theorem mem_set_evicts_lru_witness:
  "\<exists>s. mem_state int (\<lambda>_. None) [WithMaxEntries 2]
      [MSet None ''a'' [1] 10, MSet None ''b'' [2] 10, MGet None ''a''] = Some s
    \<and> (\<exists>s' n. mem_Set None ''c'' [3] 10 s = Some (None, s')
      \<and> mem_list s' = (''c'', [3], m_clock s (m_tick s) + 10) # take n (without ''c'' (mem_list s))
      \<and> (\<forall>m \<le> length (without ''c'' (mem_list s)).
           fits (maxEntries s) (maxBytes s) (int (length ''c'' + length ([3] :: bytes)))
             (take m (without ''c'' (mem_list s))) \<longleftrightarrow> m \<le> n))"
proof -
  let ?s0 = "projr (mem_New int (\<lambda>_. None) [WithMaxEntries 2])"
  let ?cs = "[MSet None ''a'' [1] 10, MSet None ''b'' [2] 10, MGet None ''a'']"
  have s0: "mem_New int (\<lambda>_. None) [WithMaxEntries 2] = Inr ?s0"
    by (simp add: mem_New_def WithMaxEntries_def DefaultMaxBytes_def Let_def)
  obtain s where s: "mem_state int (\<lambda>_. None) [WithMaxEntries 2] ?cs = Some s"
    using mem_state_total [OF s0] by blast
  have "maxBytes s = maxBytes ?s0"
    using limits_kept [OF s s0] by simp
  also have "\<dots> = 2 ^ 26" by (simp add: mem_New_def WithMaxEntries_def DefaultMaxBytes_def Let_def)
  finally have "maxBytes s = 2 ^ 26" .
  then show ?thesis using s by (intro exI [of _ s] conjI mem_set_evicts_lru [OF s]) simp_all
qed

text \<open>A \<open>Get\<close> right after a \<open>Set\<close> of the same key returns the value, as long as its time to live has
  not passed and the entry fits the byte limit; an entry too large to fit is not stored, and leaves
  no older value behind.\<close>

theorem mem_set_then_get:
  assumes built: "mem_state clk rnd opts cs = Some s" and ttl: "0 < ttl"
    and fresh: "m_clock s (Suc (m_tick s)) < m_clock s (m_tick s) + ttl"
  shows "\<exists>s'. mem_run [MSet None k v ttl, MGet None k] s
    = Some ([RErr None, RGet (Inr (if int (length k + length v) \<le> maxBytes s then Some v else None))], s')"
proof -
  obtain l where R: "rel s l" using mem_state_rel [OF built] by blast
  show ?thesis
    by (rule run_eq [OF R])
      (use R ttl fresh in \<open>auto simp: rel_def same_env_def lru_Set_def lru_Get_def lru_get_def lru_now_def
          lru_put_def lru_note_def lru_report_def Let_def\<close>)
qed

theorem mem_set_then_get_witness:
  "\<exists>s'. mem_run [MSet None ''b'' [2, 3] 5, MGet None ''b''] demo_set
    = Some ([RErr None, RGet (Inr (if int (length ''b'' + length ([2, 3] :: bytes)) \<le> maxBytes demo_set
        then Some [2, 3] else None))], s')"
  by (rule mem_set_then_get [OF demo_state]) (simp_all add: demo_eval)

text \<open>A \<open>Get\<close> right after a \<open>Delete\<close> of the same key is a miss, whatever the clock says.\<close>

theorem mem_delete_then_get:
  assumes "mem_state clk rnd opts cs = Some s"
  shows "\<exists>s'. mem_run [MDelete None k, MGet None k] s = Some ([RErr None, RGet (Inr None)], s')"
proof -
  obtain l where R: "rel s l" using mem_state_rel [OF assms] by blast
  show ?thesis by (rule run_eq [OF R]) (simp add: lru_Delete_def lru_Get_def lru_get_def)
qed

theorem mem_delete_then_get_witness:
  "\<exists>s'. mem_run [MDelete None ''a'', MGet None ''a''] demo_set = Some ([RErr None, RGet (Inr None)], s')"
  by (rule mem_delete_then_get [OF demo_state])

section \<open>Counters\<close>

text \<open>A counter that reads will find: eight bytes, and an expiry no reading of the clock reaches.\<close>

definition holds :: "lru \<Rightarrow> string \<Rightarrow> u64 \<Rightarrow> bool" where
  "holds l gk g \<longleftrightarrow> (\<exists>b x. map_of (l_es l) gk = Some (b, x) \<and> length b = 8 \<and> un_be64 b = g
     \<and> (\<forall>n. l_clock l n < x))"

definition env_fixed :: "(nat \<Rightarrow> time) \<Rightarrow> (nat \<Rightarrow> bytes option) \<Rightarrow> int \<Rightarrow> lru \<Rightarrow> bool" where
  "env_fixed clk rnd mB l \<longleftrightarrow> l_clock l = clk \<and> l_rand l = rnd \<and> l_maxBytes l = mB"

lemma env_fixed_step [simp]:
  "env_fixed clk rnd mB (snd (lru_get k l)) = env_fixed clk rnd mB l"
  "env_fixed clk rnd mB (lru_put e l) = env_fixed clk rnd mB l"
  "env_fixed clk rnd mB (snd (lru_now l)) = env_fixed clk rnd mB l"
  "env_fixed clk rnd mB (lru_report l) = env_fixed clk rnd mB l"
  "env_fixed clk rnd mB (l\<lparr>l_draw := n\<rparr>) = env_fixed clk rnd mB l"
  by (auto simp: env_fixed_def lru_get_def lru_put_def lru_now_def lru_note_def lru_report_def Let_def
      split: option.split)

lemma holds_step [simp]:
  "holds (snd (lru_now l)) gk g = holds l gk g"
  "holds (lru_report l) gk g = holds l gk g"
  by (simp_all add: holds_def lru_now_def lru_report_def)

lemma holds_get: "holds l gk g \<Longrightarrow> holds (snd (lru_get k l)) gk g"
  by (fastforce simp: holds_def lru_get_def lru_now_def lru_note_def split: option.split)

lemma holds_put:
  "int (length gk) + 8 \<le> l_maxBytes l \<Longrightarrow> \<forall>n. l_clock l n < x \<Longrightarrow> holds (lru_put (gk, be64 g, x) l) gk g"
  by (simp add: holds_def lru_put_def lru_note_def Let_def)

lemma counter_holds: "holds l gk g \<Longrightarrow> lru_counter gk ttl l = (Inr g, snd (lru_get gk l))"
  by (auto simp: holds_def lru_counter_def lru_get_def lru_now_def split_beta)

lemma counter_first:
  assumes E: "env_fixed (\<lambda>_. t) rnd mB l" and rnd: "\<And>n. rnd n \<noteq> None" and ttl: "0 < ttl"
    and fit: "int (length gk) + 8 \<le> mB"
  shows "\<exists>g l'. lru_counter gk ttl l = (Inr g, l') \<and> holds l' gk g \<and> env_fixed (\<lambda>_. t) rnd mB l'"
proof (cases "\<exists>g. holds l gk g")
  case True
  then show ?thesis using counter_holds holds_get E by fastforce
next
  case False
  let ?l = "snd (lru_get gk l)"
  obtain b g where g: "rnd (l_draw ?l) = Some b" "NewGeneration (Some b) = Inr g"
    using rnd by (fastforce simp: NewGeneration_def)
  let ?l' = "lru_put (gk, be64 g, t + ttl) (snd (lru_now (?l\<lparr>l_draw := Suc (l_draw ?l)\<rparr>)))"
  have E': "env_fixed (\<lambda>_. t) rnd mB ?l" using E by simp
  have old: "length b \<noteq> 8" if "fst (lru_get gk l) = Some b" for b
    using that False E
    by (auto simp: holds_def lru_get_def lru_now_def env_fixed_def split: option.splits if_splits)
  have "lru_counter gk ttl l = (Inr g, ?l')"
    using g old E' by (auto simp: lru_counter_def lru_now_def env_fixed_def split_beta Let_def split: option.split)
  moreover have "holds ?l' gk g"
    by (rule holds_put) (use fit E' ttl in \<open>auto simp: env_fixed_def lru_now_def\<close>)
  moreover have "env_fixed (\<lambda>_. t) rnd mB ?l'" using E by simp
  ultimately show ?thesis by blast
qed

lemma tagged_holds:
  "holds l gk g \<Longrightarrow> 0 < ttl \<Longrightarrow>
   \<exists>v l'. lru_GetTagged None k [gk] ttl l = (Inr (v, [g]), l') \<and> holds l' gk g
     \<and> (env_fixed clk rnd mB l \<longrightarrow> env_fixed clk rnd mB l')"
  using counter_holds [of "snd (lru_get k l)" gk g ttl] holds_get [of _ gk g]
  by (simp add: lru_GetTagged_def split_beta)

lemma bump_holds:
  assumes "holds l gk g" "0 < ttl" "env_fixed (\<lambda>_. t) rnd mB l" "int (length gk) + 8 \<le> mB"
  shows "\<exists>l'. lru_Bump None [gk] ttl l = (None, l') \<and> holds l' gk (g + 1)"
proof -
  let ?l = "snd (lru_now (snd (lru_get gk l)))"
  have "env_fixed (\<lambda>_. t) rnd mB ?l" using assms(3) by simp
  then have "holds (lru_put (gk, be64 (g + 1), t + ttl) ?l) gk (g + 1)"
    by (intro holds_put) (use assms in \<open>auto simp: env_fixed_def\<close>)
  moreover have "fst (lru_now (snd (lru_get gk l))) = t"
  proof -
    have "env_fixed (\<lambda>_. t) rnd mB (snd (lru_get gk l))" using assms(3) by simp
    then show ?thesis by (simp add: env_fixed_def lru_now_def)
  qed
  ultimately show ?thesis using counter_holds [OF assms(1), of ttl] assms(2)
    by (simp add: lru_Bump_def split_beta)
qed

text \<open>Counters identify generations: as long as the clock stands still and the random source works,
  reading a counter twice gives the same value, whether the first read found or created it, and an
  invalidation moves it to the next value for every later read.\<close>

theorem mem_bump_moves_counter:
  assumes built: "mem_state clk rnd opts cs = Some s" and ttl: "0 < ttl"
    and still: "\<forall>n. m_clock s n = t" and rnd: "\<forall>n. m_rand s n \<noteq> None"
    and fit: "int (length gk) + 8 \<le> maxBytes s"
  shows "\<exists>s' v1 v2 v3 g. mem_run [MGetTagged None k1 [gk] ttl, MGetTagged None k2 [gk] ttl,
      MBump None [gk] ttl, MGetTagged None k3 [gk] ttl] s
    = Some ([RTagged (Inr (v1, [g])), RTagged (Inr (v2, [g])), RErr None, RTagged (Inr (v3, [g + 1]))], s')"
proof -
  obtain l where R: "rel s l" using mem_state_rel [OF built] by blast
  have E: "env_fixed (\<lambda>_. t) (m_rand s) (maxBytes s) l"
    using R still by (auto simp: rel_def same_env_def env_fixed_def)
  let ?E = "env_fixed (\<lambda>_. t) (m_rand s) (maxBytes s)"
  let ?l = "snd (lru_get k1 l)"
  obtain g l1 where c: "lru_counter gk ttl ?l = (Inr g, l1)" "holds l1 gk g" "?E l1"
    using counter_first [of t "m_rand s" "maxBytes s" ?l ttl gk] E rnd ttl fit by auto
  have 1: "lru_GetTagged None k1 [gk] ttl l = (Inr (fst (lru_get k1 l), [g]), lru_report l1)"
    using c(1) ttl by (simp add: lru_GetTagged_def split_beta)
  obtain v2 l2 where 2: "lru_GetTagged None k2 [gk] ttl (lru_report l1) = (Inr (v2, [g]), l2)"
    "holds l2 gk g" "?E l2" using tagged_holds [of "lru_report l1" gk g ttl k2] c(2,3) ttl by simp metis
  obtain l3 where 3: "lru_Bump None [gk] ttl l2 = (None, l3)" "holds l3 gk (g + 1)"
    using bump_holds [OF 2(2) ttl 2(3) fit] by blast
  obtain v3 l4 where 4: "lru_GetTagged None k3 [gk] ttl l3 = (Inr (v3, [g + 1]), l4)"
    using tagged_holds [OF 3(2) ttl] by metis
  have "\<exists>s'. mem_run [MGetTagged None k1 [gk] ttl, MGetTagged None k2 [gk] ttl,
      MBump None [gk] ttl, MGetTagged None k3 [gk] ttl] s
    = Some ([RTagged (Inr (fst (lru_get k1 l), [g])), RTagged (Inr (v2, [g])), RErr None,
        RTagged (Inr (v3, [g + 1]))], s')"
    by (rule run_eq [OF R]) (simp add: 1 2(1) 3(1) 4)
  then show ?thesis by blast
qed

theorem mem_bump_moves_counter_witness:
  "\<exists>s s' v1 v2 v3 g. mem_run [MGetTagged None ''a'' [''g''] 5, MGetTagged None ''a'' [''g''] 5,
      MBump None [''g''] 5, MGetTagged None ''a'' [''g''] 5] s
    = Some ([RTagged (Inr (v1, [g])), RTagged (Inr (v2, [g])), RErr None, RTagged (Inr (v3, [g + 1]))], s')"
proof -
  let ?s = "projr (mem_New (\<lambda>_. 7) (\<lambda>_. Some (be64 41)) [])"
  have "mem_state (\<lambda>_. 7) (\<lambda>_. Some (be64 41)) [] [] = Some ?s"
    by (simp add: mem_state_def mem_New_def DefaultMaxEntries_def DefaultMaxBytes_def Let_def)
  then have "\<exists>s' v1 v2 v3 g. mem_run [MGetTagged None ''a'' [''g''] 5, MGetTagged None ''a'' [''g''] 5,
      MBump None [''g''] 5, MGetTagged None ''a'' [''g''] 5] ?s
    = Some ([RTagged (Inr (v1, [g])), RTagged (Inr (v2, [g])), RErr None, RTagged (Inr (v3, [g + 1]))], s')"
    by (rule mem_bump_moves_counter [where t = 7])
      (simp_all add: mem_New_def DefaultMaxEntries_def DefaultMaxBytes_def Let_def)
  then show ?thesis by blast
qed

end
