(* ===== verification/Envelope.thy ===== *)
theory Envelope
  imports Prelude
begin

text \<open>
  \<open>internal/envelope/envelope.go\<close>: the storage format of every entry.  \<open>Encode\<close> and \<open>Decode\<close> are
  the two functions of the package, with \<open>check\<close> shared by both.  The lemmas show that
  the two are exact inverses: what is encoded decodes to itself, and the only bytes that decode
  are those that \<open>Encode\<close> produces, so an envelope has one representation.
\<close>

section \<open>Data\<close>

record entry =
  Absent :: bool
  Expires :: time
  Codec :: string
  Gens :: "u64 list"
  Payload :: bytes

definition Version :: byte where "Version = 2"
definition MaxTags :: nat where "MaxTags = 8"
definition flagAbsent :: byte where "flagAbsent = push_bit 0 1"
definition knownFlags :: byte where "knownFlags = flagAbsent"
definition headerLen :: nat where "headerLen = 11"
definition maxCodecID :: nat where "maxCodecID = 32"
definition expiryOffset :: nat where "expiryOffset = 2"
definition codecOffset :: nat where "codecOffset = 10"

definition ErrMalformed :: error where
  "ErrMalformed = Sentinel ''envelope: malformed''"

text \<open>\<open>Time.UnixNano\<close>: outside the years 1678 to 2262 the 64-bit result wraps.\<close>

definition UnixNano :: "time \<Rightarrow> int" where
  "UnixNano t = wrap64 t"

section \<open>Operations\<close>

definition check :: "bool \<Rightarrow> int \<Rightarrow> nat \<Rightarrow> nat \<Rightarrow> error option" where
  "check absent expiry codecLen payloadLen =
     (if expiry \<le> 0 then Some (errors_New ''expiry must be positive'')
      else if codecLen < 1 \<or> codecLen > maxCodecID
        then Some (errors_New ''codec id length is outside 1..32'')
      else if absent \<and> payloadLen \<noteq> 0 then Some (errors_New ''an absence carries no payload'')
      else if \<not> absent \<and> payloadLen = 0 then Some (errors_New ''a value needs a payload'')
      else None)"

definition Encode :: "entry \<Rightarrow> bytes result" where
  "Encode e =
     (case check (Absent e) (UnixNano (Expires e)) (length (Codec e)) (length (Payload e)) of
        Some err \<Rightarrow> Inl (Wrap ''envelope: cannot encode: %w'' [err])
      | None \<Rightarrow>
          if length (Gens e) > MaxTags
          then Inl (errors_New ''envelope: cannot encode: too many tags'')
          else
            let flags = (if Absent e then 0 OR flagAbsent else 0);
                out = [Version, flags];
                out = out @ be64 (word_of_int (UnixNano (Expires e)));
                out = out @ [word_of_nat (length (Codec e))];
                out = out @ bytes_of (Codec e);
                out = out @ [word_of_nat (length (Gens e))];
                out = out @ concat (map be64 (Gens e))
            in Inr (out @ Payload e))"

text \<open>The loop over the tag generations: the generation of tag \<open>i\<close> starts at byte \<open>1 + 8 * i\<close>.\<close>

definition decodeGens :: "nat \<Rightarrow> bytes \<Rightarrow> u64 list" where
  "decodeGens tags rest = map (\<lambda>i. un_be64 (drop (1 + 8 * i) rest)) [0..<tags]"

definition malformed :: "string \<Rightarrow> error" where
  "malformed m = Wrap m [ErrMalformed]"

definition Decode :: "bytes \<Rightarrow> int \<Rightarrow> entry result" where
  "Decode data maxPayload =
     (if length data < headerLen then Inl (malformed ''shorter than the header'')
      else if data ! 0 \<noteq> Version then Inl (malformed ''unknown version'')
      else let flags = data ! 1 in
      if flags AND NOT knownFlags \<noteq> 0 then Inl (malformed ''unknown flags'')
      else let expiry = sint (un_be64 (take (codecOffset - expiryOffset) (drop expiryOffset data)));
               codecLen = unat (data ! codecOffset) in
      if length data < headerLen + codecLen then Inl (malformed ''codec id runs past the end'')
      else let rest = drop (headerLen + codecLen) data in
      if length rest < 1 then Inl (malformed ''no tag count'')
      else let tags = unat (rest ! 0) in
      if tags > MaxTags then Inl (malformed ''too many tags'')
      else if length rest < 1 + 8 * tags then Inl (malformed ''tag generations run past the end'')
      else let gens = decodeGens tags rest;
               payload = drop (1 + 8 * tags) rest;
               absent = (flags AND flagAbsent \<noteq> 0) in
      case check absent expiry codecLen (length payload) of
        Some err \<Rightarrow> Inl (Wrap ''%w: %w'' [ErrMalformed, err])
      | None \<Rightarrow>
          if int (length payload) > maxPayload then Inl (malformed ''payload exceeds the limit'')
          else Inr \<lparr>Absent = absent, Expires = expiry,
                 Codec = string_of (take codecLen (drop headerLen data)),
                 Gens = gens, Payload = payload\<rparr>)"

section \<open>Layout lemmas\<close>

lemmas envelope_consts = Version_def MaxTags_def flagAbsent_def knownFlags_def headerLen_def
  maxCodecID_def expiryOffset_def codecOffset_def

lemma check_None_iff:
  "check a x n p = None \<longleftrightarrow> 0 < x \<and> 1 \<le> n \<and> n \<le> maxCodecID \<and> (a \<longleftrightarrow> p = 0)"
  by (auto simp: check_def)

lemma length_concat_be64 [simp]: "length (concat (map be64 gs)) = 8 * length gs"
  by (induction gs) auto

lemma decodeGens_Suc:
  "decodeGens (Suc n) (x # rest) = un_be64 rest # decodeGens n (x # drop 8 rest)"
  unfolding decodeGens_def map_upt_Suc by (simp add: drop_plus del: drop_drop)

lemma decodeGens_concat [simp]:
  "decodeGens (length gs) (x # concat (map be64 gs) @ p) = gs"
proof (induction gs)
  case Nil
  then show ?case by (simp add: decodeGens_def)
next
  case (Cons g gs)
  then show ?case by (simp add: decodeGens_Suc)
qed

lemma concat_decodeGens:
  "8 * n \<le> length rest \<Longrightarrow> concat (map be64 (decodeGens n (x # rest))) = take (8 * n) rest"
proof (induction n arbitrary: rest)
  case 0
  then show ?case by (simp add: decodeGens_def)
next
  case (Suc n)
  then have "be64 (un_be64 rest) = take 8 rest"
    using un_be64_take [of rest] by simp
  moreover have "take (8 * Suc n) rest = take 8 rest @ take (8 * n) (drop 8 rest)"
    by (simp add: take_add [symmetric] add.commute)
  ultimately show ?case using Suc by (simp add: decodeGens_Suc)
qed

lemma length_decodeGens [simp]: "length (decodeGens n rest) = n"
  by (simp add: decodeGens_def)


section \<open>Encode and Decode are inverses\<close>

lemma Encode_Inr_iff:
  "Encode e = Inr bs \<longleftrightarrow>
     check (Absent e) (UnixNano (Expires e)) (length (Codec e)) (length (Payload e)) = None \<and>
     length (Gens e) \<le> MaxTags \<and>
     bs = [Version, if Absent e then flagAbsent else 0] @ be64 (word_of_int (UnixNano (Expires e)))
       @ [word_of_nat (length (Codec e))] @ bytes_of (Codec e)
       @ [word_of_nat (length (Gens e))] @ concat (map be64 (Gens e)) @ Payload e"
  by (auto simp: Encode_def Let_def split: option.splits)

lemma sint_word_UnixNano [simp]: "sint (word_of_int (UnixNano t) :: u64) = UnixNano t"
  using wrap64_idem [of t] by (simp add: UnixNano_def wrap64_def)

lemma unat_small_byte: "n \<le> 32 \<Longrightarrow> unat (word_of_nat n :: byte) = n"
  by (simp add: unat_of_nat take_bit_nat_eq_self)

text \<open>The fixed header, read back field by field.\<close>

lemma Decode_layout:
  assumes len: "length x = 8" and n: "length cs = n" "n \<le> 32" and t: "length gs = t" "t \<le> 8"
    and f: "f = (if a then flagAbsent else 0)"
    and ck: "check a (sint (un_be64 x)) n (length p) = None" and m: "int (length p) \<le> m"
  shows "Decode ([Version, f] @ x @ [word_of_nat n] @ cs @ [word_of_nat t]
            @ concat (map be64 gs) @ p) m
       = Inr \<lparr>Absent = a, Expires = sint (un_be64 x), Codec = string_of cs, Gens = gs, Payload = p\<rparr>"
proof -
  let ?d = "[Version, f] @ x @ [word_of_nat n] @ cs @ [word_of_nat t] @ concat (map be64 gs) @ p"
  obtain a1 a2 a3 a4 a5 a6 a7 a8 where x: "x = [a1, a2, a3, a4, a5, a6, a7, a8]"
    using list_eq_8 [OF len] by blast
  have rest: "drop (11 + n) ?d = word_of_nat t # concat (map be64 gs) @ p"
    using n by (simp add: x drop_plus del: drop_drop)
  have f0: "f AND NOT 1 = 0" and fa: "(f AND 1 \<noteq> 0) = a" by (simp_all add: f flagAbsent_def)
  have "take n (drop 11 ?d) = cs" and "?d ! 10 = word_of_nat n" and "take 8 (drop 2 ?d) = x"
    using n by (simp_all add: x)
  moreover have "decodeGens t (y # concat (map be64 gs) @ p) = gs" for y
    using decodeGens_concat [of gs] t by simp
  ultimately show ?thesis
    unfolding Decode_def
    using rest f0 fa n t ck m
    by (simp add: envelope_consts unat_small_byte Let_def x)
qed


lemma Decode_Encode:
  assumes enc: "Encode e = Inr bs" and m: "int (length (Payload e)) \<le> m"
  shows "Decode bs m = Inr (e\<lparr>Expires := UnixNano (Expires e)\<rparr>)"
proof -
  let ?x = "be64 (word_of_int (UnixNano (Expires e)))"
  from enc have ck: "check (Absent e) (UnixNano (Expires e)) (length (Codec e)) (length (Payload e)) = None"
    and g: "length (Gens e) \<le> 8"
    and bs: "bs = [Version, if Absent e then flagAbsent else 0] @ ?x
       @ [word_of_nat (length (Codec e))] @ bytes_of (Codec e)
       @ [word_of_nat (length (Gens e))] @ concat (map be64 (Gens e)) @ Payload e"
    by (auto simp: Encode_Inr_iff MaxTags_def)
  from ck have c: "length (Codec e) \<le> 32" by (simp add: check_None_iff maxCodecID_def)
  show ?thesis unfolding bs
    using Decode_layout [of ?x "bytes_of (Codec e)" "length (Codec e)" "Gens e" _ _ "Absent e" "Payload e" m]
      ck c g m by simp
qed

text \<open>The other direction: a successful decode fixes every byte of its input.\<close>

lemma header_bytes:
  assumes "11 \<le> length data"
  obtains v f x1 x2 x3 x4 x5 x6 x7 x8 n ds
  where "data = v # f # x1 # x2 # x3 # x4 # x5 # x6 # x7 # x8 # n # ds"
proof -
  from assms have "Suc (Suc (Suc (Suc (Suc (Suc (Suc (Suc (Suc (Suc (Suc 0)))))))))) \<le> length data"
    by simp
  then show ?thesis using that by (auto simp: Suc_le_length_iff)
qed

lemma Decode_Inr_D:
  assumes dec: "Decode data m = Inr e"
  obtains f x n y where
    "data = [Version, f] @ x @ [n] @ bytes_of (Codec e) @ [y] @ concat (map be64 (Gens e)) @ Payload e"
    "f AND NOT knownFlags = 0" "Absent e = (f AND flagAbsent \<noteq> 0)"
    "length x = 8" "Expires e = sint (un_be64 x)"
    "unat n = length (Codec e)" "unat y = length (Gens e)" "length (Gens e) \<le> MaxTags"
    "check (Absent e) (Expires e) (length (Codec e)) (length (Payload e)) = None"
    "int (length (Payload e)) \<le> m"
proof -
  from dec have "11 \<le> length data"
    by (auto simp: Decode_def headerLen_def not_less split: if_splits)
  then obtain v f x1 x2 x3 x4 x5 x6 x7 x8 n ds
    where data: "data = v # f # x1 # x2 # x3 # x4 # x5 # x6 # x7 # x8 # n # ds"
    by (rule header_bytes)
  let ?x = "[x1, x2, x3, x4, x5, x6, x7, x8]"
  define rest where "rest = drop (unat n) ds"
  from dec obtain y r where rest: "rest = y # r"
    by (cases rest) (auto simp: Decode_def data envelope_consts Let_def rest_def drop_plus
        simp del: drop_drop split: if_splits)
  have h: "v = Version" "f AND NOT knownFlags = 0" "unat n \<le> length ds" "unat y \<le> MaxTags"
      "8 * unat y \<le> length r"
      "check (f AND flagAbsent \<noteq> 0) (sint (un_be64 ?x)) (unat n) (length (drop (8 * unat y) r)) = None"
      "int (length (drop (8 * unat y) r)) \<le> m"
    and e: "e = \<lparr>Absent = (f AND flagAbsent \<noteq> 0), Expires = sint (un_be64 ?x),
       Codec = string_of (take (unat n) ds), Gens = decodeGens (unat y) (y # r),
       Payload = drop (8 * unat y) r\<rparr>"
    using dec unfolding Decode_def data
    by (auto simp: envelope_consts Let_def rest_def [symmetric] rest drop_plus
        simp del: drop_drop split: if_splits option.splits)
  have "ds = take (unat n) ds @ y # take (8 * unat y) r @ drop (8 * unat y) r"
    using rest unfolding rest_def by (metis append_take_drop_id)
  then have "data = [Version, f] @ ?x @ [n] @ bytes_of (Codec e) @ [y]
      @ concat (map be64 (Gens e)) @ Payload e"
    using h(1,5) by (simp add: data e concat_decodeGens)
  then show ?thesis
    by (rule that) (use h in \<open>simp_all add: e\<close>)
qed


lemma flags_canonical:
  fixes f :: byte
  assumes "f AND NOT knownFlags = 0"
  shows "f = (if f AND flagAbsent \<noteq> 0 then flagAbsent else 0)"
proof -
  have "f = (f AND 1) OR (f AND NOT 1)"
    by (simp add: bit.conj_disj_distrib [symmetric])
  moreover have "f AND 1 = 0 \<or> f AND 1 = 1" by (simp add: and_one_eq mod_2_eq_odd)
  ultimately show ?thesis using assms by (auto simp: envelope_consts)
qed

lemma UnixNano_sint [simp]: "UnixNano (sint (w :: u64)) = sint w"
  by (simp add: UnixNano_def wrap64_def)

lemma Encode_Decode:
  assumes "Decode data m = Inr e"
  shows "Encode e = Inr data \<and> in_int64 (Expires e) \<and> int (length (Payload e)) \<le> m"
  using assms
proof (rule Decode_Inr_D)
  fix f x n y
  assume data: "data = [Version, f] @ x @ [n] @ bytes_of (Codec e) @ [y]
      @ concat (map be64 (Gens e)) @ Payload e"
    and f: "f AND NOT knownFlags = 0" "Absent e = (f AND flagAbsent \<noteq> 0)"
    and x: "length x = 8" "Expires e = sint (un_be64 x)"
    and ny: "unat n = length (Codec e)" "unat y = length (Gens e)" "length (Gens e) \<le> MaxTags"
    and ck: "check (Absent e) (Expires e) (length (Codec e)) (length (Payload e)) = None"
    and m: "int (length (Payload e)) \<le> m"
  have "n = word_of_nat (length (Codec e))" "y = word_of_nat (length (Gens e))"
    by (simp_all add: ny(1,2) [symmetric])
  moreover have "f = (if Absent e then flagAbsent else 0)"
    using flags_canonical [OF f(1)] f(2) by simp
  moreover have "be64 (word_of_int (UnixNano (Expires e))) = x" using x by simp
  ultimately have "Encode e = Inr data"
    using ck ny(3) x(2) by (simp add: Encode_Inr_iff data)
  moreover have "in_int64 (Expires e)"
    using wrap64_in_int64 [of "Expires e"] x(2) UnixNano_sint [of "un_be64 x"] by (simp add: UnixNano_def)
  ultimately show ?thesis using m by blast
qed

text \<open>C18. \<open>Decode\<close> accepts exactly the bytes \<open>Encode\<close> produces (within the payload limit), and gives
  back the very entry that was encoded; in particular every entry has one encoding.\<close>

theorem Decode_iff_Encode:
  "Decode data m = Inr e \<longleftrightarrow>
     Encode e = Inr data \<and> in_int64 (Expires e) \<and> int (length (Payload e)) \<le> m"
proof
  assume "Decode data m = Inr e"
  then show "Encode e = Inr data \<and> in_int64 (Expires e) \<and> int (length (Payload e)) \<le> m"
    by (rule Encode_Decode)
next
  assume h: "Encode e = Inr data \<and> in_int64 (Expires e) \<and> int (length (Payload e)) \<le> m"
  then have "UnixNano (Expires e) = Expires e" by (simp add: UnixNano_def wrap64_id)
  then show "Decode data m = Inr e" using Decode_Encode [of e data m] h by simp
qed

text \<open>Encoding never silently truncates: it fails exactly when the header cannot represent the
  entry (expiry outside the positive 64-bit range, codec id of a bad length, a payload that
  disagrees with the absence flag, too many tags).\<close>

theorem Encode_fails_iff:
  "(\<exists>err. Encode e = Inl err) \<longleftrightarrow>
     \<not> (0 < UnixNano (Expires e) \<and> length (Codec e) \<in> {1..maxCodecID} \<and>
        (Absent e \<longleftrightarrow> Payload e = []) \<and> length (Gens e) \<le> MaxTags)"
  by (auto simp: Encode_def Let_def check_None_iff not_less check_def Suc_le_eq split: option.splits if_splits)

text \<open>Whatever bytes a store returns, a decoding failure is \<open>ErrMalformed\<close>: no other error, and no
  panic, comes out of \<open>Decode\<close>.\<close>

theorem Decode_error_is_ErrMalformed:
  "Decode data m = Inl err \<Longrightarrow> errors_Is err ErrMalformed"
  by (auto simp: Decode_def Let_def malformed_def split: if_splits option.splits)

theorem Decode_error_is_ErrMalformed_witness:
  "errors_Is (malformed ''shorter than the header'') ErrMalformed"
  by (rule Decode_error_is_ErrMalformed [of "[2, 0]" 10])
    (simp add: Decode_def headerLen_def)

end
