(* ===== verification/GenCache.thy ===== *)
theory GenCache
  imports Prelude "HOL-Library.Finite_Map"
begin

text \<open>
  \<open>gencache.go\<close>: a replica's short-lived copy of tag generations.  Every method holds the mutex for
  its whole body, so a concurrent execution is a sequence of the operations below, interleaved in
  any order (\<open>gop\<close>, \<open>grun\<close>).  The drop and clear counters are \<open>uint64\<close> and wrap.

  Shown: the copy stays bounded whatever is dropped; a drop touches no other tag; and a \<open>put\<close> whose
  epoch is older than a drop of one of its keys changes nothing, in every interleaving of fewer
  than \<open>2 ^ 64\<close> operations.
\<close>

section \<open>State\<close>

record cachedGen =
  cg_gen :: u64
  cg_expires :: time

record genCache =
  g_ttl :: duration
  g_m :: "(string, cachedGen) fmap"
  g_drops :: "(string, u64) fmap"
  g_clears :: u64

record genEpoch =
  ep_clears :: u64
  ep_drops :: "u64 list"

definition maxCachedGens :: nat where "maxCachedGens = 10000"

definition newGenCache :: "duration \<Rightarrow> genCache" where
  "newGenCache ttl = \<lparr>g_ttl = ttl, g_m = fmempty, g_drops = fmempty, g_clears = 0\<rparr>"

text \<open>Go's \<open>len\<close> of a map, and the read of a counter map, where a missing key is zero.\<close>

definition map_len :: "('k, 'v) fmap \<Rightarrow> nat" where
  "map_len mp = fcard (fmdom mp)"

definition counter :: "(string, u64) fmap \<Rightarrow> string \<Rightarrow> u64" where
  "counter mp k = (case fmlookup mp k of None \<Rightarrow> 0 | Some n \<Rightarrow> n)"

section \<open>Operations\<close>

definition gc_epoch :: "genCache \<Rightarrow> string list \<Rightarrow> genEpoch" where
  "gc_epoch g genKeys = \<lparr>ep_clears = g_clears g, ep_drops = map (counter (g_drops g)) genKeys\<rparr>"

fun gc_get :: "genCache \<Rightarrow> time \<Rightarrow> string list \<Rightarrow> u64 list option" where
  "gc_get g now [] = Some []"
| "gc_get g now (k # ks) =
     (case fmlookup (g_m g) k of None \<Rightarrow> None
      | Some c \<Rightarrow>
          if \<not> now < cg_expires c then None
          else (case gc_get g now ks of None \<Rightarrow> None | Some gs \<Rightarrow> Some (cg_gen c # gs)))"

definition gc_clear :: "genCache \<Rightarrow> genCache" where
  "gc_clear g = g\<lparr>g_m := fmempty, g_drops := fmempty, g_clears := g_clears g + 1\<rparr>"

text \<open>
  \<open>put\<close> indexes \<open>since.drops\<close> and \<open>gens\<close> by the position of the key; the first is as long as
  \<open>genKeys\<close> (it is the epoch of the same keys), the second is what the store returned.  The second
  component of a result is false for the index-out-of-range panic of a store that returned
  too few generations; what was stored before the panic stays.
\<close>

fun gc_dropped :: "(string, u64) fmap \<Rightarrow> string list \<Rightarrow> u64 list \<Rightarrow> bool" where
  "gc_dropped dr (k # ks) (d # ds) = (counter dr k \<noteq> d \<or> gc_dropped dr ks ds)"
| "gc_dropped dr _ _ = False"

fun gc_store :: "(string, cachedGen) fmap \<Rightarrow> time \<Rightarrow> string list \<Rightarrow> u64 list
    \<Rightarrow> (string, cachedGen) fmap \<times> bool" where
  "gc_store mp expires [] _ = (mp, True)"
| "gc_store mp expires (k # ks) (g # gs) =
     gc_store (fmupd k \<lparr>cg_gen = g, cg_expires = expires\<rparr> mp) expires ks gs"
| "gc_store mp expires (k # ks) [] = (mp, False)"

definition gc_put :: "genCache \<Rightarrow> time \<Rightarrow> string list \<Rightarrow> u64 list \<Rightarrow> genEpoch \<Rightarrow> genCache \<times> bool" where
  "gc_put g now genKeys gens since =
     (if g_clears g \<noteq> ep_clears since then (g, True)
      else if gc_dropped (g_drops g) genKeys (ep_drops since) then (g, True)
      else
        let g = (if map_len (g_m g) + length genKeys > maxCachedGens
                    \<or> map_len (g_drops g) > maxCachedGens
                 then gc_clear g else g);
            expires = now + g_ttl g;
            (mp, ok) = gc_store (g_m g) expires genKeys gens
        in (g\<lparr>g_m := mp\<rparr>, ok))"

definition gc_drop :: "genCache \<Rightarrow> string \<Rightarrow> genCache" where
  "gc_drop g genKey =
     (let g = g\<lparr>g_m := fmdrop genKey (g_m g)\<rparr>;
          g = (if fmlookup (g_drops g) genKey = None \<and> map_len (g_drops g) \<ge> maxCachedGens
               then g\<lparr>g_drops := fmempty, g_clears := g_clears g + 1\<rparr> else g)
      in g\<lparr>g_drops := fmupd genKey (counter (g_drops g) genKey + 1) (g_drops g)\<rparr>)"

section \<open>Interleavings\<close>

text \<open>One operation of one goroutine; \<open>epoch\<close> and \<open>get\<close> change nothing.\<close>

datatype gop = Put time "string list" "u64 list" genEpoch | Drop string

fun gstep :: "genCache \<Rightarrow> gop \<Rightarrow> genCache" where
  "gstep g (Put now ks gens since) = fst (gc_put g now ks gens since)"
| "gstep g (Drop k) = gc_drop g k"

fun grun :: "genCache \<Rightarrow> gop list \<Rightarrow> genCache" where
  "grun g [] = g"
| "grun g (x # xs) = grun (gstep g x) xs"

section \<open>Lemmas\<close>

lemma gc_put_cases:
  obtains (refused) "gc_put g now ks gens since = (g, True)"
  | (stored) h mp ok where "g_clears g = ep_clears since" "\<not> gc_dropped (g_drops g) ks (ep_drops since)"
      "h = g \<and> map_len (g_m g) + length ks \<le> maxCachedGens \<or> h = gc_clear g"
      "gc_store (g_m h) (now + g_ttl h) ks gens = (mp, ok)"
      "gc_put g now ks gens since = (h\<lparr>g_m := mp\<rparr>, ok)"
proof (cases "g_clears g \<noteq> ep_clears since \<or> gc_dropped (g_drops g) ks (ep_drops since)")
  case True
  then show ?thesis by (intro refused) (auto simp: gc_put_def)
next
  case False
  define h where "h = (if map_len (g_m g) + length ks > maxCachedGens
    \<or> map_len (g_drops g) > maxCachedGens then gc_clear g else g)"
  obtain mp ok where "gc_store (g_m h) (now + g_ttl h) ks gens = (mp, ok)" by fastforce
  with False show ?thesis
    by (intro stored [of h mp ok]) (auto simp: gc_put_def Let_def h_def split: prod.splits)
qed

lemma gc_store_dom: "fmdom (fst (gc_store mp e ks gs)) |\<subseteq>| fmdom mp |\<union>| fset_of_list ks"
  by (induction mp e ks gs rule: gc_store.induct) auto

lemma fcard_fset_of_list_le: "fcard (fset_of_list ks) \<le> length ks"
  by (simp add: fcard.rep_eq fset_of_list.rep_eq card_length)

lemma gc_store_len: "map_len (fst (gc_store mp e ks gs)) \<le> map_len mp + length ks"
proof -
  have "map_len (fst (gc_store mp e ks gs)) \<le> fcard (fmdom mp |\<union>| fset_of_list ks)"
    by (simp add: map_len_def fcard_mono gc_store_dom)
  also have "\<dots> \<le> fcard (fmdom mp) + fcard (fset_of_list ks)"
    by (simp add: fcard.rep_eq card_Un_le)
  also have "\<dots> \<le> map_len mp + length ks"
    using fcard_fset_of_list_le [of ks] by (simp add: map_len_def)
  finally show ?thesis .
qed

lemma map_len_fmempty [simp]: "map_len fmempty = 0"
  by (simp add: map_len_def)

lemma map_len_fmdrop: "map_len (fmdrop k mp) \<le> map_len mp"
  by (auto simp: map_len_def intro: fcard_mono)

lemma map_len_fmupd_seen: "fmlookup mp k \<noteq> None \<Longrightarrow> map_len (fmupd k v mp) = map_len mp"
  by (simp add: map_len_def fcard_finsert_if fmlookup_dom_iff)

lemma map_len_fmupd_le:
  "fmlookup mp k \<noteq> None \<or> map_len mp < n \<Longrightarrow> map_len mp \<le> n \<Longrightarrow> map_len (fmupd k v mp) \<le> n"
  by (auto simp: map_len_def fcard_finsert_if fmlookup_dom_iff)

section \<open>Bounds\<close>

definition gc_bounded :: "genCache \<Rightarrow> bool" where
  "gc_bounded g \<longleftrightarrow> map_len (g_m g) \<le> maxCachedGens \<and> map_len (g_drops g) \<le> maxCachedGens"

lemma gc_clear_bounded [simp]: "gc_bounded (gc_clear g)"
  by (simp add: gc_bounded_def gc_clear_def)

lemma gc_put_bounded:
  assumes "gc_bounded g" "length ks \<le> maxCachedGens"
  shows "gc_bounded (fst (gc_put g now ks gens since))"
proof (rule gc_put_cases [of g now ks gens since])
  fix h mp ok
  assume h: "h = g \<and> map_len (g_m g) + length ks \<le> maxCachedGens \<or> h = gc_clear g"
    and st: "gc_store (g_m h) (now + g_ttl h) ks gens = (mp, ok)"
    and put: "gc_put g now ks gens since = (h\<lparr>g_m := mp\<rparr>, ok)"
  have "map_len mp \<le> map_len (g_m h) + length ks"
    using gc_store_len [of "g_m h" "now + g_ttl h" ks gens] st by simp
  moreover have "map_len (g_m h) + length ks \<le> maxCachedGens" "map_len (g_drops h) \<le> maxCachedGens"
    using h assms by (auto simp: gc_clear_def gc_bounded_def)
  ultimately show ?thesis using put by (simp add: gc_bounded_def)
qed (use assms in simp)

lemma gc_drop_bounded:
  assumes "gc_bounded g"
  shows "gc_bounded (gc_drop g k)"
  using assms order_trans [OF map_len_fmdrop [of k "g_m g"]]
  by (auto simp: gc_bounded_def gc_drop_def Let_def maxCachedGens_def intro!: map_len_fmupd_le)

lemma gc_newGenCache_bounded: "gc_bounded (newGenCache d)"
  by (simp add: gc_bounded_def newGenCache_def)

fun gop_ok :: "gop \<Rightarrow> bool" where
  "gop_ok (Put now ks gens since) = (length ks \<le> maxCachedGens)"
| "gop_ok (Drop k) = True"

lemma grun_bounded: "gc_bounded g \<Longrightarrow> list_all gop_ok ops \<Longrightarrow> gc_bounded (grun g ops)"
proof (induction ops arbitrary: g)
  case (Cons x xs)
  then have "gc_bounded (gstep g x)"
    by (cases x) (simp_all add: gc_put_bounded gc_drop_bounded)
  with Cons show ?case by simp
qed simp

section \<open>Drops retire epochs\<close>

text \<open>What has happened to the counters since an epoch: \<open>n\<close> clears and \<open>j\<close> drops of \<open>k\<close>, the
  latter readable from the map only while nothing was cleared.\<close>

definition since_epoch :: "genCache \<Rightarrow> string \<Rightarrow> nat \<Rightarrow> nat \<Rightarrow> genCache \<Rightarrow> bool" where
  "since_epoch g0 k n j g \<longleftrightarrow> g_clears g = g_clears g0 + of_nat n \<and>
     (n = 0 \<longrightarrow> counter (g_drops g) k = counter (g_drops g0) k + of_nat j)"

lemma since_epoch_refl: "since_epoch g k 0 0 g"
  by (simp add: since_epoch_def)

lemma counter_fmupd [simp]: "counter (fmupd k v mp) k' = (if k = k' then v else counter mp k')"
  by (simp add: counter_def)

lemma counter_fmempty [simp]: "counter fmempty k = 0"
  by (simp add: counter_def)

lemma gstep_since_epoch:
  assumes "since_epoch g0 k n j g"
  shows "\<exists>n' j'. since_epoch g0 k n' j' (gstep g x) \<and> n \<le> n' \<and> j \<le> j' \<and> n' \<le> Suc n \<and> j' \<le> Suc j
    \<and> (x = Drop k \<longrightarrow> j' = Suc j)"
proof (cases x)
  case (Put now ks gens since)
  have "since_epoch g0 k n j (gstep g x) \<or> since_epoch g0 k (Suc n) j (gstep g x)"
  proof (rule gc_put_cases [of g now ks gens since])
    fix h mp ok
    assume "h = g \<and> map_len (g_m g) + length ks \<le> maxCachedGens \<or> h = gc_clear g"
      and "gc_put g now ks gens since = (h\<lparr>g_m := mp\<rparr>, ok)"
    then show ?thesis
      using assms Put by (auto simp: since_epoch_def gc_clear_def add.assoc add.commute)
  qed (use assms Put in simp)
  then show ?thesis using Put by (metis gop.distinct(1) le_SucI order_refl)
next
  case (Drop k')
  then have "since_epoch g0 k n (if k' = k then Suc j else j) (gstep g x)
      \<or> since_epoch g0 k (Suc n) (if k' = k then Suc j else j) (gstep g x)"
    using assms by (auto simp: since_epoch_def gc_drop_def Let_def)
  then show ?thesis using Drop by (metis gop.inject(2) le_SucI order_refl)
qed

lemma grun_since_epoch:
  "since_epoch g0 k n j g \<Longrightarrow>
   \<exists>n' j'. since_epoch g0 k n' j' (grun g ops) \<and> n' \<le> n + length ops \<and> j' \<le> j + length ops
     \<and> n \<le> n' \<and> j \<le> j' \<and> (Drop k \<in> set ops \<longrightarrow> j < j')"
proof (induction ops arbitrary: g n j)
  case Nil
  then show ?case by auto
next
  case (Cons x xs)
  obtain n1 j1 where 1: "since_epoch g0 k n1 j1 (gstep g x)" "n \<le> n1" "j \<le> j1" "n1 \<le> Suc n"
    "j1 \<le> Suc j" "x = Drop k \<longrightarrow> j1 = Suc j"
    using gstep_since_epoch [OF Cons.prems] by blast
  obtain n2 j2 where 2: "since_epoch g0 k n2 j2 (grun (gstep g x) xs)" "n2 \<le> n1 + length xs"
    "j2 \<le> j1 + length xs" "n1 \<le> n2" "j1 \<le> j2" "Drop k \<in> set xs \<longrightarrow> j1 < j2"
    using Cons.IH [OF 1(1)] by blast
  have "since_epoch g0 k n2 j2 (grun g (x # xs))" using 2(1) by simp
  moreover have "Drop k \<in> set (x # xs) \<longrightarrow> j < j2" using 1 2 by auto
  ultimately show ?case using 1(2-5) 2(2-5) by (intro exI [of _ n2] exI [of _ j2]) auto
qed

lemma u64_of_nat_eq_0: "n < 2 ^ 64 \<Longrightarrow> (of_nat n :: u64) = 0 \<longleftrightarrow> n = 0"
  by (auto simp: word_of_nat_eq_0_iff dest: dvd_imp_le)

lemma since_epoch_refused:
  assumes "since_epoch g0 k n j g" "0 < j" "n < 2 ^ 64" "j < 2 ^ 64" "k \<in> set ks"
  shows "gc_put g now ks gens (gc_epoch g0 ks) = (g, True)"
proof (cases "n = 0")
  case False
  with assms have "g_clears g \<noteq> g_clears g0"
    by (simp add: since_epoch_def u64_of_nat_eq_0)
  then show ?thesis by (simp add: gc_put_def gc_epoch_def)
next
  case True
  with assms have "counter (g_drops g) k \<noteq> counter (g_drops g0) k"
    by (simp add: since_epoch_def u64_of_nat_eq_0)
  then have "gc_dropped (g_drops g) ks (map (counter (g_drops g0)) ks)"
    using assms(5) by (induction ks) auto
  then show ?thesis by (simp add: gc_put_def gc_epoch_def)
qed

lemma gc_drop_m: "g_m (gc_drop g k) = fmdrop k (g_m g)"
  by (simp add: gc_drop_def Let_def)

lemma gc_get_drop: "gc_get (gc_drop g k) now ks = (if k \<in> set ks then None else gc_get g now ks)"
  by (induction ks) (auto simp: gc_drop_m split: option.splits)

section \<open>Properties\<close>

text \<open>C20. A read that began before a tag was dropped cannot restore what it fetched: \<open>put\<close> with an epoch
  taken before a \<open>drop\<close> of one of its keys changes nothing, in every interleaving of fewer than
  \<open>2 ^ 64\<close> operations, clears included.\<close>

theorem put_after_drop_refused:
  assumes "Drop k \<in> set ops" "length ops < 2 ^ 64" "k \<in> set ks"
  shows "gc_put (grun g ops) now ks gens (gc_epoch g ks) = (grun g ops, True)"
  using grun_since_epoch [OF since_epoch_refl [of g k], of ops] assms
  by (fastforce intro: since_epoch_refused)

theorem put_after_drop_refused_witness:
  "gc_put (grun (newGenCache 5) [Drop ''t'', Drop ''u'']) 7 [''t''] [41] (gc_epoch (newGenCache 5) [''t''])
     = (grun (newGenCache 5) [Drop ''t'', Drop ''u''], True)"
  by (rule put_after_drop_refused) simp_all

text \<open>Whatever tags are read or dropped, forged ones included, the copy holds at most
  \<open>maxCachedGens\<close> generations and as many drop counters.\<close>

theorem genCache_bounded:
  assumes "list_all gop_ok ops"
  shows "map_len (g_m (grun (newGenCache d) ops)) \<le> maxCachedGens \<and>
    map_len (g_drops (grun (newGenCache d) ops)) \<le> maxCachedGens"
  using grun_bounded [OF gc_newGenCache_bounded assms] by (simp add: gc_bounded_def)

theorem genCache_bounded_witness:
  "map_len (g_m (grun (newGenCache 5) [Drop ''t'', Put 1 [''u''] [9] (gc_epoch (newGenCache 5) [''u''])]))
      \<le> maxCachedGens \<and>
    map_len (g_drops (grun (newGenCache 5) [Drop ''t'', Put 1 [''u''] [9] (gc_epoch (newGenCache 5) [''u''])]))
      \<le> maxCachedGens"
  by (rule genCache_bounded) (simp add: maxCachedGens_def)

text \<open>Dropping a tag makes every read that involves it miss, and changes no other read: a flood of
  forged tags evicts no generation of a real one.\<close>

theorem drop_forgets_only_its_tag:
  "gc_get (gc_drop g k) now ks = (if k \<in> set ks then None else gc_get g now ks)"
  by (rule gc_get_drop)

lemma gc_dropped_refl: "\<not> gc_dropped dr ks (map (counter dr) ks)"
  by (induction ks) auto

lemma gc_store_lookup:
  "length gs = length ks \<Longrightarrow> distinct ks \<Longrightarrow>
   snd (gc_store mp e ks gs) \<and>
   fmlookup (fst (gc_store mp e ks gs)) k =
     (case map_of (zip ks gs) k of None \<Rightarrow> fmlookup mp k
      | Some g \<Rightarrow> Some \<lparr>cg_gen = g, cg_expires = e\<rparr>)"
proof (induction mp e ks gs rule: gc_store.induct)
  case (2 mp e k' ks g gs)
  then have "map_of (zip ks gs) k' = None" by (simp add: map_of_zip_is_None)
  with 2 show ?case
    by (cases "k = k'") (auto simp del: map_of_eq_Some_iff map_of_zip_is_None map_of_eq_None_iff split: option.split)
qed auto

lemma gc_get_map:
  "(\<And>k. k \<in> set ks \<Longrightarrow> fmlookup (g_m g) k = Some \<lparr>cg_gen = f k, cg_expires = e\<rparr>) \<Longrightarrow> now < e \<Longrightarrow>
   gc_get g now ks = Some (map f ks)"
  by (induction ks) auto

lemma map_the_zip:
  "length gs = length ks \<Longrightarrow> distinct ks \<Longrightarrow> map (\<lambda>k. the (map_of (zip ks gs) k)) ks = gs"
  by (rule nth_equalityI) (simp_all add: map_of_zip_nth)

text \<open>Generations put with a current epoch are what \<open>get\<close> returns until they expire.\<close>

theorem put_then_get:
  assumes len: "length gens = length ks" and dist: "distinct ks" and time: "now' < now + g_ttl g"
  shows "gc_get (fst (gc_put g now ks gens (gc_epoch g ks))) now' ks = Some gens"
proof -
  define h where "h = (if map_len (g_m g) + length ks > maxCachedGens
    \<or> map_len (g_drops g) > maxCachedGens then gc_clear g else g)"
  let ?st = "gc_store (g_m h) (now + g_ttl h) ks gens"
  have put: "fst (gc_put g now ks gens (gc_epoch g ks)) = h\<lparr>g_m := fst ?st\<rparr>"
    by (simp add: gc_put_def gc_epoch_def gc_dropped_refl Let_def h_def split: prod.splits)
  have "g_ttl h = g_ttl g" by (simp add: h_def gc_clear_def)
  moreover have "\<exists>v. map_of (zip ks gens) k = Some v" if "k \<in> set ks" for k
    using that len by (metis map_of_zip_is_None option.exhaust)
  ultimately have "fmlookup (fst ?st) k
      = Some \<lparr>cg_gen = the (map_of (zip ks gens) k), cg_expires = now + g_ttl g\<rparr>" if "k \<in> set ks" for k
    using gc_store_lookup [OF len dist, of "g_m h" "now + g_ttl h" k] that by fastforce
  then have "gc_get (h\<lparr>g_m := fst ?st\<rparr>) now' ks = Some (map (\<lambda>k. the (map_of (zip ks gens) k)) ks)"
    using time by (intro gc_get_map [where e = "now + g_ttl g"]) auto
  then show ?thesis using put map_the_zip [OF len dist] by simp
qed

theorem put_then_get_witness:
  "gc_get (fst (gc_put (newGenCache 5) 100 [''t'', ''u''] [41, 7] (gc_epoch (newGenCache 5) [''t'', ''u''])))
     104 [''t'', ''u''] = Some [41, 7]"
  by (rule put_then_get) (simp_all add: newGenCache_def)

end
