(* ===== verification/Sha256.thy ===== *)
theory Sha256
  imports Prelude
begin

text \<open>
  The two standard-library functions that key hashing uses: \<open>crypto/sha256.Sum256\<close> (FIPS 180-4)
  and \<open>encoding/hex\<close>.  The only facts the keys rely on are the length of a digest and that hex
  encoding is injective, decodable and in lower case.
\<close>

section \<open>SHA-256\<close>

type_synonym u32 = "32 word"

text \<open>The constants, eight to a 256-bit numeral, most significant word first.\<close>

definition eight_words :: "256 word \<Rightarrow> u32 list" where
  "eight_words w = map (\<lambda>i. ucast (drop_bit (32 * i) w)) [7, 6, 5, 4, 3, 2, 1, 0]"

definition sha_k :: "u32 list" where
  "sha_k = concat (map eight_words
    [0x428a2f9871374491b5c0fbcfe9b5dba53956c25b59f111f1923f82a4ab1c5ed5,
     0xd807aa9812835b01243185be550c7dc372be5d7480deb1fe9bdc06a7c19bf174,
     0xe49b69c1efbe47860fc19dc6240ca1cc2de92c6f4a7484aa5cb0a9dc76f988da,
     0x983e5152a831c66db00327c8bf597fc7c6e00bf3d5a7914706ca635114292967,
     0x27b70a852e1b21384d2c6dfc53380d13650a7354766a0abb81c2c92e92722c85,
     0xa2bfe8a1a81a664bc24b8b70c76c51a3d192e819d6990624f40e3585106aa070,
     0x19a4c1161e376c082748774c34b0bcb5391c0cb34ed8aa4a5b9cca4f682e6ff3,
     0x748f82ee78a5636f84c878148cc7020890befffaa4506cebbef9a3f7c67178f2])"

definition sha_h0 :: "u32 list" where
  "sha_h0 = eight_words 0x6a09e667bb67ae853c6ef372a54ff53a510e527f9b05688c1f83d9ab5be0cd19"

definition sha_pad :: "bytes \<Rightarrow> bytes" where
  "sha_pad m = m @ [0x80] @ replicate (nat ((55 - int (length m)) mod 64)) 0
     @ be64 (word_of_nat (8 * length m))"

fun be32_words :: "bytes \<Rightarrow> u32 list" where
  "be32_words (a # b # c # d # bs) =
     (push_bit 24 (ucast a) OR push_bit 16 (ucast b) OR push_bit 8 (ucast c) OR ucast d) # be32_words bs"
| "be32_words _ = []"

definition be32 :: "u32 \<Rightarrow> bytes" where
  "be32 w = [ucast (drop_bit 24 w), ucast (drop_bit 16 w), ucast (drop_bit 8 w), ucast w]"

text \<open>The message schedule, kept newest first: \<open>ws ! 1\<close> is \<open>W[t-2]\<close>.\<close>

fun sha_schedule :: "nat \<Rightarrow> u32 list \<Rightarrow> u32 list" where
  "sha_schedule 0 ws = rev ws"
| "sha_schedule (Suc n) ws =
     (let x = ws ! 1; y = ws ! 14;
          s1 = word_rotr 17 x XOR word_rotr 19 x XOR drop_bit 10 x;
          s0 = word_rotr 7 y XOR word_rotr 18 y XOR drop_bit 3 y
      in sha_schedule n ((s1 + ws ! 6 + s0 + ws ! 15) # ws))"

fun sha_rounds :: "(u32 \<times> u32) list \<Rightarrow> u32 list \<Rightarrow> u32 list" where
  "sha_rounds ((k, w) # kws) [a, b, c, d, e, f, g, h] =
     (let s1 = word_rotr 6 e XOR word_rotr 11 e XOR word_rotr 25 e;
          ch = (e AND f) XOR (NOT e AND g);
          t1 = h + s1 + ch + k + w;
          s0 = word_rotr 2 a XOR word_rotr 13 a XOR word_rotr 22 a;
          maj = (a AND b) XOR (a AND c) XOR (b AND c);
          t2 = s0 + maj
      in sha_rounds kws [t1 + t2, a, b, c, d + t1, e, f, g])"
| "sha_rounds _ hs = hs"

definition sha_block :: "u32 list \<Rightarrow> u32 list \<Rightarrow> u32 list" where
  "sha_block hs ws = map2 (+) hs (sha_rounds (zip sha_k (sha_schedule 48 (rev ws))) hs)"

fun sha_blocks :: "u32 list \<Rightarrow> u32 list \<Rightarrow> u32 list" where
  "sha_blocks hs ws = (if ws = [] then hs else sha_blocks (sha_block hs (take 16 ws)) (drop 16 ws))"

declare sha_blocks.simps [simp del]

definition Sum256 :: "bytes \<Rightarrow> bytes" where
  "Sum256 m = concat (map be32 (sha_blocks sha_h0 (be32_words (sha_pad m))))"

lemma length_sha_rounds: "length hs = 8 \<Longrightarrow> length (sha_rounds kws hs) = 8"
proof (induction kws arbitrary: hs)
  case Nil
  then show ?case by simp
next
  case (Cons kw kws)
  from Cons.prems obtain a b c d e f g h where "hs = [a, b, c, d, e, f, g, h]"
    using list_eq_8 by blast
  then show ?case by (cases kw) (simp add: Let_def Cons.IH)
qed

lemma length_sha_blocks: "length hs = 8 \<Longrightarrow> length (sha_blocks hs ws) = 8"
proof (induction hs ws rule: sha_blocks.induct)
  case (1 hs ws)
  then show ?case
    by (subst sha_blocks.simps) (simp add: sha_block_def length_sha_rounds)
qed

lemma length_concat_be32: "length (concat (map be32 ws)) = 4 * length ws"
  by (induction ws) (simp_all add: be32_def)

lemma length_Sum256 [simp]: "length (Sum256 m) = 32"
proof -
  have "length (sha_blocks sha_h0 ws) = 8" for ws
    by (rule length_sha_blocks) (simp add: sha_h0_def eight_words_def)
  then show ?thesis by (simp add: Sum256_def length_concat_be32)
qed

section \<open>Hexadecimal\<close>

definition hex_digits :: string where
  "hex_digits = ''0123456789abcdef''"

fun EncodeToString :: "bytes \<Rightarrow> string" where
  "EncodeToString [] = []"
| "EncodeToString (b # bs) =
     hex_digits ! (unat b div 16) # hex_digits ! (unat b mod 16) # EncodeToString bs"

definition is_hex_digit :: "char \<Rightarrow> bool" where
  "is_hex_digit c \<longleftrightarrow> c \<in> set ''0123456789abcdefABCDEF''"

text \<open>Whether \<open>hex.DecodeString\<close> returns no error: an even number of hex digits of either case.\<close>

definition DecodeString_ok :: "string \<Rightarrow> bool" where
  "DecodeString_ok s \<longleftrightarrow> even (length s) \<and> list_all is_hex_digit s"

lemma hex_digit_mem: "n < 16 \<Longrightarrow> hex_digits ! n \<in> set hex_digits"
  by (rule nth_mem) (simp add: hex_digits_def)

lemma hex_digit_ok: "c \<in> set hex_digits \<Longrightarrow> is_hex_digit c"
  by (auto simp: hex_digits_def is_hex_digit_def)

lemma hex_digit_inj: "m < 16 \<Longrightarrow> n < 16 \<Longrightarrow> hex_digits ! m = hex_digits ! n \<Longrightarrow> m = n"
proof -
  have "distinct hex_digits" by (simp add: hex_digits_def)
  then show "m < 16 \<Longrightarrow> n < 16 \<Longrightarrow> hex_digits ! m = hex_digits ! n \<Longrightarrow> m = n"
    by (simp add: nth_eq_iff_index_eq hex_digits_def)
qed

lemma unat_byte_less: "unat (b :: byte) < 256"
  by (rule order_less_le_trans [OF unsigned_less]) simp

lemma unat_byte_nibble: "unat (b :: byte) div 16 < 16"
  using unat_byte_less [of b] by simp

lemma length_EncodeToString [simp]: "length (EncodeToString bs) = 2 * length bs"
  by (induction bs) auto

lemma EncodeToString_lower: "set (EncodeToString bs) \<subseteq> set hex_digits"
  by (induction bs) (simp_all add: hex_digit_mem unat_byte_nibble)

lemma EncodeToString_decodes: "DecodeString_ok (EncodeToString bs)"
  using EncodeToString_lower [of bs]
  by (auto simp: DecodeString_ok_def list_all_iff intro: hex_digit_ok)

lemma EncodeToString_inj: "EncodeToString xs = EncodeToString ys \<Longrightarrow> xs = ys"
proof (induction xs arbitrary: ys)
  case Nil
  then show ?case by (cases ys) auto
next
  case (Cons x xs)
  then obtain y ys' where ys: "ys = y # ys'" by (cases ys) auto
  with Cons.prems have d: "unat x div 16 = unat y div 16" and m: "unat x mod 16 = unat y mod 16"
    and t: "EncodeToString xs = EncodeToString ys'"
    by (auto intro: hex_digit_inj simp: unat_byte_nibble)
  from d m have "unat x = unat y" by (metis mod_div_decomp)
  then have "x = y" by (simp add: word_unat_eq_iff)
  then show ?case using ys t Cons.IH by simp
qed

end
