(* ===== verification/Keys.thy ===== *)
theory Keys
  imports Sha256 Errors
begin

text \<open>
  \<open>keys.go\<close>, \<open>genKey\<close> of \<open>tags.go\<close> and \<open>eventKey\<close> of \<open>events.go\<close>: how consumer keys and tags become
  the physical keys every level and every bus event use (ADR-0008), and the validation both
  go through (RS-03).  The lemmas show that the key spaces of different namespaces, of entries and
  of generation counters never meet, and that a physical key determines its consumer key.
\<close>

section \<open>UTF-8 (package unicode/utf8)\<close>

definition is_cont :: "nat \<Rightarrow> bool" where
  "is_cont b \<longleftrightarrow> 0x80 \<le> b \<and> b \<le> 0xBF"

text \<open>One rune: its code point and the bytes after it, \<open>None\<close> where Go reports \<open>RuneError\<close>.\<close>

fun decodeRune :: "nat list \<Rightarrow> (nat \<times> nat list) option" where
  "decodeRune [] = None"
| "decodeRune (b # bs) =
     (if b < 0x80 then Some (b, bs)
      else if 0xC2 \<le> b \<and> b \<le> 0xDF then
        (case bs of c # r \<Rightarrow> if is_cont c then Some ((b mod 32) * 64 + c mod 64, r) else None
         | _ \<Rightarrow> None)
      else if 0xE0 \<le> b \<and> b \<le> 0xEF then
        (case bs of c # d # r \<Rightarrow>
           if (if b = 0xE0 then 0xA0 else 0x80) \<le> c \<and> c \<le> (if b = 0xED then 0x9F else 0xBF)
              \<and> is_cont d
           then Some ((b mod 16) * 4096 + (c mod 64) * 64 + d mod 64, r) else None
         | _ \<Rightarrow> None)
      else if 0xF0 \<le> b \<and> b \<le> 0xF4 then
        (case bs of c # d # e # r \<Rightarrow>
           if (if b = 0xF0 then 0x90 else 0x80) \<le> c \<and> c \<le> (if b = 0xF4 then 0x8F else 0xBF)
              \<and> is_cont d \<and> is_cont e
           then Some ((b mod 8) * 262144 + (c mod 64) * 4096 + (d mod 64) * 64 + e mod 64, r) else None
         | _ \<Rightarrow> None)
      else None)"

lemma decodeRune_shorter: "decodeRune bs = Some (r, rest) \<Longrightarrow> length rest < length bs"
  by (cases bs) (auto split: if_splits list.splits)

function runes :: "nat list \<Rightarrow> nat list option" where
  "runes bs = (if bs = [] then Some [] else
     case decodeRune bs of None \<Rightarrow> None
     | Some (r, rest) \<Rightarrow> (case runes rest of None \<Rightarrow> None | Some rs \<Rightarrow> Some (r # rs)))"
  by pat_completeness auto
termination
  by (relation "measure length") (auto dest: decodeRune_shorter)

declare runes.simps [simp del]

definition utf8_runes :: "string \<Rightarrow> nat list option" where
  "utf8_runes s = runes (map of_char s)"

definition ValidString :: "string \<Rightarrow> bool" where
  "ValidString s \<longleftrightarrow> utf8_runes s \<noteq> None"

text \<open>\<open>unicode.IsControl\<close>: category Cc, which is C0, DEL and C1.\<close>

definition IsControl :: "nat \<Rightarrow> bool" where
  "IsControl r \<longleftrightarrow> r < 0x20 \<or> (0x7F \<le> r \<and> r < 0xA0)"

section \<open>Validation\<close>

definition MaxKeyBytes :: nat where "MaxKeyBytes = 256"

definition validateKey :: "string \<Rightarrow> error option" where
  "validateKey key =
     (if key = '''' then Some (Wrap ''%w: empty'' [ErrInvalidKey])
      else if \<not> ValidString key then Some (Wrap ''%w: not valid UTF-8'' [ErrInvalidKey])
      else if list_ex IsControl (the (utf8_runes key))
        then Some (Wrap ''%w: control character'' [ErrInvalidKey])
      else None)"

text \<open>\<open>namespacePattern\<close>, \<open>^[a-z0-9._-]{1,64}$\<close>: the same expression in \<open>cache.go\<close> and \<open>bus.go\<close>.\<close>

definition namespace_char :: "char \<Rightarrow> bool" where
  "namespace_char c \<longleftrightarrow> c \<in> set ''abcdefghijklmnopqrstuvwxyz0123456789._-''"

definition namespacePattern :: "string \<Rightarrow> bool" where
  "namespacePattern s \<longleftrightarrow> 1 \<le> length s \<and> length s \<le> 64 \<and> list_all namespace_char s"

section \<open>Physical keys\<close>

text \<open>The part of \<open>Cache\<close> that keys are built from; the other fields extend it.\<close>

record 'k keyspace =
  namespace :: string
  key_fn :: "'k \<Rightarrow> string"
  prefix :: string
  genPrefix :: string
  hashKeys :: bool

definition entry_prefix :: "string \<Rightarrow> string" where
  "entry_prefix ns = ''cistern:v1:'' @ ns @ '':-:''"

definition counter_prefix :: "string \<Rightarrow> string" where
  "counter_prefix ns = ''cistern:v1:'' @ ns @ '':g:''"

definition physicalKey :: "('k, 'x) keyspace_scheme \<Rightarrow> 'k \<Rightarrow> string result" where
  "physicalKey c k =
     (let key = key_fn c k in
      case validateKey key of Some err \<Rightarrow> Inl err
      | None \<Rightarrow>
          if length key \<le> MaxKeyBytes then Inr (prefix c @ ''k:'' @ key)
          else if \<not> hashKeys c then Inl (Wrap ''%w: too long (see WithKeyHashing)'' [ErrInvalidKey])
          else Inr (prefix c @ ''h:'' @ EncodeToString (Sum256 (bytes_of key))))"

definition genKey :: "('k, 'x) keyspace_scheme \<Rightarrow> string \<Rightarrow> string result" where
  "genKey c tag =
     (case validateKey tag of Some err \<Rightarrow> Inl (Wrap ''tag: %w'' [err])
      | None \<Rightarrow>
          if length tag > MaxKeyBytes then Inl (Wrap ''%w: tag too long'' [ErrInvalidKey])
          else Inr (genPrefix c @ tag))"

text \<open>\<open>strings.CutPrefix\<close>\<close>

fun CutPrefix :: "string \<Rightarrow> string \<Rightarrow> string option" where
  "CutPrefix s [] = Some s"
| "CutPrefix [] (p # ps) = None"
| "CutPrefix (c # s) (p # ps) = (if c = p then CutPrefix s ps else None)"

definition eventKey :: "('k, 'x) keyspace_scheme \<Rightarrow> string \<Rightarrow> string \<times> bool" where
  "eventKey c name =
     (case CutPrefix name (prefix c) of None \<Rightarrow> ('''', False)
      | Some rest \<Rightarrow>
          case CutPrefix rest ''k:'' of
            Some key \<Rightarrow> (key, length key \<le> MaxKeyBytes \<and> validateKey key = None)
          | None \<Rightarrow>
              case CutPrefix rest ''h:'' of
                Some digest \<Rightarrow> ('''', length digest = 2 * 32 \<and> DecodeString_ok digest)
              | None \<Rightarrow> ('''', False))"

text \<open>The prefixes \<open>New\<close> gives a cache; every theorem below is about such a key space.\<close>

definition keyspace_ok :: "('k, 'x) keyspace_scheme \<Rightarrow> bool" where
  "keyspace_ok c \<longleftrightarrow> namespacePattern (namespace c) \<and> prefix c = entry_prefix (namespace c)
     \<and> genPrefix c = counter_prefix (namespace c)"


section \<open>Lemmas\<close>

lemma decodeRune_split:
  "decodeRune bs = Some (r, rest) \<Longrightarrow>
     \<exists>pre. bs = pre @ rest \<and> (\<forall>b \<in> set pre. b < 0x80 \<longrightarrow> b = r)"
proof (cases bs)
  case (Cons b bs')
  assume "decodeRune bs = Some (r, rest)"
  with Cons show ?thesis
    by (cases "b < 0x80"; cases bs'; cases "tl bs'"; cases "tl (tl bs')")
      (force simp: is_cont_def split: if_splits)+
qed simp

lemma runes_ascii: "runes bs = Some rs \<Longrightarrow> b \<in> set bs \<Longrightarrow> b < 0x80 \<Longrightarrow> b \<in> set rs"
proof (induction bs arbitrary: rs rule: runes.induct)
  case (1 bs)
  then have "bs \<noteq> []" by auto
  with "1.prems"(1) obtain r rest rs' where d: "decodeRune bs = Some (r, rest)"
    and rr: "runes rest = Some rs'" and rs: "rs = r # rs'"
    by (subst (asm) runes.simps) (auto split: option.splits)
  from decodeRune_split [OF d] obtain pre where bs: "bs = pre @ rest"
    and pre: "\<forall>b \<in> set pre. b < 0x80 \<longrightarrow> b = r" by blast
  show ?case
  proof (cases "b \<in> set pre")
    case True
    with pre "1.prems"(3) rs show ?thesis by auto
  next
    case False
    with "1.prems"(2) bs have "b \<in> set rest" by simp
    with "1.IH" [OF \<open>bs \<noteq> []\<close> d refl rr] "1.prems"(3) rs show ?thesis by simp
  qed
qed

lemma validateKey_ascii:
  assumes "validateKey s = None" "c \<in> set s"
  shows "32 \<le> (of_char c :: nat) \<and> (of_char c :: nat) \<noteq> 127"
proof (rule ccontr)
  assume no: "\<not> ?thesis"
  from assms(1) obtain rs where rs: "utf8_runes s = Some rs" and nc: "\<not> list_ex IsControl rs"
    by (auto simp: validateKey_def ValidString_def split: if_splits)
  from no have "(of_char c :: nat) < 0x80" and ic: "IsControl (of_char c)"
    by (auto simp: IsControl_def)
  then have "of_char c \<in> set rs"
    using runes_ascii [of "map of_char s" rs "of_char c"] rs assms(2) by (simp add: utf8_runes_def)
  with ic nc show False by (auto simp: list_ex_iff)
qed

lemma validateKey_error: "validateKey s = Some e \<Longrightarrow> errors_Is e ErrInvalidKey"
  by (auto simp: validateKey_def split: if_splits)

lemma physicalKey_error: "physicalKey c k = Inl e \<Longrightarrow> errors_Is e ErrInvalidKey"
  by (auto simp: physicalKey_def Let_def split: if_splits option.splits dest: validateKey_error)

lemma genKey_error: "genKey c t = Inl e \<Longrightarrow> errors_Is e ErrInvalidKey"
  by (auto simp: genKey_def split: if_splits option.splits dest: validateKey_error)

lemma CutPrefix_Some_iff: "CutPrefix s p = Some t \<longleftrightarrow> s = p @ t"
  by (induction s p rule: CutPrefix.induct) auto

lemma CutPrefix_append [simp]: "CutPrefix (p @ t) p = Some t"
  by (simp add: CutPrefix_Some_iff)

lemma colon_split:
  "CHR '':'' \<notin> set a \<Longrightarrow> CHR '':'' \<notin> set b \<Longrightarrow> a @ CHR '':'' # x = b @ CHR '':'' # y \<Longrightarrow> a = b \<and> x = y"
  by (induction a arbitrary: b) (case_tac b; fastforce)+

lemma namespace_no_colon: "namespacePattern s \<Longrightarrow> CHR '':'' \<notin> set s"
proof
  assume "namespacePattern s" "CHR '':'' \<in> set s"
  then have "namespace_char (CHR '':'')" by (simp add: namespacePattern_def list_all_iff)
  then show False by (simp add: namespace_char_def)
qed

lemma prefix_inj:
  assumes "namespacePattern a" "namespacePattern b"
    and "entry_prefix a @ x = entry_prefix b @ y"
  shows "a = b \<and> x = y"
proof -
  from assms(3) have "a @ CHR '':'' # ''-:'' @ x = b @ CHR '':'' # ''-:'' @ y"
    by (simp add: entry_prefix_def)
  from colon_split [OF _ _ this] show ?thesis using assms(1,2) by (simp add: namespace_no_colon)
qed

lemma counter_prefix_inj:
  assumes "namespacePattern a" "namespacePattern b"
    and "counter_prefix a @ x = counter_prefix b @ y"
  shows "a = b \<and> x = y"
proof -
  from assms(3) have "a @ CHR '':'' # ''g:'' @ x = b @ CHR '':'' # ''g:'' @ y"
    by (simp add: counter_prefix_def)
  from colon_split [OF _ _ this] show ?thesis using assms(1,2) by (simp add: namespace_no_colon)
qed

lemma entry_counter_disjoint:
  assumes "namespacePattern a" "namespacePattern b"
  shows "entry_prefix a @ x \<noteq> counter_prefix b @ y"
proof
  assume "entry_prefix a @ x = counter_prefix b @ y"
  then have "a @ CHR '':'' # ''-:'' @ x = b @ CHR '':'' # ''g:'' @ y"
    by (simp add: entry_prefix_def counter_prefix_def)
  from colon_split [OF _ _ this] show False using assms by (simp add: namespace_no_colon)
qed

lemma physicalKey_cases:
  assumes "physicalKey c k = Inr p"
  shows "validateKey (key_fn c k) = None \<and>
    (if length (key_fn c k) \<le> MaxKeyBytes then p = prefix c @ ''k:'' @ key_fn c k
     else hashKeys c \<and> p = prefix c @ ''h:'' @ EncodeToString (Sum256 (bytes_of (key_fn c k))))"
  using assms by (auto simp: physicalKey_def Let_def split: option.splits if_splits)

lemma genKey_Inr: "genKey c t = Inr g \<Longrightarrow> g = genPrefix c @ t \<and> validateKey t = None \<and> length t \<le> MaxKeyBytes"
  by (auto simp: genKey_def split: option.splits if_splits)


section \<open>Properties\<close>

text \<open>A key space for the witnesses: the cache of \<open>examples/taskapi\<close>, keyed by strings.\<close>

definition tasks_space :: "string keyspace" where
  "tasks_space = \<lparr>namespace = ''tasks'', key_fn = (\<lambda>k. k), prefix = entry_prefix ''tasks'',
     genPrefix = counter_prefix ''tasks'', hashKeys = True\<rparr>"

lemma tasks_space_ok: "keyspace_ok tasks_space"
  by code_simp

lemma tasks_space_keys:
  "physicalKey tasks_space ''user:42'' = Inr ''cistern:v1:tasks:-:k:user:42''"
  "genKey tasks_space ''user:42'' = Inr ''cistern:v1:tasks:g:user:42''"
  by code_simp+

text \<open>C19. Two caches that store under the same physical key have the same namespace and the same consumer
  key, unless both keys are over the length limit and have the same SHA-256.\<close>

theorem physicalKey_determines_key:
  assumes "keyspace_ok c" "keyspace_ok d"
    and c: "physicalKey c k = Inr p" and d: "physicalKey d l = Inr p"
  shows "namespace c = namespace d \<and>
    (key_fn c k = key_fn d l \<or>
     MaxKeyBytes < length (key_fn c k) \<and> MaxKeyBytes < length (key_fn d l) \<and>
     Sum256 (bytes_of (key_fn c k)) = Sum256 (bytes_of (key_fn d l)))"
proof -
  obtain x y where px: "p = prefix c @ x" and py: "p = prefix d @ y"
    using physicalKey_cases [OF c] physicalKey_cases [OF d] by (metis (full_types))
  then have "namespace c = namespace d \<and> x = y"
    by (metis assms(1,2) keyspace_ok_def prefix_inj)
  then show ?thesis
    using px py physicalKey_cases [OF c] physicalKey_cases [OF d]
    by (auto simp: not_le split: if_splits dest: EncodeToString_inj)
qed

theorem physicalKey_determines_key_witness:
  "namespace tasks_space = namespace tasks_space \<and>
    (key_fn tasks_space ''user:42'' = key_fn tasks_space ''user:42'' \<or>
     MaxKeyBytes < length (key_fn tasks_space ''user:42'') \<and>
     MaxKeyBytes < length (key_fn tasks_space ''user:42'') \<and>
     Sum256 (bytes_of (key_fn tasks_space ''user:42'')) = Sum256 (bytes_of (key_fn tasks_space ''user:42'')))"
  by (rule physicalKey_determines_key [OF tasks_space_ok tasks_space_ok
        tasks_space_keys(1) tasks_space_keys(1)])

text \<open>C26. The key of a tag's generation counter is never the physical key of an entry, of any cache, and
  names one tag of one namespace.\<close>

theorem counter_keys_separate:
  assumes "keyspace_ok c" "keyspace_ok d" and g: "genKey c t = Inr g"
  shows "physicalKey d k \<noteq> Inr g \<and>
    (genKey d u = Inr g \<longrightarrow> namespace d = namespace c \<and> u = t)"
proof (intro conjI impI notI)
  have "g = genPrefix c @ t" using genKey_Inr [OF g] by simp
  then have gc: "g = counter_prefix (namespace c) @ t" using assms(1) by (simp add: keyspace_ok_def)
  show False if "physicalKey d k = Inr g"
    using physicalKey_cases [OF that] entry_counter_disjoint assms(1,2)
    unfolding gc keyspace_ok_def by (metis (full_types))
  assume "genKey d u = Inr g"
  from genKey_Inr [OF this] have "g = counter_prefix (namespace d) @ u"
    using assms(2) by (simp add: keyspace_ok_def)
  with gc show "namespace d = namespace c" "u = t"
    using counter_prefix_inj assms(1,2) unfolding keyspace_ok_def by metis+
qed

theorem counter_keys_separate_witness:
  "physicalKey tasks_space ''g:x'' \<noteq> Inr ''cistern:v1:tasks:g:user:42'' \<and>
    namespace tasks_space = ''tasks'' \<and> genKey tasks_space ''user:42'' = Inr ''cistern:v1:tasks:g:user:42''"
  using counter_keys_separate [OF tasks_space_ok tasks_space_ok tasks_space_keys(2), of "''g:x''" "''user:42''"]
    tasks_space_keys(2) by (simp add: tasks_space_def)

definition printable :: "string \<Rightarrow> bool" where
  "printable s \<longleftrightarrow> (\<forall>ch \<in> set s. 32 \<le> (of_char ch :: nat) \<and> (of_char ch :: nat) \<noteq> 127)"

lemma printable_append [simp]: "printable (s @ t) \<longleftrightarrow> printable s \<and> printable t"
  by (auto simp: printable_def)

lemma printable_namespace: "namespacePattern ns \<Longrightarrow> printable ns"
proof -
  let ?ok = "\<lambda>ch. 32 \<le> (of_char ch :: nat) \<and> (of_char ch :: nat) \<noteq> 127"
  have "\<forall>ch \<in> set ''abcdefghijklmnopqrstuvwxyz0123456789._-''. ?ok ch" by simp
  then have "?ok ch" if "namespace_char ch" for ch
    using that unfolding namespace_char_def by (rule bspec)
  then show "namespacePattern ns \<Longrightarrow> printable ns"
    by (simp add: namespacePattern_def list_all_iff printable_def)
qed

lemma printable_prefixes:
  assumes "keyspace_ok c"
  shows "printable (prefix c)" "printable (genPrefix c)"
  using assms printable_namespace [of "namespace c"]
  by (simp_all add: keyspace_ok_def entry_prefix_def counter_prefix_def) (simp_all add: printable_def)

lemma printable_valid: "validateKey s = None \<Longrightarrow> printable s"
  unfolding printable_def using validateKey_ascii by blast

lemma printable_hex: "printable (EncodeToString b)"
proof -
  have "printable hex_digits" by (simp add: hex_digits_def printable_def)
  then show ?thesis using EncodeToString_lower [of b] by (auto simp: printable_def)
qed

lemma printable_keys:
  assumes "keyspace_ok c"
  shows "physicalKey c k = Inr p \<Longrightarrow> printable p" "genKey c t = Inr g \<Longrightarrow> printable g"
proof -
  have kh: "printable ''k:''" "printable ''h:''" by (simp_all add: printable_def)
  show "printable p" if p: "physicalKey c k = Inr p"
    using physicalKey_cases [OF p] printable_prefixes [OF assms] printable_valid printable_hex kh
    by (auto split: if_splits simp del: append.simps)
  show "printable g" if "genKey c t = Inr g"
    using genKey_Inr [OF that] printable_prefixes [OF assms] printable_valid by simp
qed

text \<open>No byte of a physical key is an ASCII control character, so a key cannot inject into a log line.\<close>

theorem physicalKey_printable:
  assumes "keyspace_ok c" and p: "physicalKey c k = Inr p"
  shows "\<forall>ch \<in> set p. 32 \<le> (of_char ch :: nat) \<and> (of_char ch :: nat) \<noteq> 127"
  using printable_keys(1) [OF assms] by (simp add: printable_def)

theorem physicalKey_printable_witness:
  "''cistern:v1:tasks:-:k:user:42'' \<noteq> '''' \<and> 32 \<le> (of_char (CHR ''c'') :: nat)
    \<and> (of_char (CHR '':'') :: nat) \<noteq> 127"
  using physicalKey_printable [OF tasks_space_ok tasks_space_keys(1)] by simp

lemma eventKey_k [simp]:
  "eventKey c (prefix c @ CHR ''k'' # CHR '':'' # key) = (key, length key \<le> MaxKeyBytes \<and> validateKey key = None)"
  by (simp add: eventKey_def CutPrefix_append)

lemma eventKey_h [simp]:
  "eventKey c (prefix c @ CHR ''h'' # CHR '':'' # dg) = ('''', length dg = 64 \<and> DecodeString_ok dg)"
  by (simp add: eventKey_def CutPrefix_append)

lemma eventKey_True_cases:
  assumes "eventKey c n = (key, True)"
  obtains (verbatim) "n = prefix c @ ''k:'' @ key" "length key \<le> MaxKeyBytes" "validateKey key = None"
  | (hashed) dg where "n = prefix c @ ''h:'' @ dg" "key = ''''" "length dg = 64" "DecodeString_ok dg"
  using assms by (auto simp: eventKey_def CutPrefix_Some_iff split: option.splits)

text \<open>A key event that announces a physical key is accepted by a cache of the same key space, which
  reports the consumer key, or nothing when the key was hashed.\<close>

theorem eventKey_physicalKey:
  assumes "physicalKey c k = Inr p"
  shows "eventKey c p = (if length (key_fn c k) \<le> MaxKeyBytes then key_fn c k else '''', True)"
  using physicalKey_cases [OF assms] EncodeToString_decodes
  by (auto split: if_splits)

theorem eventKey_physicalKey_witness:
  "eventKey tasks_space ''cistern:v1:tasks:-:k:user:42''
     = (if length (key_fn tasks_space ''user:42'') \<le> MaxKeyBytes
        then key_fn tasks_space ''user:42'' else '''', True)"
  by (rule eventKey_physicalKey [OF tasks_space_keys(1)])

text \<open>An event name is accepted exactly when it is the physical key of the consumer key it reports,
  or has the shape of a hashed key; in both cases it lies in this cache's own key space.\<close>

theorem eventKey_accepts_iff:
  "eventKey c n = (key, True) \<longleftrightarrow>
     (length key \<le> MaxKeyBytes \<and> physicalKey (c\<lparr>key_fn := \<lambda>_. key\<rparr>) k = Inr n) \<or>
     (key = '''' \<and> (\<exists>dg. n = prefix c @ ''h:'' @ dg \<and> length dg = 64 \<and> DecodeString_ok dg))"
proof
  assume "eventKey c n = (key, True)"
  then show "(length key \<le> MaxKeyBytes \<and> physicalKey (c\<lparr>key_fn := \<lambda>_. key\<rparr>) k = Inr n) \<or>
     (key = '''' \<and> (\<exists>dg. n = prefix c @ ''h:'' @ dg \<and> length dg = 64 \<and> DecodeString_ok dg))"
    by (rule eventKey_True_cases) (auto simp: physicalKey_def)
next
  assume "(length key \<le> MaxKeyBytes \<and> physicalKey (c\<lparr>key_fn := \<lambda>_. key\<rparr>) k = Inr n) \<or>
     (key = '''' \<and> (\<exists>dg. n = prefix c @ ''h:'' @ dg \<and> length dg = 64 \<and> DecodeString_ok dg))"
  then show "eventKey c n = (key, True)"
  proof
    assume h: "length key \<le> MaxKeyBytes \<and> physicalKey (c\<lparr>key_fn := \<lambda>_. key\<rparr>) k = Inr n"
    then have "validateKey key = None" "n = prefix c @ ''k:'' @ key"
      using physicalKey_cases [of "c\<lparr>key_fn := \<lambda>_. key\<rparr>" k n] by simp_all
    with h show ?thesis by simp
  next
    assume "key = '''' \<and> (\<exists>dg. n = prefix c @ ''h:'' @ dg \<and> length dg = 64 \<and> DecodeString_ok dg)"
    then show ?thesis by auto
  qed
qed

text \<open>\<open>hex.DecodeString\<close> takes upper-case digits too, which no stored key has: such an event is
  accepted although no physical key of the cache has that name (harmless: it deletes nothing).\<close>

theorem eventKey_accepts_upper_case_hash:
  "eventKey tasks_space (''cistern:v1:tasks:-:h:'' @ replicate 64 (CHR ''A'')) = ('''', True) \<and>
     physicalKey tasks_space k \<noteq> Inr (''cistern:v1:tasks:-:h:'' @ replicate 64 (CHR ''A''))"
proof
  let ?n = "''cistern:v1:tasks:-:h:'' @ replicate 64 (CHR ''A'')"
  have pre: "?n = prefix tasks_space @ ''h:'' @ replicate 64 (CHR ''A'')" by code_simp
  show "eventKey tasks_space ?n = ('''', True)"
    unfolding pre by (simp add: DecodeString_ok_def is_hex_digit_def list_all_iff)
  show "physicalKey tasks_space k \<noteq> Inr ?n"
  proof
    assume "physicalKey tasks_space k = Inr ?n"
    from physicalKey_cases [OF this] obtain b
      where "replicate 64 (CHR ''A'') = EncodeToString b"
      unfolding pre by (auto split: if_splits)
    then have "CHR ''A'' \<in> set hex_digits" using EncodeToString_lower [of b]
      by (metis in_set_replicate subsetD zero_neq_numeral)
    then show False by (simp add: hex_digits_def)
  qed
qed

end
