(* ===== verification/Bus.thy ===== *)
theory Bus
  imports Keys "HOL-Library.Multiset"
begin

text \<open>
  \<open>bus/bus.go\<close>: invalidation events, the in-process bus \<open>Local\<close>, and the check every event passes
  before it is encoded and after it is decoded.  A handler is a function on the state \<open>'x\<close> that the
  subscribers share.  \<open>Publish\<close> visits the subscribers in Go's map order, which is any order: the
  list \<open>order\<close> of the ids it ranges over.
\<close>

section \<open>Events\<close>

datatype Kind = KindKey | KindTag | KindOther nat

record Event =
  Namespace :: string
  ev_Kind :: Kind
  Name :: string

section \<open>Local\<close>

record 'x Local =
  lo_next :: int
  lo_subs :: "int \<Rightarrow> (Event \<Rightarrow> 'x \<Rightarrow> 'x) option"

definition NewLocal :: "'x Local" where
  "NewLocal = \<lparr>lo_next = 0, lo_subs = Map.empty\<rparr>"

definition Local_Subscribe :: "(Event \<Rightarrow> 'x \<Rightarrow> 'x) option \<Rightarrow> 'x Local \<Rightarrow> int result \<times> 'x Local" where
  "Local_Subscribe h l =
     (case h of None \<Rightarrow> (Inl (errors_New ''bus: nil handler''), l)
      | Some h \<Rightarrow>
          let n = lo_next l in
          (Inr n, l\<lparr>lo_next := n + 1, lo_subs := (lo_subs l)(n \<mapsto> h)\<rparr>))"

text \<open>The function \<open>Subscribe\<close> returns; \<open>sync.Once\<close> makes every call after the first do nothing, and
  deleting an id again would do nothing too, as ids are never reused.\<close>

definition Local_unsubscribe :: "int \<Rightarrow> 'x Local \<Rightarrow> 'x Local" where
  "Local_unsubscribe n l = l\<lparr>lo_subs := (lo_subs l)(n := None)\<rparr>"

definition map_order :: "'x Local \<Rightarrow> int list \<Rightarrow> bool" where
  "map_order l order \<longleftrightarrow> distinct order \<and> set order = dom (lo_subs l)"

definition Local_Publish :: "error option \<Rightarrow> Event \<Rightarrow> int list \<Rightarrow> 'x Local \<Rightarrow> 'x \<Rightarrow> error option \<times> 'x" where
  "Local_Publish ctxErr e order l x =
     (case ctxErr of Some err \<Rightarrow> (Some err, x)
      | None \<Rightarrow>
          let handlers = map (\<lambda>n. the (lo_subs l n)) order in
          (None, fold (\<lambda>h x. h e x) handlers x))"

section \<open>The check of the wire format\<close>

definition bus_ErrMalformed :: error where
  "bus_ErrMalformed = Sentinel ''bus: malformed event''"

definition MaxMessageBytes :: nat where "MaxMessageBytes = 1024"

definition kindNames :: "Kind \<Rightarrow> string option" where
  "kindNames k = (case k of KindKey \<Rightarrow> Some ''key'' | KindTag \<Rightarrow> Some ''tag'' | KindOther _ \<Rightarrow> None)"

definition bus_check :: "Event \<Rightarrow> error option" where
  "bus_check e =
     (if kindNames (ev_Kind e) = None then Some (errors_New ''unknown kind'')
      else if \<not> namespacePattern (Namespace e) then Some (errors_New ''namespace must match'')
      else if Name e = '''' \<or> \<not> ValidString (Name e)
        then Some (errors_New ''name must be non-empty UTF-8'')
      else if list_ex IsControl (the (utf8_runes (Name e)))
        then Some (errors_New ''name contains control character'')
      else None)"

section \<open>Subscriptions\<close>

datatype 'x bop = Sub "Event \<Rightarrow> 'x \<Rightarrow> 'x" | Unsub int

fun bstep :: "'x Local \<Rightarrow> 'x bop \<Rightarrow> 'x Local" where
  "bstep l (Sub h) = snd (Local_Subscribe (Some h) l)"
| "bstep l (Unsub n) = Local_unsubscribe n l"

definition ids_ok :: "'x Local \<Rightarrow> bool" where
  "ids_ok l \<longleftrightarrow> finite (dom (lo_subs l)) \<and> (\<forall>n \<in> dom (lo_subs l). n < lo_next l)"

lemma NewLocal_ok: "ids_ok NewLocal"
  by (simp add: ids_ok_def NewLocal_def)

lemma bstep_ok: "ids_ok l \<Longrightarrow> ids_ok (bstep l b)"
proof (cases b)
  case (Sub h)
  assume ok: "ids_ok l"
  have "i < lo_next l + 1" if "i \<in> dom (lo_subs l)" for i
    using ok that unfolding ids_ok_def by (metis less_add_one less_trans)
  then show ?thesis using ok Sub by (auto simp: ids_ok_def Local_Subscribe_def Let_def)
next
  case (Unsub n)
  assume "ids_ok l"
  then show ?thesis using Unsub by (simp add: ids_ok_def Local_unsubscribe_def)
qed

lemma bsteps_ok: "ids_ok l \<Longrightarrow> ids_ok (fold (\<lambda>b l. bstep l b) bs l)"
  by (induction bs arbitrary: l) (simp_all add: bstep_ok)

text \<open>Once subscribed, only the function its own \<open>Subscribe\<close> returned removes a handler.\<close>

lemma bsteps_kept:
  assumes "ids_ok l" "lo_subs l n = Some h" "Unsub n \<notin> set bs"
  shows "lo_subs (fold (\<lambda>b l. bstep l b) bs l) n = Some h"
  using assms
proof (induction bs arbitrary: l)
  case (Cons b bs)
  have "lo_subs (bstep l b) n = Some h"
    using Cons.prems
    by (cases b) (auto simp: ids_ok_def Local_Subscribe_def Local_unsubscribe_def Let_def)
  with Cons bstep_ok [OF Cons.prems(1), of b] show ?case by simp
qed simp

lemma bsteps_gone:
  assumes "ids_ok l" "n < lo_next l" "lo_subs l n = None"
  shows "lo_subs (fold (\<lambda>b l. bstep l b) bs l) n = None"
  using assms
proof (induction bs arbitrary: l)
  case (Cons b bs)
  have "lo_subs (bstep l b) n = None \<and> n < lo_next (bstep l b)"
    using Cons.prems
    by (cases b) (auto simp: Local_Subscribe_def Local_unsubscribe_def Let_def)
  with Cons bstep_ok [OF Cons.prems(1), of b] show ?case by simp
qed simp

section \<open>Properties\<close>

text \<open>A handler subscribed to a \<open>Local\<close> bus stays subscribed, under the id it got, through any
  subscriptions and any other subscriber's unsubscription; after its own unsubscription it is gone
  for good, however often it is unsubscribed again.\<close>

theorem Local_subscription_lifetime:
  assumes "Local_Subscribe (Some h) (fold (\<lambda>b l. bstep l b) bs NewLocal) = (Inr n, l)"
    "Unsub n \<notin> set cs"
  shows "lo_subs (fold (\<lambda>b l. bstep l b) cs l) n = Some h
    \<and> lo_subs (fold (\<lambda>b l. bstep l b) (cs @ Unsub n # ds) l) n = None"
proof -
  let ?l = "fold (\<lambda>b l. bstep l b) bs NewLocal"
  have l: "l = bstep ?l (Sub h)" "n = lo_next ?l"
    using assms(1) by (auto simp: Local_Subscribe_def Let_def)
  have ok: "ids_ok l" unfolding l(1) by (intro bstep_ok bsteps_ok NewLocal_ok)
  have h: "lo_subs l n = Some h" using l by (simp add: Local_Subscribe_def Let_def)
  let ?m = "fold (\<lambda>b l. bstep l b) cs l"
  have m: "ids_ok ?m" "lo_subs ?m n = Some h"
    by (rule bsteps_ok [OF ok], rule bsteps_kept [OF ok h assms(2)])
  then have "n < lo_next ?m" by (auto simp: ids_ok_def)
  then have "lo_subs (fold (\<lambda>b l. bstep l b) ds (bstep ?m (Unsub n))) n = None"
    by (intro bsteps_gone bstep_ok m(1)) (simp_all add: Local_unsubscribe_def)
  then show ?thesis using m(2) by simp
qed

definition demo_bus :: "nat Local" where
  "demo_bus = snd (Local_Subscribe (Some (\<lambda>e x. x + 1)) (fold (\<lambda>b l. bstep l b) [Sub (\<lambda>e x. x)] NewLocal))"

theorem Local_subscription_lifetime_witness:
  "lo_subs (fold (\<lambda>b l. bstep l b) [Sub (\<lambda>e x. x), Unsub 0] demo_bus) 1 = Some (\<lambda>e x. x + 1)
    \<and> lo_subs (fold (\<lambda>b l. bstep l b) ([Sub (\<lambda>e x. x), Unsub 0] @ Unsub 1 # [Unsub 1]) demo_bus) 1 = None"
  by (rule Local_subscription_lifetime [of _ "[Sub (\<lambda>e x. x)]"])
    (simp_all add: demo_bus_def Local_Subscribe_def NewLocal_def Let_def)

text \<open>\<open>Publish\<close> delivers an event to every current subscriber exactly once, whatever the order of
  the map, when delivering to one of them does not change what another one's handler does.\<close>

theorem Local_Publish_delivers_once:
  assumes "map_order l order" "map_order l order'"
    "\<And>i j h h'. lo_subs l i = Some h \<Longrightarrow> lo_subs l j = Some h' \<Longrightarrow> h e \<circ> h' e = h' e \<circ> h e"
  shows "Local_Publish None e order l x = Local_Publish None e order' l x"
proof -
  have m: "mset order = mset order'"
    using assms(1,2) by (metis map_order_def set_eq_iff_mset_eq_distinct)
  have some: "\<exists>h. lo_subs l i = Some h" if "i \<in> set order" for i
    using assms(1) that by (auto simp: map_order_def)
  have "fold (\<lambda>i x. the (lo_subs l i) e x) order x = fold (\<lambda>i x. the (lo_subs l i) e x) order' x"
  proof (rule fun_cong [OF fold_multiset_equiv [OF _ m]])
    fix i j assume "i \<in> set order" "j \<in> set order"
    then obtain h h' where "lo_subs l i = Some h" "lo_subs l j = Some h'" using some by blast
    then show "(\<lambda>x. the (lo_subs l i) e x) \<circ> (\<lambda>x. the (lo_subs l j) e x)
        = (\<lambda>x. the (lo_subs l j) e x) \<circ> (\<lambda>x. the (lo_subs l i) e x)"
      using assms(3) [of i h j h'] by simp
  qed
  then show ?thesis by (simp add: Local_Publish_def fold_map comp_def)
qed

theorem Local_Publish_delivers_once_witness:
  "Local_Publish None \<lparr>Namespace = ''tasks'', ev_Kind = KindKey, Name = ''k''\<rparr> [0, 1] demo_bus 5
    = Local_Publish None \<lparr>Namespace = ''tasks'', ev_Kind = KindKey, Name = ''k''\<rparr> [1, 0] demo_bus 5"
  by (rule Local_Publish_delivers_once)
    (auto simp: demo_bus_def Local_Subscribe_def NewLocal_def Let_def map_order_def split: if_splits)

end
