(* ===== verification/Float64.thy ===== *)
theory Float64
  imports Prelude "HOL-Library.Log_Nat"
begin

text \<open>
  Go's \<open>float64\<close> as far as \<open>cache.go\<close> computes with it: the jitter, a draw in \<open>[0, 1)\<close> and a
  duration, multiplied and subtracted.  A finite value is the rational number it denotes, and
  \<open>fl\<close> rounds the exact result of an operation to the nearest representable value, ties to even,
  as IEEE 754 prescribes.  None of these computations overflows the exponent range.
\<close>

section \<open>Rounding\<close>

text \<open>The exponent of a positive rational: \<open>2 powi expo x \<le> x < 2 powi (expo x + 1)\<close>.\<close>

definition expo :: "rat \<Rightarrow> int" where
  "expo x = (if 1 \<le> x then int (floorlog 2 (nat \<lfloor>x\<rfloor>)) - 1
     else - int (floorlog 2 (nat (\<lceil>1 / x\<rceil> - 1))))"

definition ulp :: "rat \<Rightarrow> rat" where
  "ulp x = 2 powi (max (expo x - 52) (- 1074))"

text \<open>The nearest integer, ties to even.\<close>

definition rne :: "rat \<Rightarrow> int" where
  "rne x = (let f = \<lfloor>x\<rfloor>; r = x - of_int f in
     if r < 1 / 2 then f else if 1 / 2 < r then f + 1 else if even f then f else f + 1)"

definition fl :: "rat \<Rightarrow> rat" where
  "fl x = (if x = 0 then 0
     else if 0 < x then of_int (rne (x / ulp x)) * ulp x
     else - (of_int (rne (- x / ulp (- x))) * ulp (- x)))"

text \<open>The values a jitter option can be given.\<close>

datatype float64 = NaN | Infinity bool | Fin rat

definition math_IsNaN :: "float64 \<Rightarrow> bool" where
  "math_IsNaN x \<longleftrightarrow> x = NaN"

text \<open>\<open>x < 0\<close> and \<open>x >= 1\<close>, false for a NaN; the argument of \<open>Infinity\<close> is its sign.\<close>

definition f64_neg :: "float64 \<Rightarrow> bool" where
  "f64_neg x = (case x of NaN \<Rightarrow> False | Infinity neg \<Rightarrow> neg | Fin r \<Rightarrow> r < 0)"

definition f64_ge1 :: "float64 \<Rightarrow> bool" where
  "f64_ge1 x = (case x of NaN \<Rightarrow> False | Infinity neg \<Rightarrow> \<not> neg | Fin r \<Rightarrow> 1 \<le> r)"

section \<open>Lemmas\<close>

lemma powi_less_iff: "(2 :: rat) powi m < 2 powi n \<longleftrightarrow> m < n"
  using power_int_strict_increasing [of m n "2 :: rat"] power_int_increasing [of n m "2 :: rat"]
  by (cases "m < n") auto

lemma powi_le_iff: "(2 :: rat) powi m \<le> 2 powi n \<longleftrightarrow> m \<le> n"
  using powi_less_iff [of n m] by linarith

lemma expo_bounds:
  assumes "0 < x"
  shows "2 powi (expo x) \<le> x \<and> x < 2 powi (expo x + 1)"
proof (cases "1 \<le> x")
  case True
  define n where "n = nat \<lfloor>x\<rfloor>"
  define j where "j = floorlog 2 n"
  have n: "0 < n" using True by (simp add: n_def)
  have b: "2 ^ (j - 1) \<le> n" "n < 2 ^ j" using floorlog_bounds [OF n, of 2] by (simp_all add: j_def)
  have j: "0 < j" using n b(2) by (cases j) auto
  have fx: "of_nat n \<le> x" "x < of_nat n + 1" using True by (simp_all add: n_def of_nat_nat) linarith
  have "(of_nat (2 ^ (j - 1)) :: rat) \<le> of_nat n" using b(1) by (simp only: of_nat_le_iff)
  then have lo: "(2 :: rat) ^ (j - 1) \<le> x" using fx(1) unfolding of_nat_power of_nat_numeral by linarith
  have "n + 1 \<le> 2 ^ j" using b(2) by simp
  then have "(of_nat (n + 1) :: rat) \<le> of_nat (2 ^ j)" by (simp only: of_nat_le_iff)
  then have hi: "x < (2 :: rat) ^ j" using fx(2) by simp
  have e: "expo x = int (j - 1)" "expo x + 1 = int j"
    using True j by (simp_all add: expo_def j_def n_def of_nat_diff)
  show ?thesis using lo hi by (simp only: e(2) power_int_of_nat) (simp only: e(1) power_int_of_nat)
next
  case False
  define m where "m = nat (\<lceil>1 / x\<rceil> - 1)"
  define j where "j = floorlog 2 m"
  have "1 < 1 / x" using False assms by simp
  then have m: "0 < m" by (simp add: m_def)
  then have fx: "of_nat m < 1 / x" "1 / x \<le> of_nat m + 1"
    by (simp_all add: m_def of_nat_nat) linarith+
  have b: "2 ^ (j - 1) \<le> m" "m < 2 ^ j" using floorlog_bounds [OF m, of 2] by (simp_all add: j_def)
  have j: "0 < j" using m b(2) by (cases j) auto
  have "(of_nat (2 ^ (j - 1)) :: rat) \<le> of_nat m" using b(1) by (simp only: of_nat_le_iff)
  then have hi: "(2 :: rat) ^ (j - 1) < 1 / x" using fx(1) unfolding of_nat_power of_nat_numeral by linarith
  have "(of_nat (m + 1) :: rat) \<le> of_nat (2 ^ j)" using b(2) by (simp only: of_nat_le_iff)
  then have lo: "1 / x \<le> (2 :: rat) ^ j" using fx(2) by simp
  have e: "expo x = - int j" "expo x + 1 = - int (j - 1)"
    using False j by (simp_all add: expo_def j_def m_def of_nat_diff)
  have "1 / 2 ^ j \<le> x" "x < 1 / 2 ^ (j - 1)" using lo hi assms by (simp_all add: field_simps)
  then show ?thesis
    by (simp only: e(2) power_int_minus power_int_of_nat)
      (simp only: e(1) power_int_minus power_int_of_nat inverse_eq_divide)
qed

lemma expo_unique:
  assumes "2 powi e \<le> x" "x < 2 powi (e + 1)"
  shows "expo x = e"
proof -
  have "(0 :: rat) < 2 powi e" by simp
  then have "0 < x" using assms(1) by linarith
  from expo_bounds [OF this] assms
  have "(2 :: rat) powi (expo x) < 2 powi (e + 1)" "(2 :: rat) powi e < 2 powi (expo x + 1)" by linarith+
  then have "expo x < e + 1" "e < expo x + 1"
    by (simp_all add: powi_less_iff)
  then show ?thesis by simp
qed

lemma expo_mono: "0 < x \<Longrightarrow> x \<le> y \<Longrightarrow> expo x \<le> expo y"
proof -
  assume "0 < x" "x \<le> y"
  then have "(2 :: rat) powi (expo x) < 2 powi (expo y + 1)"
    using expo_bounds [of x] expo_bounds [of y] by linarith
  then have "expo x < expo y + 1" by (simp add: powi_less_iff)
  then show ?thesis by simp
qed

lemma rne_near: "of_int i - 1 / 2 \<le> x \<Longrightarrow> x \<le> of_int i + 1 / 2 \<Longrightarrow> i - 1 < rne x + 1"
  by (auto simp: rne_def Let_def) linarith+

lemma rne_of_int [simp]: "rne (of_int i) = i"
  by (simp add: rne_def)

lemma rne_mono:
  assumes "x \<le> y"
  shows "rne x \<le> rne y"
proof (cases "\<lfloor>x\<rfloor> = \<lfloor>y\<rfloor>")
  case True
  then show ?thesis using assms by (auto simp: rne_def Let_def)
next
  case False
  then have "\<lfloor>x\<rfloor> + 1 \<le> \<lfloor>y\<rfloor>" using floor_mono [OF assms] by simp
  moreover have "rne x \<le> \<lfloor>x\<rfloor> + 1" "\<lfloor>y\<rfloor> \<le> rne y" by (simp_all add: rne_def Let_def)
  ultimately show ?thesis by linarith
qed

lemma rne_nonneg: "0 \<le> x \<Longrightarrow> 0 \<le> rne x"
  using rne_mono [of 0 x] rne_of_int [of 0] by simp

lemma ulp_pos [simp]: "0 < ulp x"
  by (simp add: ulp_def)

lemma fl_0 [simp]: "fl 0 = 0"
  by (simp add: fl_def)

lemma fl_nonneg: "0 \<le> x \<Longrightarrow> 0 \<le> fl x"
  by (auto simp: fl_def intro!: mult_nonneg_nonneg rne_nonneg divide_nonneg_pos less_imp_le [OF ulp_pos])

text \<open>A multiple of its own unit in the last place is representable.\<close>

lemma fl_grid: "0 < x \<Longrightarrow> x = of_int m * ulp x \<Longrightarrow> fl x = x"
proof -
  assume "0 < x" and m: "x = of_int m * ulp x"
  then have "x / ulp x = of_int m" using ulp_pos [of x] by (metis less_irrefl nonzero_mult_div_cancel_right)
  then show ?thesis using \<open>0 < x\<close> m by (simp add: fl_def)
qed

lemma fl_same_ulp: "0 < x \<Longrightarrow> x \<le> y \<Longrightarrow> ulp x = ulp y \<Longrightarrow> fl x \<le> fl y"
  using rne_mono [OF divide_right_mono [OF _ less_imp_le [OF ulp_pos [of y]]], of x y] by (simp add: fl_def)

lemma fl_le_grid: "0 < x \<Longrightarrow> x \<le> of_int m * ulp x \<Longrightarrow> fl x \<le> of_int m * ulp x"
proof -
  assume x: "0 < x" "x \<le> of_int m * ulp x"
  then have "x / ulp x \<le> of_int m" by (simp add: pos_divide_le_eq)
  then have "rne (x / ulp x) \<le> m" using rne_mono [of "x / ulp x" "of_int m"] by simp
  then show ?thesis using x(1) by (simp add: fl_def)
qed

lemma fl_ge_grid: "0 < x \<Longrightarrow> of_int m * ulp x \<le> x \<Longrightarrow> of_int m * ulp x \<le> fl x"
proof -
  assume x: "0 < x" "of_int m * ulp x \<le> x"
  then have "of_int m \<le> x / ulp x" by (simp add: pos_le_divide_eq)
  then have "m \<le> rne (x / ulp x)" using rne_mono [of "of_int m" "x / ulp x"] by simp
  then show ?thesis using x(1) by (simp add: fl_def)
qed

text \<open>The power of two above a value, and the one below it, lie on the value's grid.\<close>

lemma pow_grid:
  assumes "max (expo x - 52) (- 1074) \<le> e"
  shows "\<exists>m. (2 :: rat) powi e = of_int m * ulp x"
proof -
  define u where "u = max (expo x - 52) (- 1074)"
  have "(2 :: rat) powi e = 2 powi (e - u) * 2 powi u"
    by (simp add: power_int_add [symmetric])
  also have "(2 :: rat) powi (e - u) = of_int (2 ^ nat (e - u))"
    using assms by (simp add: u_def power_int_def)
  finally show ?thesis by (auto simp: ulp_def u_def)
qed

lemma fl_mono:
  assumes "0 \<le> x" "x \<le> y"
  shows "fl x \<le> fl y"
proof (cases "x = 0 \<or> ulp x = ulp y")
  case True
  then show ?thesis using assms fl_nonneg [of y] fl_same_ulp [of x y] by (cases "x = 0") auto
next
  case False
  then have x: "0 < x" and y: "0 < y" using assms by auto
  have "max (expo x - 52) (- 1074) \<noteq> max (expo y - 52) (- 1074)" using False by (auto simp: ulp_def)
  then have e: "expo x < expo y" "- 1074 < expo y - 52" using expo_mono [OF x assms(2)] by auto
  obtain m where m: "(2 :: rat) powi (expo y) = of_int m * ulp x"
    using pow_grid [of x "expo y"] e by auto
  have "x < (2 :: rat) powi (expo x + 1)" using expo_bounds [OF x] by simp
  also have "\<dots> \<le> 2 powi (expo y)" using e(1) by (simp add: powi_le_iff)
  finally have "fl x \<le> 2 powi (expo y)" using fl_le_grid [OF x, of m] m by simp
  also have "\<dots> \<le> fl y"
  proof -
    obtain m' where m': "(2 :: rat) powi (expo y) = of_int m' * ulp y"
      using pow_grid [of y "expo y"] e(2) by auto
    then show ?thesis using fl_ge_grid [OF y, of m'] expo_bounds [OF y] by simp
  qed
  finally show ?thesis .
qed

text \<open>Integers below \<open>2 ^ 53\<close> and powers of two are exact.\<close>

lemma fl_of_int:
  assumes "0 \<le> i" "i < 2 ^ 53"
  shows "fl (of_int i) = of_int i"
proof (cases "i = 0")
  case False
  with assms have i: "0 < (of_int i :: rat)" "1 \<le> (of_int i :: rat)" by simp_all
  have "(2 :: rat) powi (expo (of_int i)) \<le> of_int i" using expo_bounds [OF i(1)] by simp
  also have "(of_int i :: rat) < of_int (2 ^ 53)" using assms(2) by (simp only: of_int_less_iff)
  also have "(of_int (2 ^ 53) :: rat) = 2 powi 53" by simp
  finally have "expo (of_int i) < 53" using powi_less_iff [of "expo (of_int i)" 53] by simp
  moreover have "0 \<le> expo (of_int i :: rat)"
    using expo_mono [of 1 "of_int i"] expo_unique [of 0 1] i by simp
  ultimately have u: "max (expo (of_int i :: rat) - 52) (- 1074) \<le> 0" by simp
  obtain m where "(2 :: rat) powi 0 = of_int m * ulp (of_int i)" using pow_grid [OF u] by blast
  then have "(of_int i :: rat) = of_int (i * m) * ulp (of_int i)" by simp
  then show ?thesis using fl_grid [OF i(1), of "i * m"] by simp
qed simp

lemma fl_pow: "fl (2 ^ n) = 2 ^ n"
proof -
  have e: "expo (2 ^ n :: rat) = int n"
    by (rule expo_unique) (simp_all add: power_int_add)
  obtain m where "(2 :: rat) powi (int n) = of_int m * ulp (2 ^ n)"
    using pow_grid [of "2 ^ n" "int n"] e by auto
  then show ?thesis using fl_grid [of "2 ^ n" m] by simp
qed

lemma fl_1 [simp]: "fl 1 = 1"
  using fl_pow [of 0] by simp

end
