(* ===== verification/World.thy ===== *)
theory World
  imports Envelope GenCache Generation Bus Float64
begin

text \<open>
  What the cache talks to, and the monad it runs in.  \<open>Store\<close>, \<open>TagStore\<close>, \<open>Codec\<close> and \<open>Bus\<close> are Go
  interfaces: records of operations on an abstract outside state \<open>'x\<close>, so any implementation, failing
  or not, is an instance.  A cache operation is a \<open>state\<close> transformer of a \<open>world\<close>: the outside
  state, the cache's own copy of tag generations (\<open>c.gens\<close>), and the hook events delivered so far.
\<close>

section \<open>Interfaces\<close>

text \<open>Contexts, by how they are made.  Whether one has ended is asked of the outside state.\<close>

datatype ctx = Background | Caller nat | WithoutCancel ctx | WithTimeout ctx duration

text \<open>A Go slice that may be nil: \<open>None\<close>.  A nil slice has no elements.\<close>

type_synonym gens = "u64 list option"

definition elems :: "gens \<Rightarrow> u64 list" where
  "elems g = (case g of None \<Rightarrow> [] | Some gs \<Rightarrow> gs)"

record 'x TagStore =
  ts_GetTagged :: "ctx \<Rightarrow> string \<Rightarrow> string list \<Rightarrow> duration \<Rightarrow> 'x \<Rightarrow> (bytes option \<times> gens) result \<times> 'x"
  ts_Bump :: "ctx \<Rightarrow> string list \<Rightarrow> duration \<Rightarrow> 'x \<Rightarrow> error option \<times> 'x"

text \<open>\<open>st_tags\<close> is what the assertion \<open>store.(TagStore)\<close> gives.\<close>

record 'x Store =
  st_Get :: "ctx \<Rightarrow> string \<Rightarrow> 'x \<Rightarrow> bytes option result \<times> 'x"
  st_Set :: "ctx \<Rightarrow> string \<Rightarrow> bytes \<Rightarrow> duration \<Rightarrow> 'x \<Rightarrow> error option \<times> 'x"
  st_Delete :: "ctx \<Rightarrow> string \<Rightarrow> 'x \<Rightarrow> error option \<times> 'x"
  st_tags :: "'x TagStore option"

record 'v Codec =
  cd_ID :: string
  cd_Marshal :: "'v \<Rightarrow> bytes result"
  cd_Unmarshal :: "bytes \<Rightarrow> 'v result"

record 'x Bus =
  b_Publish :: "ctx \<Rightarrow> Event \<Rightarrow> 'x \<Rightarrow> error option \<times> 'x"
  b_Subscribe :: "'x \<Rightarrow> nat result \<times> 'x"
  b_Unsubscribe :: "nat \<Rightarrow> 'x \<Rightarrow> 'x"

text \<open>
  The value type: its zero value, which values implement \<open>NoCache\<close>, and whether a pointer to the
  type does.  \<open>uncacheableType\<close> and \<open>uncacheable\<close> are those of \<open>nocache.go\<close>.
\<close>

record 'v gotype =
  ty_zero :: 'v
  ty_NoCache :: "'v \<Rightarrow> bool"
  ty_ptr_NoCache :: bool

definition uncacheableType :: "'v gotype \<Rightarrow> bool" where
  "uncacheableType ty \<longleftrightarrow> ty_NoCache ty (ty_zero ty) \<or> ty_ptr_NoCache ty"

definition uncacheable :: "'v gotype \<Rightarrow> 'v \<Rightarrow> bool" where
  "uncacheable ty v \<longleftrightarrow> ty_NoCache ty v"

text \<open>
  The outside of one process: what \<open>ctx.Err()\<close> says, \<open>time.Now\<close> and \<open>rand.Float64\<close>, the value Go's
  conversion of an out-of-range float to an integer has on this platform (the language leaves it
  open), and what \<open>singleflight\<close> does with a call: the caller leads and gets its own load's result,
  leads but stops waiting before the load returns (and perhaps before it starts), or gets a result
  without running the load.
\<close>

datatype flight = Lead | Abandon error bool | Join "bytes result"

record 'x runtime =
  rt_Err :: "ctx \<Rightarrow> 'x \<Rightarrow> error option \<times> 'x"
  rt_Now :: "'x \<Rightarrow> time \<times> 'x"
  rt_Float64 :: "'x \<Rightarrow> rat \<times> 'x"
  rt_trunc :: int
  rt_flight :: "ctx \<Rightarrow> string \<Rightarrow> duration \<Rightarrow> 'x \<Rightarrow> flight \<times> 'x"

section \<open>Hook events\<close>

datatype Level = NoLevel | LevelL1 | LevelL2

definition Level_String :: "Level \<Rightarrow> string" where
  "Level_String l = (case l of LevelL1 \<Rightarrow> ''L1'' | LevelL2 \<Rightarrow> ''L2'' | NoLevel \<Rightarrow> '''')"

datatype Op = OpRead | OpDecode | OpPopulate | OpBackfill | OpEvent

datatype hook_event =
    HitEvent (he_ns: string) (he_key: string) Level bool
  | MissEvent (he_ns: string) (he_key: string)
  | LoadEvent (he_ns: string) (he_key: string) duration "error option"
  | CoalescedEvent (he_ns: string) (he_key: string)
  | ErrorEvent (he_ns: string) (he_key: string) Op Level error
  | InvalidateEvent (he_ns: string) (he_key: string) string bool

text \<open>A hook is nil or a function; what matters of a call is whether it panics.\<close>

type_synonym hook = "(ctx \<Rightarrow> hook_event \<Rightarrow> bool) option"

record Hooks =
  OnHit :: hook
  OnMiss :: hook
  OnLoad :: hook
  OnCoalesced :: hook
  OnError :: hook
  OnInvalidate :: hook

section \<open>The world\<close>

record 'x world =
  w_ext :: 'x
  w_gens :: genCache
  w_trace :: "hook_event list"

text \<open>An operation of the outside, as a step of the world.\<close>

definition ext :: "('x \<Rightarrow> 'a \<times> 'x) \<Rightarrow> ('x world, 'a) state" where
  "ext f = State (\<lambda>w. case f (w_ext w) of (a, x) \<Rightarrow> (a, w\<lparr>w_ext := x\<rparr>))"

definition get_gens :: "('x world, genCache) state" where
  "get_gens = State (\<lambda>w. (w_gens w, w))"

definition put_gens :: "genCache \<Rightarrow> ('x world, unit) state" where
  "put_gens g = State (\<lambda>w. ((), w\<lparr>w_gens := g\<rparr>))"

definition emit :: "hook_event \<Rightarrow> ('x world, unit) state" where
  "emit e = State (\<lambda>w. ((), w\<lparr>w_trace := w_trace w @ [e]\<rparr>))"

section \<open>Weakest preconditions\<close>

text \<open>\<open>wp m Q w\<close>: running \<open>m\<close> from \<open>w\<close> ends with a result and a world that satisfy \<open>Q\<close>.\<close>

definition wp :: "('s, 'a) state \<Rightarrow> ('a \<Rightarrow> 's \<Rightarrow> bool) \<Rightarrow> 's \<Rightarrow> bool" where
  "wp m Q w = (case run_state m w of (a, w') \<Rightarrow> Q a w')"

named_theorems wp_simps

lemma wp_return [wp_simps]: "wp (State_Monad.return a) Q w = Q a w"
  by (simp add: wp_def State_Monad.return_def)

lemma wp_bind [wp_simps]: "wp (m \<bind> f) Q w = wp m (\<lambda>a. wp (f a) Q) w"
  by (simp add: wp_def State_Monad.bind_def split_beta)

lemma wp_ext [wp_simps]:
  "wp (ext f) Q w = Q (fst (f (w_ext w))) (w\<lparr>w_ext := snd (f (w_ext w))\<rparr>)"
  by (simp add: wp_def ext_def split_beta)

lemma wp_get_gens [wp_simps]: "wp get_gens Q w = Q (w_gens w) w"
  by (simp add: wp_def get_gens_def)

lemma wp_put_gens [wp_simps]: "wp (put_gens g) Q w = Q () (w\<lparr>w_gens := g\<rparr>)"
  by (simp add: wp_def put_gens_def)

lemma wp_emit [wp_simps]: "wp (emit e) Q w = Q () (w\<lparr>w_trace := w_trace w @ [e]\<rparr>)"
  by (simp add: wp_def emit_def)

lemma wp_if [wp_simps]: "wp (if b then m else m') Q w = (if b then wp m Q w else wp m' Q w)"
  by simp

lemma wp_mono: "wp m Q w \<Longrightarrow> (\<And>a w'. Q a w' \<Longrightarrow> Q' a w') \<Longrightarrow> wp m Q' w"
  by (auto simp: wp_def split: prod.splits)

lemma wp_run: "wp m Q w \<longleftrightarrow> Q (fst (run_state m w)) (snd (run_state m w))"
  by (simp add: wp_def split_beta)

lemma wp_conj: "wp m Q w \<Longrightarrow> wp m R w \<Longrightarrow> wp m (\<lambda>a w. Q a w \<and> R a w) w"
  by (simp add: wp_run)

text \<open>A fact about results and one that is kept by every step.\<close>

definition keeps :: "('s, 'a) state \<Rightarrow> ('s \<Rightarrow> bool) \<Rightarrow> bool" where
  "keeps m I \<longleftrightarrow> (\<forall>w. I w \<longrightarrow> I (snd (run_state m w)))"

lemma keeps_return: "keeps (State_Monad.return a) I"
  by (simp add: keeps_def State_Monad.return_def)

lemma keeps_bind: "keeps m I \<Longrightarrow> (\<And>a. keeps (f a) I) \<Longrightarrow> keeps (m \<bind> f) I"
  by (simp add: keeps_def State_Monad.bind_def split_beta)

lemma keeps_if: "(b \<Longrightarrow> keeps m I) \<Longrightarrow> (\<not> b \<Longrightarrow> keeps m' I) \<Longrightarrow> keeps (if b then m else m') I"
  by simp

lemma keeps_wp: "keeps m I \<Longrightarrow> I w \<Longrightarrow> wp m (\<lambda>a. I) w"
  by (simp add: keeps_def wp_run)

lemma keepsI: "(\<And>w. I w \<Longrightarrow> wp m (\<lambda>a. I) w) \<Longrightarrow> keeps m I"
  by (simp add: keeps_def wp_run)

end
