(* ===== verification/Config.thy ===== *)
theory Config
  imports World
begin

text \<open>
  \<open>options.go\<close> and the checks of \<open>New\<close> in \<open>cache.go\<close>: the configuration, the options that change it,
  \<open>validate\<close> and \<open>tagging\<close>.  An interface value that may be nil is an option, and the \<open>any\<close> that
  \<open>WithTags\<close> stores is a function of this cache's key type, a nil one, or something else.
\<close>

section \<open>Options\<close>

datatype 'k tags_any = TagsOther | TagsNil | TagsFn "'k \<Rightarrow> string list"

record ('x, 'k, 'v) config =
  cf_l1 :: "'x Store option"
  cf_l2 :: "'x Store option"
  cf_l1Set :: bool
  cf_l2Set :: bool
  cf_ttl :: duration
  cf_l1TTL :: duration
  cf_l1TTLSet :: bool
  cf_jitter :: float64
  cf_codec :: "'v Codec option"
  cf_negTTL :: duration
  cf_negTTLSet :: bool
  cf_loadTimeout :: duration
  cf_loadTimeoutSet :: bool
  cf_maxValue :: int
  cf_hashKeys :: bool
  cf_tagsFn :: "'k tags_any"
  cf_tagsSet :: bool
  cf_bus :: "'x Bus option"
  cf_busSet :: bool
  cf_hooks :: Hooks
  cf_hookKeys :: bool

type_synonym ('x, 'k, 'v) Option = "('x, 'k, 'v) config \<Rightarrow> ('x, 'k, 'v) config"

definition DefaultLoadTimeout :: duration where "DefaultLoadTimeout = 10 * 10 ^ 9"
definition DefaultMaxValueBytes :: int where "DefaultMaxValueBytes = push_bit 20 1"

definition WithL1 :: "'x Store option \<Rightarrow> ('x, 'k, 'v) Option" where
  "WithL1 s c = c\<lparr>cf_l1 := s, cf_l1Set := True\<rparr>"

definition WithL2 :: "'x Store option \<Rightarrow> ('x, 'k, 'v) Option" where
  "WithL2 s c = c\<lparr>cf_l2 := s, cf_l2Set := True\<rparr>"

definition WithTTL :: "duration \<Rightarrow> ('x, 'k, 'v) Option" where
  "WithTTL d c = c\<lparr>cf_ttl := d\<rparr>"

definition WithL1TTL :: "duration \<Rightarrow> ('x, 'k, 'v) Option" where
  "WithL1TTL d c = c\<lparr>cf_l1TTL := d, cf_l1TTLSet := True\<rparr>"

definition WithJitter :: "float64 \<Rightarrow> ('x, 'k, 'v) Option" where
  "WithJitter f c = c\<lparr>cf_jitter := f\<rparr>"

definition WithCodec :: "'v Codec option \<Rightarrow> ('x, 'k, 'v) Option" where
  "WithCodec cd c = c\<lparr>cf_codec := cd\<rparr>"

definition WithNegativeTTL :: "duration \<Rightarrow> ('x, 'k, 'v) Option" where
  "WithNegativeTTL d c = c\<lparr>cf_negTTL := d, cf_negTTLSet := True\<rparr>"

definition WithLoadTimeout :: "duration \<Rightarrow> ('x, 'k, 'v) Option" where
  "WithLoadTimeout d c = c\<lparr>cf_loadTimeout := d, cf_loadTimeoutSet := True\<rparr>"

definition WithMaxValueBytes :: "int \<Rightarrow> ('x, 'k, 'v) Option" where
  "WithMaxValueBytes n c = c\<lparr>cf_maxValue := n\<rparr>"

definition WithKeyHashing :: "('x, 'k, 'v) Option" where
  "WithKeyHashing c = c\<lparr>cf_hashKeys := True\<rparr>"

definition WithTags :: "'k tags_any \<Rightarrow> ('x, 'k, 'v) Option" where
  "WithTags tags c = c\<lparr>cf_tagsFn := tags, cf_tagsSet := True\<rparr>"

definition WithBus :: "'x Bus option \<Rightarrow> ('x, 'k, 'v) Option" where
  "WithBus b c = c\<lparr>cf_bus := b, cf_busSet := True\<rparr>"

definition WithHooks :: "Hooks \<Rightarrow> ('x, 'k, 'v) Option" where
  "WithHooks h c = c\<lparr>cf_hooks := h\<rparr>"

definition WithHookKeys :: "('x, 'k, 'v) Option" where
  "WithHookKeys c = c\<lparr>cf_hookKeys := True\<rparr>"

definition no_hooks :: Hooks where
  "no_hooks = \<lparr>OnHit = None, OnMiss = None, OnLoad = None, OnCoalesced = None, OnError = None,
     OnInvalidate = None\<rparr>"

text \<open>What \<open>New\<close> starts from; \<open>json\<close> is \<open>codec.JSON\<close>, whose functions are those of \<open>encoding/json\<close>.\<close>

definition default_config :: "'v Codec \<Rightarrow> ('x, 'k, 'v) config" where
  "default_config json = \<lparr>cf_l1 = None, cf_l2 = None, cf_l1Set = False, cf_l2Set = False, cf_ttl = 0,
     cf_l1TTL = 0, cf_l1TTLSet = False, cf_jitter = Fin 0, cf_codec = Some json, cf_negTTL = 0,
     cf_negTTLSet = False, cf_loadTimeout = DefaultLoadTimeout, cf_loadTimeoutSet = False,
     cf_maxValue = DefaultMaxValueBytes, cf_hashKeys = False, cf_tagsFn = TagsNil, cf_tagsSet = False,
     cf_bus = None, cf_busSet = False, cf_hooks = no_hooks, cf_hookKeys = False\<rparr>"

text \<open>The options of one call.\<close>

record entryConfig = ec_ttl :: duration

type_synonym EntryOption = "entryConfig \<Rightarrow> entryConfig"

definition TTL :: "duration \<Rightarrow> EntryOption" where
  "TTL d e = e\<lparr>ec_ttl := d\<rparr>"

definition entryOptions :: "duration \<Rightarrow> EntryOption list \<Rightarrow> entryConfig result" where
  "entryOptions ttl opts =
     (let e = fold (\<lambda>opt e. opt e) opts \<lparr>ec_ttl = ttl\<rparr> in
      if ec_ttl e \<le> 0 then Inl (Wrap ''%w: entry TTL must be positive'' [ErrInvalidConfig]) else Inr e)"

section \<open>Validation\<close>

definition validate :: "string \<Rightarrow> bool \<Rightarrow> ('x, 'k, 'v) config \<Rightarrow> error option" where
  "validate ns hasKey cfg =
     (if \<not> namespacePattern ns then Some (errors_New ''namespace must match'')
      else if \<not> hasKey then Some (errors_New ''key function is nil'')
      else if \<not> cf_l1Set cfg \<and> \<not> cf_l2Set cfg then Some (errors_New ''no level: use WithL1, WithL2 or both'')
      else if cf_l1Set cfg \<and> cf_l1 cfg = None then Some (errors_New ''WithL1 was given a nil Store'')
      else if cf_l2Set cfg \<and> cf_l2 cfg = None then Some (errors_New ''WithL2 was given a nil Store'')
      else if cf_ttl cfg \<le> 0 then Some (errors_New ''TTL must be set with WithTTL and positive'')
      else if cf_l1TTLSet cfg \<and> \<not> cf_l1Set cfg then Some (errors_New ''WithL1TTL requires WithL1'')
      else if cf_l1TTLSet cfg \<and> cf_l1TTL cfg \<le> 0 then Some (errors_New ''L1 TTL must be positive'')
      else if cf_l1TTLSet cfg \<and> cf_l1TTL cfg > cf_ttl cfg then Some (errors_New ''L1 TTL exceeds TTL'')
      else if cf_negTTLSet cfg \<and> (cf_negTTL cfg \<le> 0 \<or> cf_negTTL cfg > cf_ttl cfg)
        then Some (errors_New ''negative TTL must be positive and no longer than TTL'')
      else if cf_loadTimeoutSet cfg \<and> cf_loadTimeout cfg \<le> 0
        then Some (errors_New ''load timeout must be positive'')
      else if math_IsNaN (cf_jitter cfg) \<or> f64_neg (cf_jitter cfg) \<or> f64_ge1 (cf_jitter cfg)
        then Some (errors_New ''jitter must be in [0, 1)'')
      else if cf_maxValue cfg \<le> 0 then Some (errors_New ''max value bytes must be positive'')
      else if cf_busSet cfg \<and> cf_bus cfg = None then Some (errors_New ''WithBus was given a nil Bus'')
      else (case cf_codec cfg of None \<Rightarrow> Some (errors_New ''codec is nil'')
        | Some cd \<Rightarrow>
            if length (cd_ID cd) < 1 \<or> length (cd_ID cd) > 32
            then Some (errors_New ''codec id must be 1 to 32 bytes'') else None))"

definition tagging :: "('x, 'k, 'v) config \<Rightarrow> (('k \<Rightarrow> string list) \<times> 'x TagStore) result" where
  "tagging cfg =
     (case cf_tagsFn cfg of
        TagsOther \<Rightarrow> Inl (errors_New ''WithTags was not given a func of this cache's key type'')
      | TagsNil \<Rightarrow> Inl (errors_New ''WithTags was given a nil function'')
      | TagsFn fn \<Rightarrow>
          let authority = (case cf_l2 cfg of Some s \<Rightarrow> Some s | None \<Rightarrow> cf_l1 cfg) in
          (case Option.bind authority st_tags of
             None \<Rightarrow> Inl (errors_New ''WithTags needs the authoritative level to implement TagStore'')
           | Some auth \<Rightarrow> Inr (fn, auth)))"

end
