(* ===== verification/Cache.thy ===== *)
theory Cache
  imports Config "HOL-Library.Char_ord" "HOL-Library.List_Lexorder"
begin

text \<open>
  The cache itself: \<open>cache.go\<close>, \<open>tags.go\<close>, \<open>events.go\<close> and the calls of \<open>hooks.go\<close>.  One definition per
  function, with the function's name; a method's receiver is the record \<open>c\<close>, and \<open>c.gens\<close>, the
  only field a method changes, lives in the world.  A result that Go returns as \<open>(value, ok, err)\<close>
  is \<open>Inl err\<close>, \<open>Inr None\<close> (not ok) or \<open>Inr (Some value)\<close>: no function returns a value with an error.
\<close>

section \<open>State\<close>

record ('x, 'k, 'v) cache = "'k keyspace" +
  ca_l1 :: "'x Store option"
  ca_l2 :: "'x Store option"
  ca_ttl :: duration
  ca_l1TTL :: duration
  ca_negTTL :: duration
  ca_jitter :: rat
  ca_loadTimeout :: duration
  ca_maxValue :: int
  ca_codec :: "'v Codec"
  ca_codecID :: string
  ca_rt :: "'x runtime"
  ca_type :: "'v gotype"
  ca_hooks :: Hooks
  ca_hookKeys :: bool
  ca_tagsFn :: "('k \<Rightarrow> string list) option"
  ca_auth :: "'x TagStore"
  ca_gens :: bool
  ca_genTTL :: duration
  ca_bus :: "'x Bus option"
  ca_unsubscribe :: "nat option"

text \<open>\<open>c.now\<close>, \<open>c.rand\<close> and \<open>ctx.Err()\<close>.  A context that has ended keeps its error, so two calls of
  \<open>Err\<close> in a row are one.\<close>

definition now :: "('x, 'k, 'v) cache \<Rightarrow> ('x world, time) state" where
  "now c = ext (rt_Now (ca_rt c))"

definition ctxErr :: "('x, 'k, 'v) cache \<Rightarrow> ctx \<Rightarrow> ('x world, error option) state" where
  "ctxErr c ctx = ext (rt_Err (ca_rt c) ctx)"

definition floatOf :: "float64 \<Rightarrow> rat" where
  "floatOf f = (case f of Fin r \<Rightarrow> r | _ \<Rightarrow> 0)"

definition no_auth :: "'x TagStore" where
  "no_auth = \<lparr>ts_GetTagged = (\<lambda>_ _ _ _ x. (Inl (Panic ''nil pointer dereference''), x)),
     ts_Bump = (\<lambda>_ _ _ x. (Some (Panic ''nil pointer dereference''), x))\<rparr>"

definition New :: "'x runtime \<Rightarrow> 'v gotype \<Rightarrow> 'v Codec \<Rightarrow> string \<Rightarrow> ('k \<Rightarrow> string) option
    \<Rightarrow> ('x, 'k, 'v) Option list \<Rightarrow> ('x world, ('x, 'k, 'v) cache result) state" where
  "New rt ty json ns key opts =
     (let cfg = fold (\<lambda>opt c. opt c) opts (default_config json) in
      case validate ns (key \<noteq> None) cfg of
        Some err \<Rightarrow> State_Monad.return (Inl (Wrap ''%w: %w'' [ErrInvalidConfig, err]))
      | None \<Rightarrow>
      if uncacheableType ty
        then State_Monad.return (Inl (Wrap ''%w: the value type implements NoCache'' [ErrUncacheable]))
      else
        let l1TTL = (if cf_l1TTLSet cfg then cf_l1TTL cfg else cf_ttl cfg) in
        case (if cf_tagsSet cfg then map_sum id (\<lambda>(fn, auth). (Some fn, auth)) (tagging cfg)
              else Inr (None, no_auth)) of
          Inl err \<Rightarrow> State_Monad.return (Inl (Wrap ''%w: %w'' [ErrInvalidConfig, err]))
        | Inr (tagsFn, auth) \<Rightarrow> do {
            let c = \<lparr>namespace = ns, key_fn = the key, prefix = ''cistern:v1:'' @ ns @ '':-:'',
              genPrefix = ''cistern:v1:'' @ ns @ '':g:'', hashKeys = cf_hashKeys cfg,
              ca_l1 = cf_l1 cfg, ca_l2 = cf_l2 cfg, ca_ttl = cf_ttl cfg, ca_l1TTL = l1TTL,
              ca_negTTL = cf_negTTL cfg, ca_jitter = floatOf (cf_jitter cfg),
              ca_loadTimeout = cf_loadTimeout cfg, ca_maxValue = cf_maxValue cfg,
              ca_codec = the (cf_codec cfg), ca_codecID = cd_ID (the (cf_codec cfg)), ca_rt = rt,
              ca_type = ty, ca_hooks = cf_hooks cfg, ca_hookKeys = cf_hookKeys cfg,
              ca_tagsFn = tagsFn, ca_auth = auth,
              ca_gens = (tagsFn \<noteq> None \<and> cf_l1 cfg \<noteq> None \<and> cf_l2 cfg \<noteq> None),
              ca_genTTL = wrap64 (2 * cf_ttl cfg), ca_bus = cf_bus cfg, ca_unsubscribe = None\<rparr>;
            _ \<leftarrow> (if ca_gens c then put_gens (newGenCache l1TTL) else State_Monad.return ());
            case ca_bus c of
              None \<Rightarrow> State_Monad.return (Inr c)
            | Some b \<Rightarrow> do {
                sub \<leftarrow> ext (b_Subscribe b);
                case sub of
                  Inl err \<Rightarrow> State_Monad.return
                    (Inl (Wrap ''%w: subscribing to the bus: %w'' [ErrInvalidConfig, err]))
                | Inr n \<Rightarrow> State_Monad.return (Inr (c\<lparr>ca_unsubscribe := Some n\<rparr>)) } })"

section \<open>Hooks\<close>

definition safely :: "('x world, bool) state \<Rightarrow> ('x world, unit) state" where
  "safely fn = do { _ \<leftarrow> fn; State_Monad.return () }"

definition call_hook :: "hook \<Rightarrow> ctx \<Rightarrow> hook_event \<Rightarrow> ('x world, unit) state" where
  "call_hook hk ctx e =
     (case hk of None \<Rightarrow> State_Monad.return ()
      | Some h \<Rightarrow> safely (do { _ \<leftarrow> emit e; State_Monad.return (h ctx e) }))"

definition hookKey :: "('x, 'k, 'v) cache \<Rightarrow> string \<Rightarrow> string" where
  "hookKey c key = (if ca_hookKeys c then key else '''')"

definition onHit :: "('x, 'k, 'v) cache \<Rightarrow> ctx \<Rightarrow> string \<Rightarrow> Level \<Rightarrow> bool \<Rightarrow> ('x world, unit) state" where
  "onHit c ctx key level absent =
     call_hook (OnHit (ca_hooks c)) ctx (HitEvent (namespace c) (hookKey c key) level absent)"

definition onMiss :: "('x, 'k, 'v) cache \<Rightarrow> ctx \<Rightarrow> string \<Rightarrow> ('x world, unit) state" where
  "onMiss c ctx key = call_hook (OnMiss (ca_hooks c)) ctx (MissEvent (namespace c) (hookKey c key))"

definition onLoad :: "('x, 'k, 'v) cache \<Rightarrow> ctx \<Rightarrow> string \<Rightarrow> duration \<Rightarrow> error option
    \<Rightarrow> ('x world, unit) state" where
  "onLoad c ctx key d err =
     call_hook (OnLoad (ca_hooks c)) ctx (LoadEvent (namespace c) (hookKey c key) d err)"

definition onCoalesced :: "('x, 'k, 'v) cache \<Rightarrow> ctx \<Rightarrow> string \<Rightarrow> ('x world, unit) state" where
  "onCoalesced c ctx key =
     call_hook (OnCoalesced (ca_hooks c)) ctx (CoalescedEvent (namespace c) (hookKey c key))"

definition onError :: "('x, 'k, 'v) cache \<Rightarrow> ctx \<Rightarrow> string \<Rightarrow> Op \<Rightarrow> Level \<Rightarrow> error
    \<Rightarrow> ('x world, unit) state" where
  "onError c ctx key op level err =
     call_hook (OnError (ca_hooks c)) ctx (ErrorEvent (namespace c) (hookKey c key) op level err)"

definition onInvalidate :: "('x, 'k, 'v) cache \<Rightarrow> ctx \<Rightarrow> string \<Rightarrow> string \<Rightarrow> bool
    \<Rightarrow> ('x world, unit) state" where
  "onInvalidate c ctx key tag remote =
     call_hook (OnInvalidate (ca_hooks c)) ctx (InvalidateEvent (namespace c) (hookKey c key) tag remote)"

section \<open>Slots\<close>

record slot =
  sl_key :: string
  sl_pk :: string
  sl_genKeys :: "string list"

fun genKeys_of :: "('x, 'k, 'v) cache \<Rightarrow> string list \<Rightarrow> string list result" where
  "genKeys_of c [] = Inr []"
| "genKeys_of c (tag # tags) =
     (case genKey c tag of Inl err \<Rightarrow> Inl err
      | Inr gk \<Rightarrow> (case genKeys_of c tags of Inl err \<Rightarrow> Inl err | Inr gks \<Rightarrow> Inr (gk # gks)))"

definition slotFor :: "('x, 'k, 'v) cache \<Rightarrow> 'k \<Rightarrow> slot result" where
  "slotFor c k =
     (case physicalKey c k of Inl err \<Rightarrow> Inl err
      | Inr pk \<Rightarrow>
          case ca_tagsFn c of
            None \<Rightarrow> Inr \<lparr>sl_key = key_fn c k, sl_pk = pk, sl_genKeys = []\<rparr>
          | Some tagsFn \<Rightarrow>
              let tags = remdups_adj (sort (tagsFn k)) in
              if length tags > MaxTags then Inl (Wrap ''%w: %d tags exceeds %d'' [ErrInvalidKey])
              else (case genKeys_of c tags of Inl err \<Rightarrow> Inl err
                | Inr genKeys \<Rightarrow> Inr \<lparr>sl_key = key_fn c k, sl_pk = pk, sl_genKeys = genKeys\<rparr>))"

section \<open>Writing\<close>

text \<open>The conversion \<open>time.Duration(f)\<close> truncates; out of range it has the platform's value.\<close>

definition toDuration :: "int \<Rightarrow> rat \<Rightarrow> duration" where
  "toDuration oor f =
     (let i = (if 0 \<le> f then \<lfloor>f\<rfloor> else \<lceil>f\<rceil>) in if in_int64 i then i else oor)"

definition scaled :: "int \<Rightarrow> duration \<Rightarrow> rat \<Rightarrow> duration" where
  "scaled oor d f = max (toDuration oor (fl (fl (of_int d) * f))) 1"

definition cache_write :: "('x, 'k, 'v) cache \<Rightarrow> ctx \<Rightarrow> string \<Rightarrow> entry \<Rightarrow> duration
    \<Rightarrow> ('x world, error option) state" where
  "cache_write c ctx pk entry ttl = do {
     r \<leftarrow> ext (rt_Float64 (ca_rt c));
     let scale = fl (1 - fl (ca_jitter c * r));
     let longest = scaled (rt_trunc (ca_rt c)) ttl scale;
     t \<leftarrow> now c;
     let entry = entry\<lparr>Codec := ca_codecID c, Expires := t + longest\<rparr>;
     case Encode entry of
       Inl err \<Rightarrow> State_Monad.return (Some (Wrap ''cistern: %w'' [err]))
     | Inr data \<Rightarrow> do {
         errs2 \<leftarrow> (case ca_l2 c of None \<Rightarrow> State_Monad.return []
           | Some s \<Rightarrow> do { e \<leftarrow> ext (st_Set s ctx pk data longest); State_Monad.return [e] });
         errs1 \<leftarrow> (case ca_l1 c of None \<Rightarrow> State_Monad.return []
           | Some s \<Rightarrow> do {
               e \<leftarrow> ext (st_Set s ctx pk data (scaled (rt_trunc (ca_rt c)) (min ttl (ca_l1TTL c)) scale));
               State_Monad.return [e] });
         State_Monad.return (errors_Join (errs2 @ errs1)) } }"

definition populate :: "('x, 'k, 'v) cache \<Rightarrow> ctx \<Rightarrow> slot \<Rightarrow> entry \<Rightarrow> duration
    \<Rightarrow> ('x world, unit) state" where
  "populate c ctx s entry ttl = do {
     err \<leftarrow> cache_write c ctx (sl_pk s) entry ttl;
     case err of None \<Rightarrow> State_Monad.return ()
     | Some e \<Rightarrow> onError c ctx (sl_key s) OpPopulate NoLevel e }"

definition backfill :: "('x, 'k, 'v) cache \<Rightarrow> 'x Store \<Rightarrow> ctx \<Rightarrow> slot \<Rightarrow> bytes \<Rightarrow> time
    \<Rightarrow> ('x world, unit) state" where
  "backfill c l1 ctx s data expires = do {
     t \<leftarrow> now c;
     let ttl = min (ca_l1TTL c) (sat64 (expires - t));
     if ttl \<le> 0 then State_Monad.return ()
     else do {
       err \<leftarrow> ext (st_Set l1 ctx (sl_pk s) data ttl);
       case err of None \<Rightarrow> State_Monad.return ()
       | Some e \<Rightarrow> onError c ctx (sl_key s) OpBackfill LevelL1 e } }"

section \<open>Reading\<close>

definition decode :: "('x, 'k, 'v) cache \<Rightarrow> bytes \<Rightarrow> 'v result" where
  "decode c payload =
     (case cd_Unmarshal (ca_codec c) payload of
        Inl err \<Rightarrow> Inl (Wrap ''cistern: decoding value: %w'' [err])
      | Inr v \<Rightarrow> Inr v)"

definition checked :: "('x, 'k, 'v) cache \<Rightarrow> ctx \<Rightarrow> string \<Rightarrow> Level \<Rightarrow> bytes
    \<Rightarrow> ('x world, entry option) state" where
  "checked c ctx key level data =
     (let r = (case Decode data (ca_maxValue c) of
          Inl err \<Rightarrow> Inl err
        | Inr e \<Rightarrow> if Codec e \<noteq> ca_codecID c
                  then Inl (errors_New ''cistern: entry written with codec %q, not %q'') else Inr e) in
      case r of
        Inl err \<Rightarrow> do { _ \<leftarrow> onError c ctx key OpDecode level err; State_Monad.return None }
      | Inr e \<Rightarrow> do {
          t \<leftarrow> now c;
          State_Monad.return (if \<not> t < Expires e then None else Some e) })"

definition served :: "('x, 'k, 'v) cache \<Rightarrow> ctx \<Rightarrow> string \<Rightarrow> Level \<Rightarrow> entry
    \<Rightarrow> ('x world, 'v result) state" where
  "served c ctx key level e =
     (if Absent e then do {
        _ \<leftarrow> onHit c ctx key level True;
        State_Monad.return (Inl ErrNotFound) }
      else case decode c (Payload e) of
        Inl err \<Rightarrow> do { _ \<leftarrow> onError c ctx key OpDecode level err; State_Monad.return (Inl err) }
      | Inr v \<Rightarrow> do { _ \<leftarrow> onHit c ctx key level False; State_Monad.return (Inr v) })"

text \<open>Whether a reader takes what \<open>served\<close> returned: \<open>err == nil || errors.Is(err, ErrNotFound)\<close>.\<close>

definition taken :: "'v result \<Rightarrow> bool" where
  "taken r = (case r of Inl err \<Rightarrow> errors_Is err ErrNotFound | Inr _ \<Rightarrow> True)"

text \<open>The loop of \<open>readPlain\<close> over the two levels.\<close>

fun readLevels :: "('x, 'k, 'v) cache \<Rightarrow> ctx \<Rightarrow> slot \<Rightarrow> ('x Store option \<times> Level) list
    \<Rightarrow> ('x world, 'v option result) state" where
  "readLevels c ctx s [] = do { _ \<leftarrow> onMiss c ctx (sl_key s); State_Monad.return (Inr None) }"
| "readLevels c ctx s ((None, level) # lvs) = readLevels c ctx s lvs"
| "readLevels c ctx s ((Some store, level) # lvs) = do {
     got \<leftarrow> ext (st_Get store ctx (sl_pk s));
     ce \<leftarrow> ctxErr c ctx;
     case ce of Some e \<Rightarrow> State_Monad.return (Inl e)
     | None \<Rightarrow>
         case got of
           Inl err \<Rightarrow> do { _ \<leftarrow> onError c ctx (sl_key s) OpRead level err; readLevels c ctx s lvs }
         | Inr None \<Rightarrow> readLevels c ctx s lvs
         | Inr (Some data) \<Rightarrow> do {
             e \<leftarrow> checked c ctx (sl_key s) level data;
             case e of
               None \<Rightarrow> readLevels c ctx s lvs
             | Some e \<Rightarrow> do {
                 r \<leftarrow> served c ctx (sl_key s) level e;
                 if \<not> taken r then readLevels c ctx s lvs
                 else do {
                   _ \<leftarrow> (case ca_l1 c of
                       Some l1 \<Rightarrow> if level = LevelL2 then backfill c l1 ctx s data (Expires e)
                                 else State_Monad.return ()
                     | None \<Rightarrow> State_Monad.return ());
                   State_Monad.return (map_sum id Some r) } } } }"

definition readPlain :: "('x, 'k, 'v) cache \<Rightarrow> ctx \<Rightarrow> slot \<Rightarrow> ('x world, 'v option result) state" where
  "readPlain c ctx s = readLevels c ctx s [(ca_l1 c, LevelL1), (ca_l2 c, LevelL2)]"

text \<open>The first part of \<open>readTagged\<close>: with two levels, the entry in L1.\<close>

definition readLocal :: "('x, 'k, 'v) cache \<Rightarrow> ctx \<Rightarrow> slot \<Rightarrow> ('x world, entry option result) state" where
  "readLocal c ctx s =
     (if \<not> ca_gens c then State_Monad.return (Inr None)
      else case ca_l1 c of
        None \<Rightarrow> State_Monad.return (Inl (Panic ''nil pointer dereference''))
      | Some l1 \<Rightarrow> do {
          got \<leftarrow> ext (st_Get l1 ctx (sl_pk s));
          ce \<leftarrow> ctxErr c ctx;
          case ce of Some e \<Rightarrow> State_Monad.return (Inl e)
          | None \<Rightarrow>
              case got of
                Inl err \<Rightarrow> do {
                  _ \<leftarrow> onError c ctx (sl_key s) OpRead LevelL1 err;
                  State_Monad.return (Inr None) }
              | Inr None \<Rightarrow> State_Monad.return (Inr None)
              | Inr (Some data) \<Rightarrow> do {
                  e \<leftarrow> checked c ctx (sl_key s) LevelL1 data;
                  State_Monad.return (Inr e) } })"

text \<open>An entry is served when the generations it recorded are the given ones; \<open>None\<close> says go on.\<close>

definition serveIf :: "('x, 'k, 'v) cache \<Rightarrow> ctx \<Rightarrow> slot \<Rightarrow> Level \<Rightarrow> entry option \<Rightarrow> gens
    \<Rightarrow> ('x world, 'v option result option) state" where
  "serveIf c ctx s level e gens =
     (case e of
        None \<Rightarrow> State_Monad.return None
      | Some e \<Rightarrow>
          if Gens e \<noteq> elems gens then State_Monad.return None
          else do {
            r \<leftarrow> served c ctx (sl_key s) level e;
            State_Monad.return (if taken r then Some (map_sum id Some r) else None) })"

text \<open>The calls of \<open>c.gens\<close>.\<close>

definition gens_get :: "('x, 'k, 'v) cache \<Rightarrow> slot \<Rightarrow> ('x world, u64 list option) state" where
  "gens_get c s = do {
     t \<leftarrow> now c;
     g \<leftarrow> get_gens;
     State_Monad.return (gc_get g t (sl_genKeys s)) }"

definition gens_epoch :: "slot \<Rightarrow> ('x world, genEpoch) state" where
  "gens_epoch s = do { g \<leftarrow> get_gens; State_Monad.return (gc_epoch g (sl_genKeys s)) }"

definition gens_put :: "('x, 'k, 'v) cache \<Rightarrow> slot \<Rightarrow> gens \<Rightarrow> genEpoch \<Rightarrow> ('x world, bool) state" where
  "gens_put c s current since = do {
     t \<leftarrow> now c;
     g \<leftarrow> get_gens;
     let (g, ok) = gc_put g t (sl_genKeys s) (elems current) since;
     _ \<leftarrow> put_gens g;
     State_Monad.return ok }"

definition gens_drop :: "string \<Rightarrow> ('x world, unit) state" where
  "gens_drop gk = do { g \<leftarrow> get_gens; put_gens (gc_drop g gk) }"

text \<open>The second part: what the authoritative level says.\<close>

definition readAuth :: "('x, 'k, 'v) cache \<Rightarrow> ctx \<Rightarrow> slot \<Rightarrow> entry option
    \<Rightarrow> ('x world, 'v option result \<times> gens) state" where
  "readAuth c ctx s local = do {
     let authLevel = (if ca_l2 c \<noteq> None then LevelL2 else LevelL1);
     since \<leftarrow> gens_epoch s;
     got \<leftarrow> ext (ts_GetTagged (ca_auth c) ctx (sl_pk s) (sl_genKeys s) (ca_genTTL c));
     ce \<leftarrow> ctxErr c ctx;
     case ce of Some e \<Rightarrow> State_Monad.return (Inl e, None)
     | None \<Rightarrow>
         case got of
           Inl err \<Rightarrow> do {
             _ \<leftarrow> onError c ctx (sl_key s) OpRead authLevel err;
             _ \<leftarrow> onMiss c ctx (sl_key s);
             State_Monad.return (Inr None, None) }
         | Inr (value, current) \<Rightarrow> do {
             ok \<leftarrow> (if ca_gens c then gens_put c s current since else State_Monad.return True);
             if \<not> ok then State_Monad.return (Inl (Panic ''index out of range''), None)
             else do {
               r \<leftarrow> serveIf c ctx s LevelL1 local current;
               case r of Some r \<Rightarrow> State_Monad.return (r, current)
               | None \<Rightarrow> do {
                   e \<leftarrow> (case value of None \<Rightarrow> State_Monad.return None
                     | Some data \<Rightarrow> checked c ctx (sl_key s) authLevel data);
                   r \<leftarrow> serveIf c ctx s authLevel e current;
                   case r of
                     Some r \<Rightarrow> do {
                       _ \<leftarrow> (case ca_l1 c of
                           Some l1 \<Rightarrow> if ca_gens c
                             then backfill c l1 ctx s (the value) (Expires (the e))
                             else State_Monad.return ()
                         | None \<Rightarrow> State_Monad.return ());
                       State_Monad.return (r, current) }
                   | None \<Rightarrow> do {
                       _ \<leftarrow> onMiss c ctx (sl_key s);
                       State_Monad.return (Inr None, current) } } } } }"

definition readTagged :: "('x, 'k, 'v) cache \<Rightarrow> ctx \<Rightarrow> slot
    \<Rightarrow> ('x world, 'v option result \<times> gens) state" where
  "readTagged c ctx s = do {
     loc \<leftarrow> readLocal c ctx s;
     case loc of Inl e \<Rightarrow> State_Monad.return (Inl e, None)
     | Inr local \<Rightarrow>
         if \<not> ca_gens c then readAuth c ctx s local
         else do {
           local_gens \<leftarrow> gens_get c s;
           case local_gens of
             None \<Rightarrow> readAuth c ctx s local
           | Some cached \<Rightarrow> do {
               r \<leftarrow> serveIf c ctx s LevelL1 local (Some cached);
               case r of Some r \<Rightarrow> State_Monad.return (r, Some cached)
               | None \<Rightarrow> readAuth c ctx s local } } }"

text \<open>\<open>read\<close> of \<open>cache.go\<close>.\<close>

definition cache_read :: "('x, 'k, 'v) cache \<Rightarrow> ctx \<Rightarrow> slot
    \<Rightarrow> ('x world, 'v option result \<times> gens) state" where
  "cache_read c ctx s =
     (if ca_tagsFn c \<noteq> None then readTagged c ctx s
      else do { r \<leftarrow> readPlain c ctx s; State_Monad.return (r, None) })"

section \<open>The bus\<close>

definition eventTimeout :: duration where "eventTimeout = 10 ^ 9"

definition Close :: "('x, 'k, 'v) cache \<Rightarrow> ('x world, unit) state" where
  "Close c =
     (case (ca_bus c, ca_unsubscribe c) of
        (Some b, Some n) \<Rightarrow> ext (\<lambda>x. ((), b_Unsubscribe b n x))
      | _ \<Rightarrow> State_Monad.return ())"

definition publish :: "('x, 'k, 'v) cache \<Rightarrow> ctx \<Rightarrow> Kind \<Rightarrow> string \<Rightarrow> ('x world, error option) state" where
  "publish c ctx kind name =
     (case ca_bus c of None \<Rightarrow> State_Monad.return None
      | Some b \<Rightarrow> do {
          err \<leftarrow> ext (b_Publish b ctx \<lparr>Namespace = namespace c, ev_Kind = kind, Name = name\<rparr>);
          State_Monad.return
            (map_option (\<lambda>e. Wrap ''cistern: publishing invalidation: %w'' [e]) err) })"

definition onEvent :: "('x, 'k, 'v) cache \<Rightarrow> Event \<Rightarrow> ('x world, unit) state" where
  "onEvent c e =
     (if Namespace e \<noteq> namespace c then State_Monad.return ()
      else
        let ctx = WithTimeout Background eventTimeout in
        case ev_Kind e of
          KindKey \<Rightarrow>
            (case ca_l1 c of None \<Rightarrow> State_Monad.return ()
             | Some l1 \<Rightarrow>
                 let (key, ok) = eventKey c (Name e) in
                 if \<not> ok then State_Monad.return ()
                 else do {
                   err \<leftarrow> ext (st_Delete l1 ctx (Name e));
                   case err of
                     Some er \<Rightarrow> onError c ctx key OpEvent LevelL1 er
                   | None \<Rightarrow> onInvalidate c ctx key '''' True })
        | KindTag \<Rightarrow>
            (if ca_tagsFn c = None then State_Monad.return ()
             else case genKey c (Name e) of
               Inl _ \<Rightarrow> State_Monad.return ()
             | Inr gk \<Rightarrow>
                 if ca_gens c then do {
                   _ \<leftarrow> gens_drop gk;
                   onInvalidate c ctx '''' (Name e) True }
                 else if ca_l2 c = None then do {
                   err \<leftarrow> ext (ts_Bump (ca_auth c) ctx [gk] (ca_genTTL c));
                   case err of
                     Some er \<Rightarrow> onError c ctx '''' OpEvent LevelL1 er
                   | None \<Rightarrow> onInvalidate c ctx '''' (Name e) True }
                 else onInvalidate c ctx '''' (Name e) True)
        | KindOther _ \<Rightarrow> State_Monad.return ())"

section \<open>Flights\<close>

text \<open>\<open>strconv.FormatUint(g, 10)\<close>.\<close>

fun decimal :: "nat \<Rightarrow> string" where
  "decimal n = (if n < 10 then [char_of (48 + n)] else decimal (n div 10) @ [char_of (48 + n mod 10)])"

declare decimal.simps [simp del]

definition FormatUint :: "u64 \<Rightarrow> string" where
  "FormatUint g = decimal (unat g)"

text \<open>\<open>strings.Join\<close>.\<close>

fun join :: "string \<Rightarrow> string list \<Rightarrow> string" where
  "join sep [] = ''''"
| "join sep [s] = s"
| "join sep (s # t # ss) = s @ sep @ join sep (t # ss)"

definition NUL :: char where "NUL = CHR 0x00"

definition flightKey :: "string \<Rightarrow> bool \<Rightarrow> string list \<Rightarrow> gens \<Rightarrow> string" where
  "flightKey pk tagged genKeys gens =
     (if \<not> tagged then pk
      else case gens of
        None \<Rightarrow> pk @ [NUL] @ ''?'' @ [NUL] @ join [NUL] genKeys
      | Some gs \<Rightarrow> pk @ [NUL] @ join ''.'' (map FormatUint gs))"

section \<open>Operations\<close>

definition Get :: "('x, 'k, 'v) cache \<Rightarrow> ctx \<Rightarrow> 'k \<Rightarrow> ('x world, 'v option result) state" where
  "Get c ctx k = do {
     ce \<leftarrow> ctxErr c ctx;
     case ce of Some e \<Rightarrow> State_Monad.return (Inl e)
     | None \<Rightarrow>
         case slotFor c k of Inl err \<Rightarrow> State_Monad.return (Inl err)
         | Inr s \<Rightarrow> do {
             (r, _) \<leftarrow> cache_read c ctx s;
             State_Monad.return r } }"

type_synonym ('x, 'v) Loader = "ctx \<Rightarrow> 'x \<Rightarrow> 'v result \<times> 'x"

text \<open>The function \<open>GetOrLoad\<close> gives to \<open>flights.Do\<close>.  A loader that panics returns nothing; the panic
  leaves every caller of \<open>Do\<close> that waits for it.\<close>

definition runLoad :: "('x, 'k, 'v) cache \<Rightarrow> ctx \<Rightarrow> slot \<Rightarrow> gens \<Rightarrow> bool \<Rightarrow> duration \<Rightarrow> ('x, 'v) Loader
    \<Rightarrow> ('x world, bytes result) state" where
  "runLoad c loadCtx s gens cacheable ttl load = do {
     start \<leftarrow> ext (rt_Now (ca_rt c));
     r \<leftarrow> ext (load loadCtx);
     case r of
       Inl (Panic p) \<Rightarrow> State_Monad.return (Inl (Panic p))
     | Inl err \<Rightarrow> do {
         t \<leftarrow> ext (rt_Now (ca_rt c));
         _ \<leftarrow> onLoad c loadCtx (sl_key s) (sat64 (t - start)) (Some err);
         _ \<leftarrow> (if cacheable \<and> ca_negTTL c > 0 \<and> errors_Is err ErrNotFound
           then populate c loadCtx s
             \<lparr>Absent = True, Expires = 0, Codec = '''', Gens = elems gens, Payload = []\<rparr> (ca_negTTL c)
           else State_Monad.return ());
         State_Monad.return (Inl err) }
     | Inr v \<Rightarrow> do {
         t \<leftarrow> ext (rt_Now (ca_rt c));
         _ \<leftarrow> onLoad c loadCtx (sl_key s) (sat64 (t - start)) None;
         if uncacheable (ca_type c) v
           then State_Monad.return (Inl (Wrap ''%w: the loader returned a %T'' [ErrUncacheable]))
         else case cd_Marshal (ca_codec c) v of
           Inl err \<Rightarrow> State_Monad.return (Inl (Wrap ''cistern: encoding value: %w'' [err]))
         | Inr payload \<Rightarrow> do {
             _ \<leftarrow> (if cacheable \<and> int (length payload) \<le> ca_maxValue c
               then populate c loadCtx s
                 \<lparr>Absent = False, Expires = 0, Codec = '''', Gens = elems gens, Payload = payload\<rparr> ttl
               else State_Monad.return ());
             State_Monad.return (Inr payload) } } }"

definition loadResult :: "('x, 'k, 'v) cache \<Rightarrow> bytes result \<Rightarrow> 'v result" where
  "loadResult c r = (case r of Inl err \<Rightarrow> Inl err | Inr payload \<Rightarrow> decode c payload)"

definition GetOrLoad :: "('x, 'k, 'v) cache \<Rightarrow> ctx \<Rightarrow> 'k \<Rightarrow> ('x, 'v) Loader option \<Rightarrow> EntryOption list
    \<Rightarrow> ('x world, 'v result) state" where
  "GetOrLoad c ctx k load opts = do {
     ce \<leftarrow> ctxErr c ctx;
     case ce of Some e \<Rightarrow> State_Monad.return (Inl e)
     | None \<Rightarrow>
     case load of None \<Rightarrow> State_Monad.return (Inl (Wrap ''%w: loader is nil'' [ErrInvalidConfig]))
     | Some load \<Rightarrow>
     case entryOptions (ca_ttl c) opts of Inl err \<Rightarrow> State_Monad.return (Inl err)
     | Inr e \<Rightarrow>
     case slotFor c k of Inl err \<Rightarrow> State_Monad.return (Inl err)
     | Inr s \<Rightarrow> do {
         (r, gens) \<leftarrow> cache_read c ctx s;
         case r of
           Inl err \<Rightarrow> State_Monad.return (Inl err)
         | Inr (Some v) \<Rightarrow> State_Monad.return (Inr v)
         | Inr None \<Rightarrow> do {
             let cacheable = (ca_tagsFn c = None \<or> gens \<noteq> None);
             let fn = runLoad c (WithTimeout (WithoutCancel ctx) (ca_loadTimeout c)) s gens cacheable (ec_ttl e) load;
             how \<leftarrow> ext (rt_flight (ca_rt c) ctx
               (flightKey (sl_pk s) (ca_tagsFn c \<noteq> None) (sl_genKeys s) gens) (ca_loadTimeout c));
             case how of
               Lead \<Rightarrow> do { p \<leftarrow> fn; State_Monad.return (loadResult c p) }
             | Abandon err started \<Rightarrow> do {
                 _ \<leftarrow> (if started then State_Monad.return () else onCoalesced c ctx (sl_key s));
                 _ \<leftarrow> fn;
                 State_Monad.return (Inl err) }
             | Join (Inl (Panic p)) \<Rightarrow> State_Monad.return (Inl (Panic p))
             | Join p \<Rightarrow> do {
                 _ \<leftarrow> onCoalesced c ctx (sl_key s);
                 State_Monad.return (loadResult c p) } } } }"

definition cache_Set :: "('x, 'k, 'v) cache \<Rightarrow> ctx \<Rightarrow> 'k \<Rightarrow> 'v \<Rightarrow> EntryOption list
    \<Rightarrow> ('x world, error option) state" where
  "cache_Set c ctx k v opts = do {
     ce \<leftarrow> ctxErr c ctx;
     case ce of Some e \<Rightarrow> State_Monad.return (Some e)
     | None \<Rightarrow>
     case entryOptions (ca_ttl c) opts of Inl err \<Rightarrow> State_Monad.return (Some err)
     | Inr e \<Rightarrow>
     case slotFor c k of Inl err \<Rightarrow> State_Monad.return (Some err)
     | Inr s \<Rightarrow>
     if uncacheable (ca_type c) v then State_Monad.return (Some (Wrap ''%w: %T'' [ErrUncacheable]))
     else case cd_Marshal (ca_codec c) v of
       Inl err \<Rightarrow> State_Monad.return (Some (Wrap ''cistern: encoding value: %w'' [err]))
     | Inr payload \<Rightarrow>
     if int (length payload) > ca_maxValue c
       then State_Monad.return (Some (Wrap ''%w: %d bytes encoded, limit %d'' [ErrValueTooLarge]))
     else do {
       gens \<leftarrow> (if ca_tagsFn c = None then State_Monad.return (Inr None)
         else do {
           got \<leftarrow> ext (ts_GetTagged (ca_auth c) ctx (sl_pk s) (sl_genKeys s) (ca_genTTL c));
           State_Monad.return (map_sum id snd got) });
       case gens of
         Inl err \<Rightarrow> State_Monad.return (Some (Wrap ''cistern: reading tag generations: %w'' [err]))
       | Inr gens \<Rightarrow> cache_write c ctx (sl_pk s)
           \<lparr>Absent = False, Expires = 0, Codec = '''', Gens = elems gens, Payload = payload\<rparr> (ec_ttl e) } }"

definition cache_Delete :: "('x, 'k, 'v) cache \<Rightarrow> ctx \<Rightarrow> 'k \<Rightarrow> ('x world, error option) state" where
  "cache_Delete c ctx k = do {
     ce \<leftarrow> ctxErr c ctx;
     case ce of Some e \<Rightarrow> State_Monad.return (Some e)
     | None \<Rightarrow>
     case slotFor c k of Inl err \<Rightarrow> State_Monad.return (Some err)
     | Inr s \<Rightarrow> do {
         e1 \<leftarrow> (case ca_l1 c of None \<Rightarrow> State_Monad.return None
           | Some l1 \<Rightarrow> ext (st_Delete l1 ctx (sl_pk s)));
         e2 \<leftarrow> (case ca_l2 c of None \<Rightarrow> State_Monad.return None
           | Some l2 \<Rightarrow> ext (st_Delete l2 ctx (sl_pk s)));
         e3 \<leftarrow> publish c ctx KindKey (sl_pk s);
         let err = errors_Join [e1, e2, e3];
         _ \<leftarrow> (if err = None then onInvalidate c ctx (sl_key s) '''' False else State_Monad.return ());
         State_Monad.return err } }"

definition InvalidateTag :: "('x, 'k, 'v) cache \<Rightarrow> ctx \<Rightarrow> string \<Rightarrow> ('x world, error option) state" where
  "InvalidateTag c ctx tag = do {
     ce \<leftarrow> ctxErr c ctx;
     case ce of Some e \<Rightarrow> State_Monad.return (Some e)
     | None \<Rightarrow>
     if ca_tagsFn c = None
       then State_Monad.return (Some (Wrap ''%w: InvalidateTag on a cache built without WithTags'' [ErrInvalidConfig]))
     else case genKey c tag of Inl err \<Rightarrow> State_Monad.return (Some err)
     | Inr gk \<Rightarrow> do {
         bumpErr \<leftarrow> ext (ts_Bump (ca_auth c) ctx [gk] (ca_genTTL c));
         _ \<leftarrow> (if ca_gens c then gens_drop gk else State_Monad.return ());
         let bumpErr = map_option (\<lambda>e. Wrap ''cistern: invalidating tag: %w'' [e]) bumpErr;
         pubErr \<leftarrow> publish c ctx KindTag tag;
         let err = errors_Join [bumpErr, pubErr];
         _ \<leftarrow> (if err = None then onInvalidate c ctx '''' tag False else State_Monad.return ());
         State_Monad.return err } }"

end
