(* ===== verification/StoreLaws.thy ===== *)
theory StoreLaws
  imports MemorySpec Cache
begin

text \<open>
  The contracts of \<open>store.go\<close> and \<open>tagstore.go\<close> as locales, and the in-process store as their provider.
  \<open>store_laws\<close> speaks of \<open>may x k\<close>, the value a \<open>Get\<close> of \<open>k\<close> could still return in state \<open>x\<close>: a store may
  forget (expiry, eviction), so a \<open>Get\<close> is never promised a hit, but what it returns is what was
  last set and not deleted since.
\<close>

section \<open>The contract of a Store\<close>

locale store_laws =
  fixes S :: "'x Store" and ok :: "'x \<Rightarrow> bool" and may :: "'x \<Rightarrow> string \<Rightarrow> bytes option"
  assumes get_ok: "ok x \<Longrightarrow> ok (snd (st_Get S ctx k x))"
    and set_ok: "ok x \<Longrightarrow> ok (snd (st_Set S ctx k v ttl x))"
    and del_ok: "ok x \<Longrightarrow> ok (snd (st_Delete S ctx k x))"
    and get_may: "ok x \<Longrightarrow> fst (st_Get S ctx k x) = Inr (Some v) \<Longrightarrow> may x k = Some v"
    and get_keeps: "ok x \<Longrightarrow> may (snd (st_Get S ctx k x)) j = Some u \<Longrightarrow> may x j = Some u"
    and set_other: "ok x \<Longrightarrow> j \<noteq> k \<Longrightarrow> may (snd (st_Set S ctx k v ttl x)) j = Some u \<Longrightarrow> may x j = Some u"
    and set_fail: "ok x \<Longrightarrow> may (snd (st_Set S ctx k v ttl x)) k = Some u \<Longrightarrow> u = v \<or> may x k = Some u"
    and set_done: "ok x \<Longrightarrow> fst (st_Set S ctx k v ttl x) = None \<Longrightarrow>
      may (snd (st_Set S ctx k v ttl x)) k = Some u \<Longrightarrow> u = v"
    and del_keeps: "ok x \<Longrightarrow> may (snd (st_Delete S ctx k x)) j = Some u \<Longrightarrow> may x j = Some u"
    and del_done: "ok x \<Longrightarrow> fst (st_Delete S ctx k x) = None \<Longrightarrow> may (snd (st_Delete S ctx k x)) k = None"
begin

text \<open>All that a key can give, as a bound that its reads keep, a write moves and a deletion empties.\<close>

definition confined :: "string \<Rightarrow> bytes set \<Rightarrow> 'x \<Rightarrow> bool" where
  "confined k D x \<longleftrightarrow> ok x \<and> (\<forall>u. may x k = Some u \<longrightarrow> u \<in> D)"

lemma confined_get: "confined k D x \<Longrightarrow> confined k D (snd (st_Get S ctx j x))"
  by (auto simp: confined_def get_ok dest: get_keeps)

lemma confined_hit: "confined k D x \<Longrightarrow> fst (st_Get S ctx k x) = Inr (Some v) \<Longrightarrow> v \<in> D"
  by (auto simp: confined_def dest: get_may)

lemma confined_set: "confined k D x \<Longrightarrow> v \<in> D \<Longrightarrow> confined k D (snd (st_Set S ctx k v ttl x))"
  by (auto simp: confined_def set_ok dest: set_fail)

lemma confined_set_other: "confined k D x \<Longrightarrow> j \<noteq> k \<Longrightarrow> confined k D (snd (st_Set S ctx j v ttl x))"
  using set_other [of x k j] by (auto simp: confined_def set_ok)

lemma confined_written: "ok x \<Longrightarrow> fst (st_Set S ctx k v ttl x) = None \<Longrightarrow> confined k {v} (snd (st_Set S ctx k v ttl x))"
  by (auto simp: confined_def set_ok dest: set_done)

lemma confined_delete: "confined k D x \<Longrightarrow> confined k D (snd (st_Delete S ctx j x))"
  by (auto simp: confined_def del_ok dest: del_keeps)

lemma confined_deleted: "ok x \<Longrightarrow> fst (st_Delete S ctx k x) = None \<Longrightarrow> confined k {} (snd (st_Delete S ctx k x))"
  by (auto simp: confined_def del_ok del_done)

end

section \<open>The in-process store as a Store\<close>

text \<open>A method that panics is \<open>None\<close> in \<open>Memory\<close>; no state of a built store does.\<close>

definition go :: "('a \<times> 'x) option \<Rightarrow> 'a \<Rightarrow> 'x \<Rightarrow> 'a \<times> 'x" where
  "go m p x = (case m of None \<Rightarrow> (p, x) | Some r \<Rightarrow> r)"

definition nil_panic :: error where "nil_panic = Panic ''nil pointer dereference''"

definition mem_TagStore :: "(ctx \<Rightarrow> error option) \<Rightarrow> store TagStore" where
  "mem_TagStore ce = \<lparr>
     ts_GetTagged = (\<lambda>ctx k gks ttl s. apfst (map_sum id (apsnd Some))
       (go (mem_GetTagged (ce ctx) k gks ttl s) (Inl nil_panic) s)),
     ts_Bump = (\<lambda>ctx gks ttl s. go (mem_Bump (ce ctx) gks ttl s) (Some nil_panic) s)\<rparr>"

definition mem_Store :: "(ctx \<Rightarrow> error option) \<Rightarrow> store Store" where
  "mem_Store ce = \<lparr>
     st_Get = (\<lambda>ctx k s. go (mem_Get (ce ctx) k s) (Inl nil_panic) s),
     st_Set = (\<lambda>ctx k v ttl s. go (mem_Set (ce ctx) k v ttl s) (Some nil_panic) s),
     st_Delete = (\<lambda>ctx k s. go (mem_Delete (ce ctx) k s) (Some nil_panic) s),
     st_tags = Some (mem_TagStore ce)\<rparr>"

definition mem_ok :: "store \<Rightarrow> bool" where
  "mem_ok s \<longleftrightarrow> (\<exists>l. rel s l)"

definition mem_may :: "store \<Rightarrow> string \<Rightarrow> bytes option" where
  "mem_may s k = map_option fst (map_of (mem_list s) k)"

lemma mem_may_rel: "rel s l \<Longrightarrow> mem_may s k = map_option fst (map_of (l_es l) k)"
  by (simp add: mem_may_def mem_list_rel)

lemma sim_go: "sim m p \<Longrightarrow> fst (go m q s) = fst p \<and> rel (snd (go m q s)) (snd p)"
  by (auto simp: sim_def go_def)

lemmas mem_Get_go = sim_go [OF mem_Get_sim]
lemmas mem_Set_go = sim_go [OF mem_Set_sim]
lemmas mem_Delete_go = sim_go [OF mem_Delete_sim]

definition lru_may :: "lru \<Rightarrow> string \<Rightarrow> bytes option" where
  "lru_may l k = map_option fst (map_of (l_es l) k)"

lemma lru_may_report [simp]: "lru_may (lru_report l) = lru_may l" "lru_may (snd (lru_now l)) = lru_may l"
  by (simp_all add: lru_may_def lru_report_def lru_now_def fun_eq_iff)

lemma lru_may_get: "lru_may (snd (lru_get k l)) j = Some u \<Longrightarrow> lru_may l j = Some u"
  by (auto simp: lru_may_def lru_get_def lru_now_def split: option.splits if_splits)

lemma map_of_trim: "map_of (trim mE mB sz es) j = Some u \<Longrightarrow> map_of es j = Some u"
proof -
  obtain n where "trim mE mB sz es = take n es" using trim_prefix by blast
  moreover have "map_of es j = Some u" if "map_of (take n es) j = Some u"
    using that map_of_append [of "take n es" "drop n es"] by (simp add: map_add_def)
  ultimately show "map_of (trim mE mB sz es) j = Some u \<Longrightarrow> map_of es j = Some u" by simp
qed

lemma lru_may_put:
  "lru_may (lru_put (k, v, x) l) j = Some u \<Longrightarrow> if j = k then u = v else lru_may l j = Some u"
  by (auto simp: lru_may_def lru_put_def Let_def dest!: map_of_trim split: if_splits)

lemma lru_Get_may: "lru_may (snd (lru_Get e k l)) j = Some u \<Longrightarrow> lru_may l j = Some u"
  by (cases e) (auto simp: lru_Get_def split_beta dest: lru_may_get)

lemma lru_Get_hit: "fst (lru_Get e k l) = Inr (Some v) \<Longrightarrow> lru_may l k = Some v"
  by (cases e) (auto simp: lru_Get_def lru_get_def lru_may_def split_beta split: option.splits if_splits)

lemma lru_Set_may:
  "lru_may (snd (lru_Set e k v ttl l)) j = Some u \<Longrightarrow>
   (j = k \<and> u = v) \<or> lru_may l j = Some u \<and> (j = k \<longrightarrow> fst (lru_Set e k v ttl l) \<noteq> None)"
  by (cases e) (auto simp: lru_Set_def split_beta split: if_splits dest!: lru_may_put)

lemma lru_Delete_may:
  "lru_may (snd (lru_Delete e k l)) j = Some u \<Longrightarrow>
   lru_may l j = Some u \<and> (j = k \<longrightarrow> fst (lru_Delete e k l) \<noteq> None)"
  by (cases e) (auto simp: lru_Delete_def lru_may_def split: if_splits)

lemma mem_may_lru: "rel s l \<Longrightarrow> mem_may s = lru_may l"
  by (simp add: mem_may_rel lru_may_def fun_eq_iff)

text \<open>The in-process store keeps the contract, in every state a sequence of calls can reach.\<close>

interpretation mem: store_laws "mem_Store ce" mem_ok mem_may for ce
proof unfold_locales
  fix x :: store assume "mem_ok x"
  then obtain l where R: "rel x l" by (auto simp: mem_ok_def)
  note g = mem_Get_go [OF R] and s = mem_Set_go [OF R] and d = mem_Delete_go [OF R]
  note may = mem_may_lru [OF R] mem_may_lru [OF conjunct2 [OF g]] mem_may_lru [OF conjunct2 [OF s]]
    mem_may_lru [OF conjunct2 [OF d]]
  fix ctx k j v u ttl
  have st: "st_Get (mem_Store ce) ctx k x = go (mem_Get (ce ctx) k x) (Inl nil_panic) x"
    "st_Set (mem_Store ce) ctx k v ttl x = go (mem_Set (ce ctx) k v ttl x) (Some nil_panic) x"
    "st_Delete (mem_Store ce) ctx k x = go (mem_Delete (ce ctx) k x) (Some nil_panic) x"
    by (simp_all add: mem_Store_def)
  note gm = lru_Get_may [of "ce ctx" k l] and sm = lru_Set_may [of "ce ctx" k v ttl l]
    and dm = lru_Delete_may [of "ce ctx" k l]
  show "mem_ok (snd (st_Get (mem_Store ce) ctx k x))" unfolding st mem_ok_def using g by blast
  show "mem_ok (snd (st_Set (mem_Store ce) ctx k v ttl x))" unfolding st mem_ok_def using s by blast
  show "mem_ok (snd (st_Delete (mem_Store ce) ctx k x))" unfolding st mem_ok_def using d by blast
  show "mem_may x k = Some v" if "fst (st_Get (mem_Store ce) ctx k x) = Inr (Some v)"
    using that lru_Get_hit [of "ce ctx" k l v] unfolding st may using g by simp
  show "mem_may x j = Some u" if "mem_may (snd (st_Get (mem_Store ce) ctx k x)) j = Some u"
    using that gm [of j u] unfolding st may by simp
  show "mem_may x j = Some u" if "j \<noteq> k" "mem_may (snd (st_Set (mem_Store ce) ctx k v ttl x)) j = Some u"
    using that sm [of j u] unfolding st may by simp
  show "u = v \<or> mem_may x k = Some u" if "mem_may (snd (st_Set (mem_Store ce) ctx k v ttl x)) k = Some u"
    using that sm [of k u] unfolding st may by auto
  show "u = v" if "fst (st_Set (mem_Store ce) ctx k v ttl x) = None"
    "mem_may (snd (st_Set (mem_Store ce) ctx k v ttl x)) k = Some u"
    using that sm [of k u] unfolding st may using s by simp
  show "mem_may x j = Some u" if "mem_may (snd (st_Delete (mem_Store ce) ctx k x)) j = Some u"
    using that dm [of j u] unfolding st may by simp
  show "mem_may (snd (st_Delete (mem_Store ce) ctx k x)) k = None"
    if "fst (st_Delete (mem_Store ce) ctx k x) = None"
  proof (rule ccontr)
    assume "mem_may (snd (st_Delete (mem_Store ce) ctx k x)) k \<noteq> None"
    then obtain u where "lru_may (snd (lru_Delete (ce ctx) k l)) k = Some u" unfolding st may by auto
    then show False using dm [of k u] that d unfolding st by auto
  qed
qed

end
