(* ===== verification/BusWire.thy ===== *)
theory BusWire
  imports Bus
begin

text \<open>
  The network form of a bus event: \<open>Encode\<close> and \<open>Decode\<close> of \<open>bus/bus.go\<close>, with the part of
  \<open>encoding/json\<close> they use written out: how \<open>json.Marshal\<close> writes a string (escaping \<open><\<close>, \<open>>\<close>, \<open>&\<close> and the
  two line separators as well), and what a \<open>json.Decoder\<close> with \<open>DisallowUnknownFields\<close> accepts for the
  struct \<open>wire\<close>.  Text is a list of bytes as numbers.  The ways to reject a message are not told apart
  further than \<open>Decode\<close> does: every one of them is \<open>ErrMalformed\<close>.
\<close>

section \<open>UTF-8, written\<close>

type_synonym codes = "nat list"

definition ascii :: "string \<Rightarrow> codes" where
  "ascii s = map of_char s"

definition unascii :: "codes \<Rightarrow> string" where
  "unascii bs = map char_of bs"

text \<open>\<open>utf8.AppendRune\<close>\<close>

definition encodeRune :: "nat \<Rightarrow> codes" where
  "encodeRune r =
     (if r < 0x80 then [r]
      else if r < 0x800 then [0xC0 + r div 64, 0x80 + r mod 64]
      else if r < 0x10000 then [0xE0 + r div 4096, 0x80 + r div 64 mod 64, 0x80 + r mod 64]
      else [0xF0 + r div 262144, 0x80 + r div 4096 mod 64, 0x80 + r div 64 mod 64, 0x80 + r mod 64])"

definition RuneError :: nat where "RuneError = 0xFFFD"

section \<open>JSON strings, written\<close>

definition hexd :: "nat \<Rightarrow> nat" where
  "hexd n = (if n < 10 then 0x30 + n else 0x57 + n)"

text \<open>\<open>htmlSafeSet\<close> of \<open>encoding/json\<close>, and the escapes of the other ASCII bytes.\<close>

definition html_safe :: "nat \<Rightarrow> bool" where
  "html_safe b \<longleftrightarrow> 0x20 \<le> b \<and> b \<noteq> 0x22 \<and> b \<noteq> 0x5C \<and> b \<noteq> 0x3C \<and> b \<noteq> 0x3E \<and> b \<noteq> 0x26"

definition escape_ascii :: "nat \<Rightarrow> codes" where
  "escape_ascii b =
     (if html_safe b then [b]
      else if b = 0x5C \<or> b = 0x22 then [0x5C, b]
      else if b = 0x08 then [0x5C, 0x62]
      else if b = 0x0C then [0x5C, 0x66]
      else if b = 0x0A then [0x5C, 0x6E]
      else if b = 0x0D then [0x5C, 0x72]
      else if b = 0x09 then [0x5C, 0x74]
      else [0x5C, 0x75, 0x30, 0x30, hexd (b div 16), hexd (b mod 16)])"

function json_escape :: "codes \<Rightarrow> codes" where
  "json_escape bs =
     (case bs of [] \<Rightarrow> []
      | b # r \<Rightarrow>
          if b < 0x80 then escape_ascii b @ json_escape r
          else case decodeRune bs of
            None \<Rightarrow> [0x5C, 0x75, 0x66, 0x66, 0x66, 0x64] @ json_escape r
          | Some (c, rest) \<Rightarrow>
              (if c = 0x2028 \<or> c = 0x2029 then [0x5C, 0x75, 0x32, 0x30, 0x32, hexd (c mod 16)]
               else take (length bs - length rest) bs) @ json_escape rest)"
  by pat_completeness auto
termination
  by (relation "measure length") (auto simp del: decodeRune.simps dest: decodeRune_shorter)

declare json_escape.simps [simp del]

definition json_string :: "codes \<Rightarrow> codes" where
  "json_string s = 0x22 # json_escape s @ [0x22]"

section \<open>JSON strings, read\<close>

definition hexval :: "nat \<Rightarrow> nat option" where
  "hexval b =
     (if 0x30 \<le> b \<and> b \<le> 0x39 then Some (b - 0x30)
      else if 0x61 \<le> b \<and> b \<le> 0x66 then Some (b - 0x57)
      else if 0x41 \<le> b \<and> b \<le> 0x46 then Some (b - 0x37)
      else None)"

text \<open>\<open>getu4\<close>, after the \<open>u\<close>: the code unit and the text after it.\<close>

fun getu4 :: "codes \<Rightarrow> (nat \<times> codes) option" where
  "getu4 (a # b # c # d # s) =
     (case (hexval a, hexval b, hexval c, hexval d) of
        (Some a, Some b, Some c, Some d) \<Rightarrow> Some (((a * 16 + b) * 16 + c) * 16 + d, s)
      | _ \<Rightarrow> None)"
| "getu4 _ = None"

lemma getu4_shorter: "getu4 s = Some (r, t) \<Longrightarrow> length t < length s"
  by (induction s rule: getu4.induct) (auto split: option.splits)

definition is_surrogate :: "nat \<Rightarrow> bool" where
  "is_surrogate r \<longleftrightarrow> 0xD800 \<le> r \<and> r < 0xE000"

text \<open>A code unit and, when it is the first half of a surrogate pair, the escape after it.\<close>

definition unit_rune :: "nat \<Rightarrow> codes \<Rightarrow> nat \<times> codes" where
  "unit_rune r s =
     (if \<not> is_surrogate r then (r, s)
      else case s of
        x # y # t \<Rightarrow>
          if x = 0x5C \<and> y = 0x75 then
            (case getu4 t of
               Some (r', t') \<Rightarrow>
                 if r < 0xDC00 \<and> 0xDC00 \<le> r' \<and> r' < 0xE000
                 then (0x10000 + (r - 0xD800) * 1024 + (r' - 0xDC00), t') else (RuneError, s)
             | None \<Rightarrow> (RuneError, s))
          else (RuneError, s)
      | _ \<Rightarrow> (RuneError, s))"

lemma unit_rune_shorter: "length (snd (unit_rune r s)) \<le> length s"
  by (auto simp: unit_rune_def split: list.split option.split dest: getu4_shorter)

definition simple_escape :: "nat \<Rightarrow> nat option" where
  "simple_escape b =
     (if b = 0x22 \<or> b = 0x5C \<or> b = 0x2F then Some b
      else if b = 0x62 then Some 0x08
      else if b = 0x66 then Some 0x0C
      else if b = 0x6E then Some 0x0A
      else if b = 0x72 then Some 0x0D
      else if b = 0x74 then Some 0x09
      else None)"

text \<open>The rest of a string after its opening quote: what it says, and the text after the closing quote.
  A byte that is not valid UTF-8 reads as \<open>RuneError\<close>.\<close>

function parse_string :: "codes \<Rightarrow> (codes \<times> codes) option" where
  "parse_string [] = None"
| "parse_string (b # s) =
     (if b = 0x22 then Some ([], s)
      else if b = 0x5C then
        (case s of
           [] \<Rightarrow> None
         | e # t \<Rightarrow>
             if e = 0x75 then
               (case getu4 t of
                  None \<Rightarrow> None
                | Some (r, u) \<Rightarrow>
                    map_option (apfst (append (encodeRune (fst (unit_rune r u))))) (parse_string (snd (unit_rune r u))))
             else
               (case simple_escape e of
                  None \<Rightarrow> None
                | Some ch \<Rightarrow> map_option (apfst (append [ch])) (parse_string t)))
      else if b < 0x20 then None
      else if b < 0x80 then map_option (apfst (append [b])) (parse_string s)
      else
        (case decodeRune (b # s) of
           None \<Rightarrow> map_option (apfst (append (encodeRune RuneError))) (parse_string s)
         | Some (r, rest) \<Rightarrow> map_option (apfst (append (encodeRune r))) (parse_string rest)))"
  by pat_completeness auto
termination
proof (relation "measure length")
  fix b :: nat and s t u :: codes and e r :: nat and p
  assume "s = e # t" "getu4 t = Some p" "(r, u) = p"
  then show "(snd (unit_rune r u), b # s) \<in> measure length"
    using getu4_shorter [of t r u] unit_rune_shorter [of r u] by auto
qed (auto simp del: decodeRune.simps dest: decodeRune_shorter)

declare parse_string.simps [simp del]

lemma parse_string_shorter: "parse_string s = Some (v, t) \<Longrightarrow> length t < length s"
proof (induction s arbitrary: v rule: parse_string.induct)
  case (2 b s)
  have le: "length t < length (b # s)" if "map_option (apfst f) (parse_string u) = Some (v, t)"
    "\<And>v. parse_string u = Some (v, t) \<Longrightarrow> length t < length u" "length u \<le> length (b # s)" for f u
    using that by (fastforce simp: apfst_def map_prod_def split: prod.splits)
  note eq = "2.prems" [unfolded parse_string.simps(2)]
  consider "b = 0x22" | "b = 0x5C" | "b \<noteq> 0x22" "b \<noteq> 0x5C" "b < 0x20" | "b \<noteq> 0x22" "b \<noteq> 0x5C" "\<not> b < 0x20" "b < 0x80"
    | "b \<noteq> 0x22" "b \<noteq> 0x5C" "\<not> b < 0x20" "\<not> b < 0x80" by blast
  then show ?case
  proof cases
    case 2
    then obtain e u where s: "s = e # u" using eq by (cases s) auto
    show ?thesis
    proof (cases "e = 0x75")
      case True
      then obtain r x where g: "getu4 u = Some (r, x)" using eq 2 s by (auto split: option.splits)
      let ?u = "snd (unit_rune r x)"
      have "length ?u \<le> length (b # s)" using getu4_shorter [OF g] unit_rune_shorter [of r x] s by simp
      then show ?thesis using le "2.IH"(1) [OF _ 2 s True g refl] eq 2 s True g by auto
    next
      case False
      then show ?thesis using le [of _ u] "2.IH"(2) [OF _ 2 s False] eq 2 s by (auto split: option.splits)
    qed
  next
    case 4
    then show ?thesis using le [of _ s] "2.IH"(3) eq by auto
  next
    case 5
    then show ?thesis using le [of _ s] le [of _ "snd (the (decodeRune (b # s)))"] "2.IH"(4,5) eq
        decodeRune_shorter [of "b # s"]
      by (cases "decodeRune (b # s)") (auto simp del: decodeRune.simps simp: less_imp_le)
  qed (use eq in auto)
qed (simp add: parse_string.simps)

section \<open>The wire struct\<close>

record wire =
  w_V :: int
  w_K :: codes
  w_NS :: codes
  w_N :: codes

definition zero_wire :: wire where
  "zero_wire = \<lparr>w_V = 0, w_K = [], w_NS = [], w_N = []\<rparr>"

text \<open>White space, digits, and an integer that fits an \<open>int\<close>.  A fraction or an exponent is left
  unread, where no object goes on: \<open>encoding/json\<close> refuses both for an \<open>int\<close>, and so does the caller.\<close>

definition skip_ws :: "codes \<Rightarrow> codes" where
  "skip_ws s = dropWhile (\<lambda>b. b = 0x20 \<or> b = 0x09 \<or> b = 0x0A \<or> b = 0x0D) s"

definition is_digit :: "nat \<Rightarrow> bool" where
  "is_digit b \<longleftrightarrow> 0x30 \<le> b \<and> b \<le> 0x39"

definition parse_nat :: "codes \<Rightarrow> (int \<times> codes) option" where
  "parse_nat s =
     (case s of [] \<Rightarrow> None
      | b # t \<Rightarrow>
          if b = 0x30 then Some (0, t)
          else if is_digit b
            then Some (foldl (\<lambda>n d. 10 * n + (int d - 0x30)) 0 (takeWhile is_digit s), dropWhile is_digit s)
          else None)"

definition parse_int :: "codes \<Rightarrow> (int \<times> codes) option" where
  "parse_int s =
     (case (case s of b # t \<Rightarrow> if b = 0x2D then map_option (apfst uminus) (parse_nat t) else parse_nat s
            | [] \<Rightarrow> None) of
        Some (n, t) \<Rightarrow> if in_int64 n then Some (n, t) else None
      | None \<Rightarrow> None)"

definition json_null :: codes where "json_null = ascii ''null''"

definition parse_null :: "codes \<Rightarrow> codes option" where
  "parse_null s = (if take 4 s = json_null then Some (drop 4 s) else None)"

text \<open>A string value; \<open>null\<close> leaves the field as it is.\<close>

definition parse_text :: "codes \<Rightarrow> codes \<Rightarrow> (codes \<times> codes) option" where
  "parse_text old s =
     (case parse_null s of Some t \<Rightarrow> Some (old, t)
      | None \<Rightarrow> (case s of b # t \<Rightarrow> if b = 0x22 then parse_string t else None | [] \<Rightarrow> None))"

text \<open>Field names match without regard to case; two other runes fold to the letters of a field name, the
  long s and the Kelvin sign.\<close>

fun fold_name :: "codes \<Rightarrow> codes" where
  "fold_name (a # b # c # s) =
     (if a = 0xE2 \<and> b = 0x84 \<and> c = 0xAA then 0x4B # fold_name s
      else if a = 0xC5 \<and> b = 0xBF then 0x53 # fold_name (c # s)
      else (if 0x61 \<le> a \<and> a \<le> 0x7A then a - 0x20 else a) # fold_name (b # c # s))"
| "fold_name [a, b] =
     (if a = 0xC5 \<and> b = 0xBF then [0x53]
      else (if 0x61 \<le> a \<and> a \<le> 0x7A then a - 0x20 else a) # fold_name [b])"
| "fold_name [a] = [if 0x61 \<le> a \<and> a \<le> 0x7A then a - 0x20 else a]"
| "fold_name [] = []"

text \<open>The value of the member \<open>key\<close>, into its field; an unknown key is refused.\<close>

definition parse_field :: "codes \<Rightarrow> wire \<Rightarrow> codes \<Rightarrow> (wire \<times> codes) option" where
  "parse_field key w s =
     (let name = fold_name key in
      if name = ascii ''V'' then
        (case parse_null s of Some t \<Rightarrow> Some (w, t)
         | None \<Rightarrow> map_option (apfst (\<lambda>n. w\<lparr>w_V := n\<rparr>)) (parse_int s))
      else if name = ascii ''K'' then map_option (apfst (\<lambda>v. w\<lparr>w_K := v\<rparr>)) (parse_text (w_K w) s)
      else if name = ascii ''NS'' then map_option (apfst (\<lambda>v. w\<lparr>w_NS := v\<rparr>)) (parse_text (w_NS w) s)
      else if name = ascii ''N'' then map_option (apfst (\<lambda>v. w\<lparr>w_N := v\<rparr>)) (parse_text (w_N w) s)
      else None)"

text \<open>One member, from its name to the text after its value.\<close>

definition parse_member :: "wire \<Rightarrow> codes \<Rightarrow> (wire \<times> codes) option" where
  "parse_member w s =
     (case s of [] \<Rightarrow> None
      | b # s \<Rightarrow>
          if b \<noteq> 0x22 then None
          else case parse_string s of None \<Rightarrow> None
          | Some (key, s) \<Rightarrow>
              (case skip_ws s of [] \<Rightarrow> None
               | b # s \<Rightarrow> if b \<noteq> 0x3A then None else parse_field key w (skip_ws s)))"

lemma skip_ws_shorter: "length (skip_ws s) \<le> length s"
  by (simp add: skip_ws_def length_dropWhile_le)

lemma parse_int_shorter: "parse_int s = Some (n, t) \<Longrightarrow> length t \<le> length s"
  using length_dropWhile_le [of is_digit s] length_dropWhile_le [of is_digit "tl s"]
  by (auto simp: parse_int_def parse_nat_def apfst_def map_prod_def
      split: list.splits if_splits option.splits simp del: dropWhile.simps)

lemma parse_field_shorter: "parse_field key w s = Some (w', t) \<Longrightarrow> length t \<le> length s"
  using parse_int_shorter [of s]
  by (auto simp: parse_field_def parse_text_def parse_null_def Let_def dest: parse_string_shorter
      split: if_splits option.splits list.splits)

lemma parse_member_shorter: "parse_member w s = Some (w', t) \<Longrightarrow> length t < length s"
proof -
  assume m: "parse_member w s = Some (w', t)"
  then obtain s1 key s2 s3 where s: "s = 0x22 # s1" "parse_string s1 = Some (key, s2)" "skip_ws s2 = 0x3A # s3"
    "parse_field key w (skip_ws s3) = Some (w', t)"
    by (auto simp: parse_member_def split: list.splits if_splits option.splits)
  then show ?thesis
    using parse_string_shorter [OF s(2)] skip_ws_shorter [of s2] skip_ws_shorter [of s3] parse_field_shorter [OF s(4)]
    by simp
qed

text \<open>The members of an object, up to its closing brace.\<close>

function parse_members :: "wire \<Rightarrow> codes \<Rightarrow> (wire \<times> codes) option" where
  "parse_members w s =
     (case parse_member w s of None \<Rightarrow> None
      | Some (w, t) \<Rightarrow>
          (case skip_ws t of [] \<Rightarrow> None
           | b # u \<Rightarrow>
               if b = 0x7D then Some (w, u)
               else if b = 0x2C then parse_members w (skip_ws u)
               else None))"
  by pat_completeness auto
termination
proof (relation "measure (length \<circ> snd)")
  fix w s w' t p b u
  assume "parse_member w s = Some p" "(w', t) = p" "skip_ws t = b # u"
  then show "((w', skip_ws u), w, s) \<in> measure (length \<circ> snd)"
    using parse_member_shorter [of w s w' t] skip_ws_shorter [of t] skip_ws_shorter [of u] by auto
qed simp

declare parse_members.simps [simp del]

text \<open>\<open>dec.Decode(&w)\<close>: the struct and the text after its value.\<close>

definition parse_wire :: "codes \<Rightarrow> (wire \<times> codes) option" where
  "parse_wire s =
     (case parse_null (skip_ws s) of Some t \<Rightarrow> Some (zero_wire, t)
      | None \<Rightarrow>
          (case skip_ws s of [] \<Rightarrow> None
           | b # t \<Rightarrow>
               if b \<noteq> 0x7B then None
               else case skip_ws t of [] \<Rightarrow> None
               | b # u \<Rightarrow> if b = 0x7D then Some (zero_wire, u) else parse_members zero_wire (skip_ws t)))"

section \<open>Encode and Decode\<close>

definition member :: "string \<Rightarrow> codes \<Rightarrow> codes" where
  "member name v = json_string (ascii name) @ 0x3A # v"

definition write_wire :: "string \<Rightarrow> string \<Rightarrow> string \<Rightarrow> codes" where
  "write_wire k ns n = 0x7B # member ''v'' [0x31] @ 0x2C # member ''k'' (json_string (ascii k))
     @ 0x2C # member ''ns'' (json_string (ascii ns)) @ 0x2C # member ''n'' (json_string (ascii n)) @ [0x7D]"

definition bus_Encode :: "Event \<Rightarrow> bytes result" where
  "bus_Encode e =
     (case bus_check e of Some err \<Rightarrow> Inl (Wrap ''bus: cannot encode: %w'' [err])
      | None \<Rightarrow> Inr (map word_of_nat (write_wire (the (kindNames (ev_Kind e))) (Namespace e) (Name e))))"

definition bus_malformed :: "string \<Rightarrow> Event result" where
  "bus_malformed msg = Inl (Wrap (''%w: '' @ msg) [bus_ErrMalformed])"

definition bus_Decode :: "bytes \<Rightarrow> Event result" where
  "bus_Decode data =
     (if length data > MaxMessageBytes then bus_malformed ''exceeds the limit''
      else case parse_wire (map unat data) of
        None \<Rightarrow> bus_malformed ''not one JSON object of the known fields''
      | Some (w, rest) \<Rightarrow>
          if skip_ws rest \<noteq> [] then bus_malformed ''trailing data''
          else if w_V w \<noteq> 1 then bus_malformed ''unknown version''
          else
            case (if w_K w = ascii ''key'' then Some KindKey
                  else if w_K w = ascii ''tag'' then Some KindTag else None) of
              None \<Rightarrow> bus_malformed ''unknown kind''
            | Some kind \<Rightarrow>
                let e = \<lparr>Namespace = unascii (w_NS w), ev_Kind = kind, Name = unascii (w_N w)\<rparr> in
                case bus_check e of
                  Some err \<Rightarrow> Inl (Wrap ''%w: %w'' [bus_ErrMalformed, err])
                | None \<Rightarrow> Inr e)"

section \<open>Round trip\<close>

lemma hexval_hexd: "n < 16 \<Longrightarrow> hexval (hexd n) = Some n"
  by (auto simp: hexval_def hexd_def)

text \<open>Decoding a rune consumes exactly its encoding, whatever follows.\<close>

lemma digits64: "y < (64 :: nat) \<Longrightarrow> (x * 64 + y) div 64 = x" "y < (64 :: nat) \<Longrightarrow> (x * 64 + y) mod 64 = y"
  by simp_all

lemma cont_byte: "is_cont c \<Longrightarrow> \<exists>y < 64. c = 0x80 + y \<and> c mod 64 = y"
proof -
  assume "is_cont c"
  then obtain y where "c = 0x80 + y" "y < 64" unfolding is_cont_def using le_Suc_ex [of "0x80" c] by fastforce
  then show ?thesis using digits64(2) [of y 2] by auto
qed

lemma lead_byte: "k \<le> b \<Longrightarrow> b \<le> k + m \<Longrightarrow> \<exists>x \<le> m. (b :: nat) = k + x"
  by (rule exI [of _ "b - k"]) auto

lemma encodeRune_2: "2 \<le> x \<Longrightarrow> x < 32 \<Longrightarrow> y < 64 \<Longrightarrow> encodeRune (x * 64 + y) = [0xC0 + x, 0x80 + y]"
  using digits64 [of y x] by (simp add: encodeRune_def)

lemma encodeRune_3:
  assumes "x < 16" "y < 64" "z < 64" "x = 0 \<longrightarrow> 32 \<le> y"
  shows "encodeRune ((x * 64 + y) * 64 + z) = [0xE0 + x, 0x80 + y, 0x80 + z]"
proof -
  let ?r = "(x * 64 + y) * 64 + z"
  have "\<not> ?r < 0x800" "?r < 0x10000" using assms by (cases "x = 0"; simp)+
  moreover have "?r div 4096 = ?r div 64 div 64" by (simp add: div_mult2_eq [symmetric])
  ultimately show ?thesis using digits64 [OF assms(3), of "x * 64 + y"] digits64 [OF assms(2), of x]
    unfolding encodeRune_def by (simp only: if_False if_True) (simp add: not_less)
qed

lemma encodeRune_4:
  assumes "x < 5" "y < 64" "z < 64" "v < 64" "x = 0 \<longrightarrow> 16 \<le> y"
  shows "encodeRune (((x * 64 + y) * 64 + z) * 64 + v) = [0xF0 + x, 0x80 + y, 0x80 + z, 0x80 + v]"
proof -
  let ?r = "((x * 64 + y) * 64 + z) * 64 + v"
  have "\<not> ?r < 0x10000" using assms by (cases "x = 0") simp_all
  moreover have "?r div 4096 = ?r div 64 div 64" "?r div 262144 = ?r div 64 div 64 div 64"
    by (simp_all add: div_mult2_eq [symmetric])
  ultimately show ?thesis using digits64 [OF assms(4), of "(x * 64 + y) * 64 + z"]
      digits64 [OF assms(3), of "x * 64 + y"] digits64 [OF assms(2), of x]
    unfolding encodeRune_def by (simp only: if_False if_True) (simp add: not_less)
qed

lemma decodeRune_encodeRune: "decodeRune bs = Some (r, rest) \<Longrightarrow> bs = encodeRune r @ rest"
proof (cases bs)
  case (Cons b t)
  assume d: "decodeRune bs = Some (r, rest)"
  note d = d [unfolded Cons]
  consider "b < 0x80" | "0xC2 \<le> b" "b \<le> 0xDF" | "0xE0 \<le> b" "b \<le> 0xEF" | "0xF0 \<le> b" "b \<le> 0xF4"
    using d by (auto split: if_splits)
  then show ?thesis
  proof cases
    case 1
    then show ?thesis using d Cons by (simp add: encodeRune_def)
  next
    case 2
    then obtain c u where t: "t = c # u" "is_cont c" "r = b mod 32 * 64 + c mod 64" "rest = u"
      using d by (auto split: list.splits if_splits)
    obtain y where y: "c = 0x80 + y" "y < 64" "c mod 64 = y" using cont_byte [OF t(2)] by blast
    obtain x where x: "b = 0xC0 + x" "x \<le> 0x1F" using 2 lead_byte [of "0xC0" b "0x1F"] by auto
    then have "b mod 32 = x" "2 \<le> x" using 2 by (auto simp: mod_add_eq [of "0xC0" 32 x, symmetric])
    then show ?thesis using encodeRune_2 [of x y] x y t Cons by simp
  next
    case 3
    then obtain c d' u where t: "t = c # d' # u" "(if b = 0xE0 then 0xA0 else 0x80) \<le> c" "c \<le> (if b = 0xED then 0x9F else 0xBF)"
      "is_cont d'" "r = b mod 16 * 4096 + c mod 64 * 64 + d' mod 64" "rest = u"
      using d by (auto split: list.splits if_splits)
    have "is_cont c" using t(2,3) by (auto simp: is_cont_def split: if_splits)
    then obtain y where y: "c = 0x80 + y" "y < 64" "c mod 64 = y" using cont_byte by blast
    obtain z where z: "d' = 0x80 + z" "z < 64" "d' mod 64 = z" using cont_byte [OF t(4)] by blast
    obtain x where x: "b = 0xE0 + x" "x \<le> 0xF" using 3 lead_byte [of "0xE0" b "0xF"] by auto
    then have "b mod 16 = x" by (auto simp: mod_add_eq [of "0xE0" 16 x, symmetric])
    moreover have "x = 0 \<longrightarrow> 32 \<le> y" using t(2) x y by auto
    ultimately show ?thesis using encodeRune_3 [of x y z] x y z t Cons by (simp add: algebra_simps)
  next
    case 4
    then obtain c d' e u where t: "t = c # d' # e # u" "(if b = 0xF0 then 0x90 else 0x80) \<le> c" "c \<le> (if b = 0xF4 then 0x8F else 0xBF)"
      "is_cont d'" "is_cont e" "r = b mod 8 * 262144 + c mod 64 * 4096 + d' mod 64 * 64 + e mod 64" "rest = u"
      using d by (auto split: list.splits if_splits)
    have "is_cont c" using t(2,3) by (auto simp: is_cont_def split: if_splits)
    then obtain y where y: "c = 0x80 + y" "y < 64" "c mod 64 = y" using cont_byte by blast
    obtain z where z: "d' = 0x80 + z" "z < 64" "d' mod 64 = z" using cont_byte [OF t(4)] by blast
    obtain v where v: "e = 0x80 + v" "v < 64" "e mod 64 = v" using cont_byte [OF t(5)] by blast
    obtain x where x: "b = 0xF0 + x" "x \<le> 4" using 4 lead_byte [of "0xF0" b 4] by auto
    then have "b mod 8 = x" by (auto simp: mod_add_eq [of "0xF0" 8 x, symmetric])
    moreover have "x = 0 \<longrightarrow> 16 \<le> y" using t(2) x y by auto
    ultimately show ?thesis using encodeRune_4 [of x y z v] x y z v t Cons by (simp add: algebra_simps)
  qed
qed simp

lemma decodeRune_append:
  assumes "decodeRune (p @ rest) = Some (r, rest)"
  shows "decodeRune (p @ x) = Some (r, x)"
proof -
  consider "p = []" | a where "p = [a]" | a b where "p = [a, b]" | a b c where "p = [a, b, c]"
    | a b c d q where "p = a # b # c # d # q"
    by (metis neq_Nil_conv)
  then show ?thesis
  proof cases
    case 1
    then show ?thesis using decodeRune_shorter [OF assms] by simp
  next
    case (2 a)
    then show ?thesis using assms by (auto split: if_splits list.splits)
  next
    case (3 a b)
    then show ?thesis using assms by (auto split: if_splits list.splits)
  next
    case (4 a b c)
    then show ?thesis using assms by (auto split: if_splits list.splits)
  next
    case (5 a b c d q)
    then show ?thesis using assms by (auto split: if_splits)
  qed
qed

lemma decodeRune_local: "decodeRune bs = Some (r, rest) \<Longrightarrow> decodeRune (encodeRune r @ x) = Some (r, x)"
  using decodeRune_append decodeRune_encodeRune by metis

text \<open>Runes that \<open>decodeRune\<close> returns, and what their first byte says.\<close>

lemma encodeRune_head: "\<not> r < 0x80 \<Longrightarrow> \<exists>b t. encodeRune r = b # t \<and> 0x80 \<le> b"
  by (simp add: encodeRune_def)

lemma encodeRune_nonempty [simp]: "encodeRune r \<noteq> []"
  by (simp add: encodeRune_def)

lemma parse_plain: "b \<noteq> 0x22 \<Longrightarrow> b \<noteq> 0x5C \<Longrightarrow> \<not> b < 0x20 \<Longrightarrow> b < 0x80 \<Longrightarrow>
    parse_string (b # s) = map_option (apfst (append [b])) (parse_string s)"
  by (simp add: parse_string.simps)

lemma parse_rune:
  assumes "decodeRune bs = Some (r, rest)" "\<not> r < 0x80"
  shows "parse_string (encodeRune r @ s) = map_option (apfst (append (encodeRune r))) (parse_string s)"
proof -
  obtain b t where b: "encodeRune r = b # t" "0x80 \<le> b" using encodeRune_head [OF assms(2)] by blast
  have "decodeRune (b # t @ s) = Some (r, s)" using decodeRune_local [OF assms(1), of s] b(1) by simp
  then show ?thesis using b by (simp add: parse_string.simps del: decodeRune.simps)
qed

lemma parse_unit:
  assumes "getu4 (t @ s) = Some (r, s)" "\<not> is_surrogate r"
  shows "parse_string (0x5C # 0x75 # t @ s) = map_option (apfst (append (encodeRune r))) (parse_string s)"
  using assms by (simp add: parse_string.simps(2) [of "0x5C"] unit_rune_def)

lemma parse_escape_ascii:
  assumes "b < 0x80"
  shows "parse_string (escape_ascii b @ s) = map_option (apfst (append [b])) (parse_string s)"
proof (cases "html_safe b")
  case True
  then show ?thesis using assms by (simp add: escape_ascii_def html_safe_def parse_plain)
next
  case False
  show ?thesis
  proof (cases "b \<in> {0x5C, 0x22, 0x08, 0x0C, 0x0A, 0x0D, 0x09}")
    case True
    then show ?thesis
      by (auto simp: escape_ascii_def html_safe_def parse_string.simps(2) [of "0x5C"] simple_escape_def)
  next
    case no: False
    then have e: "escape_ascii b = [0x5C, 0x75, 0x30, 0x30, hexd (b div 16), hexd (b mod 16)]"
      using False by (simp add: escape_ascii_def)
    have "hexval 0x30 = Some 0" by (simp add: hexval_def)
    moreover have "b div 16 < 16" "b mod 16 < 16" using assms by simp_all
    ultimately have "getu4 ([0x30, 0x30, hexd (b div 16), hexd (b mod 16)] @ s) = Some (b, s)"
      by (simp add: hexval_hexd)
    moreover have "\<not> is_surrogate b" "encodeRune b = [b]" using assms by (simp_all add: is_surrogate_def encodeRune_def)
    ultimately show ?thesis using parse_unit [of "[0x30, 0x30, hexd (b div 16), hexd (b mod 16)]" s b] e by simp
  qed
qed

lemma parse_separator:
  assumes "c = 0x2028 \<or> c = 0x2029"
  shows "parse_string ([0x5C, 0x75, 0x32, 0x30, 0x32, hexd (c mod 16)] @ s)
    = map_option (apfst (append (encodeRune c))) (parse_string s)"
proof -
  have "getu4 ([0x32, 0x30, 0x32, hexd (c mod 16)] @ s) = Some (c, s)"
    using assms by (auto simp: hexd_def hexval_def)
  moreover have "\<not> is_surrogate c" using assms by (auto simp: is_surrogate_def)
  ultimately show ?thesis using parse_unit [of "[0x32, 0x30, 0x32, hexd (c mod 16)]" s c] by simp
qed

lemma decodeRune_high: "decodeRune (b # t) = Some (r, rest) \<Longrightarrow> \<not> b < 0x80 \<Longrightarrow> \<not> r < 0x80"
  using decodeRune_encodeRune [of "b # t" r rest] by (auto simp: encodeRune_def)

lemma parse_escape: "runes bs \<noteq> None \<Longrightarrow>
    parse_string (json_escape bs @ 0x22 # s) = Some (bs, s)"
proof (induction bs rule: json_escape.induct)
  case (1 bs)
  show ?case
  proof (cases bs)
    case Nil
    then show ?thesis by (simp add: json_escape.simps parse_string.simps)
  next
    case (Cons b t)
    obtain c rest where d: "decodeRune bs = Some (c, rest)" and r: "runes rest \<noteq> None"
      using "1.prems" Cons by (subst (asm) runes.simps) (auto simp del: decodeRune.simps split: option.splits)
    show ?thesis
    proof (cases "b < 0x80")
      case True
      then have "c = b" "rest = t" using d Cons by simp_all
      then have "parse_string (json_escape t @ 0x22 # s) = Some (t, s)" using "1.IH"(1) [OF Cons True] r by simp
      then show ?thesis using Cons True
        by (subst json_escape.simps) (simp add: parse_escape_ascii)
    next
      case False
      have bs: "bs = encodeRune c @ rest" by (rule decodeRune_encodeRune [OF d])
      have "take (length (encodeRune c @ rest) - length rest) (encodeRune c @ rest) = encodeRune c" by simp
      then have copy: "take (length bs - length rest) bs = encodeRune c" using bs by simp
      have c: "\<not> c < 0x80" using decodeRune_high d Cons False by blast
      have IH: "parse_string (json_escape rest @ 0x22 # s) = Some (rest, s)"
        using "1.IH"(3) [OF Cons False d refl] r by simp
      have "json_escape bs = (if c = 0x2028 \<or> c = 0x2029 then [0x5C, 0x75, 0x32, 0x30, 0x32, hexd (c mod 16)]
          else encodeRune c) @ json_escape rest"
        using Cons False d copy by (subst json_escape.simps) (simp del: decodeRune.simps)
      then show ?thesis
        using parse_separator [of c] parse_rune [OF d c] IH bs by (simp add: apfst_def map_prod_def)
    qed
  qed
qed

lemma parse_null_quote [simp]: "parse_null (0x22 # s) = None" "parse_null (0x31 # s) = None" "parse_null (0x7B # s) = None"
  by (simp_all add: parse_null_def json_null_def ascii_def)

lemma skip_ws_here [simp]: "skip_ws (0x22 # s) = 0x22 # s" "skip_ws (0x31 # s) = 0x31 # s" "skip_ws (0x7B # s) = 0x7B # s"
    "skip_ws (0x3A # s) = 0x3A # s" "skip_ws (0x2C # s) = 0x2C # s" "skip_ws (0x7D # s) = 0x7D # s" "skip_ws [] = []"
  by (simp_all add: skip_ws_def)

lemma runes_plain: "\<forall>b \<in> set bs. b < 0x80 \<Longrightarrow> runes bs = Some bs"
  by (induction bs) (simp_all add: runes.simps)

lemma parse_name:
  assumes "name \<in> {''v'', ''k'', ''ns'', ''n''}"
  shows "parse_member w (member name v @ s) = parse_field (ascii name) w (skip_ws (v @ s))"
proof -
  have "runes (ascii name) \<noteq> None" using assms runes_plain [of "ascii name"] by (auto simp: ascii_def)
  then show ?thesis by (simp add: parse_member_def member_def json_string_def parse_escape)
qed

lemma parse_fields:
  assumes "runes x \<noteq> None"
  shows "parse_member w (member ''v'' [0x31] @ 0x2C # s) = Some (w\<lparr>w_V := 1\<rparr>, 0x2C # s)"
    and "parse_member w (member ''k'' (json_string x) @ s) = Some (w\<lparr>w_K := x\<rparr>, s)"
    and "parse_member w (member ''ns'' (json_string x) @ s) = Some (w\<lparr>w_NS := x\<rparr>, s)"
    and "parse_member w (member ''n'' (json_string x) @ s) = Some (w\<lparr>w_N := x\<rparr>, s)"
proof -
  have int: "parse_int (0x31 # 0x2C # s) = Some (1, 0x2C # s)"
    by (simp add: parse_int_def parse_nat_def is_digit_def in_int64_def min_int64_def max_int64_def)
  have tx: "parse_text old (json_string x @ s) = Some (x, s)" for old
    using assms by (simp add: parse_text_def json_string_def parse_escape)
  have ws: "skip_ws (json_string x @ s) = json_string x @ s" by (simp add: json_string_def)
  show "parse_member w (member ''v'' [0x31] @ 0x2C # s) = Some (w\<lparr>w_V := 1\<rparr>, 0x2C # s)"
    using int by (simp add: parse_name parse_field_def ascii_def)
  show "parse_member w (member ''k'' (json_string x) @ s) = Some (w\<lparr>w_K := x\<rparr>, s)"
    "parse_member w (member ''ns'' (json_string x) @ s) = Some (w\<lparr>w_NS := x\<rparr>, s)"
    "parse_member w (member ''n'' (json_string x) @ s) = Some (w\<lparr>w_N := x\<rparr>, s)"
    using tx ws by (simp_all add: parse_name parse_field_def ascii_def)
qed

lemma parse_members_more:
  "parse_member w (m @ 0x2C # s) = Some (w', 0x2C # s) \<Longrightarrow>
   parse_members w (m @ 0x2C # s) = parse_members w' (skip_ws s)"
  by (subst parse_members.simps) simp

lemma parse_members_last:
  "parse_member w (m @ [0x7D]) = Some (w', [0x7D]) \<Longrightarrow> parse_members w (m @ [0x7D]) = Some (w', [])"
  by (subst parse_members.simps) simp

lemma skip_ws_member [simp]: "skip_ws (member name v @ s) = member name v @ s"
  by (simp add: member_def json_string_def)

lemma parse_written:
  assumes "runes (ascii k) \<noteq> None" "runes (ascii ns) \<noteq> None" "runes (ascii n) \<noteq> None"
  shows "parse_wire (write_wire k ns n) = Some (\<lparr>w_V = 1, w_K = ascii k, w_NS = ascii ns, w_N = ascii n\<rparr>, [])"
proof -
  let ?w = "zero_wire\<lparr>w_V := 1, w_K := ascii k, w_NS := ascii ns, w_N := ascii n\<rparr>"
  let ?s = "member ''v'' [0x31] @ 0x2C # member ''k'' (json_string (ascii k))
     @ 0x2C # member ''ns'' (json_string (ascii ns)) @ 0x2C # member ''n'' (json_string (ascii n)) @ [0x7D]"
  have "\<exists>u. ?s = 0x22 # u" by (simp add: member_def json_string_def)
  then have "parse_wire (0x7B # ?s) = parse_members zero_wire ?s" by (auto simp: parse_wire_def)
  also have "\<dots> = Some (?w, [])"
    using assms by (simp add: parse_members_more parse_members_last parse_fields)
  finally show ?thesis by (simp add: write_wire_def zero_wire_def)
qed

section \<open>Bytes\<close>

lemma hexd_byte: "n < 16 \<Longrightarrow> hexd n < 256"
  by (simp add: hexd_def)

lemma json_escape_bytes: "\<forall>b \<in> set bs. b < 256 \<Longrightarrow> \<forall>b \<in> set (json_escape bs). b < 256"
proof (induction bs rule: json_escape.induct)
  case (1 bs)
  show ?case
  proof (cases bs)
    case Nil
    then show ?thesis by (simp add: json_escape.simps)
  next
    case (Cons b t)
    show ?thesis
    proof (cases "b < 0x80")
      case True
      have "\<forall>x \<in> set (escape_ascii b). x < 256"
        using True hexd_byte [of "b div 16"] hexd_byte [of "b mod 16"] by (simp add: escape_ascii_def)
      then show ?thesis using "1.IH"(1) [OF Cons True] "1.prems" Cons True
        by (subst json_escape.simps) auto
    next
      case False
      show ?thesis
      proof (cases "decodeRune bs")
        case None
        then show ?thesis using "1.IH"(2) [OF Cons False None] "1.prems" Cons False
          by (subst json_escape.simps) (auto simp del: decodeRune.simps)
      next
        case (Some cr)
        obtain c rest where cr: "cr = (c, rest)" by (cases cr)
        have "set rest \<subseteq> set bs" using decodeRune_encodeRune Some cr by fastforce
        then have IH: "\<forall>b \<in> set (json_escape rest). b < 256"
          using "1.IH"(3) [OF Cons False Some] cr "1.prems" by auto
        have "\<forall>x \<in> set (take (length bs - length rest) bs). x < 256"
          using "1.prems" by (meson in_set_takeD)
        then show ?thesis using IH Cons False Some cr hexd_byte [of "c mod 16"]
          by (subst json_escape.simps) (auto simp del: decodeRune.simps)
      qed
    qed
  qed
qed

lemma ascii_bytes: "\<forall>b \<in> set (ascii s). b < 256"
  by (simp add: ascii_def)

lemma write_wire_bytes: "\<forall>b \<in> set (write_wire k ns n). b < 256"
  using json_escape_bytes [OF ascii_bytes] unfolding write_wire_def member_def json_string_def by auto

lemma unat_written: "map unat (map word_of_nat (write_wire k ns n) :: bytes) = write_wire k ns n"
  using write_wire_bytes [of k ns n] by (auto simp: unat_of_nat intro!: map_idI)

lemma unascii_ascii [simp]: "unascii (ascii s) = s"
  by (simp add: unascii_def ascii_def comp_def)

section \<open>What a message carries\<close>

lemma runes_namespace: "namespacePattern s \<Longrightarrow> runes (ascii s) \<noteq> None"
proof -
  have "\<forall>ch \<in> set ''abcdefghijklmnopqrstuvwxyz0123456789._-''. of_char ch < (0x80 :: nat)" by simp
  then have "of_char ch < (0x80 :: nat)" if "namespace_char ch" for ch
    using that unfolding namespace_char_def by (rule bspec)
  then show "namespacePattern s \<Longrightarrow> runes (ascii s) \<noteq> None"
    using runes_plain [of "ascii s"] by (simp add: ascii_def namespacePattern_def list_all_iff)
qed

lemma bus_check_accepts:
  "bus_check e = None \<Longrightarrow> kindNames (ev_Kind e) \<noteq> None \<and> namespacePattern (Namespace e) \<and> runes (ascii (Name e)) \<noteq> None"
  by (auto simp: bus_check_def ValidString_def utf8_runes_def ascii_def split: if_splits)

lemma kindNames_cases: "kindNames k = Some n \<Longrightarrow> (k = KindKey \<and> n = ''key'') \<or> (k = KindTag \<and> n = ''tag'')"
  by (cases k) (auto simp: kindNames_def)

lemma bus_Encode_parses:
  assumes "bus_Encode e = Inr d"
  shows "bus_check e = None"
    and "parse_wire (map unat d) =
      Some (\<lparr>w_V = 1, w_K = ascii (the (kindNames (ev_Kind e))), w_NS = ascii (Namespace e), w_N = ascii (Name e)\<rparr>, [])"
proof -
  show ok: "bus_check e = None" using assms by (auto simp: bus_Encode_def split: option.splits)
  have "runes (ascii (the (kindNames (ev_Kind e)))) \<noteq> None"
    using bus_check_accepts [OF ok] kindNames_cases [of "ev_Kind e"] runes_plain [of "ascii ''key''"] runes_plain [of "ascii ''tag''"]
    by (auto simp: ascii_def)
  moreover have "d = map word_of_nat (write_wire (the (kindNames (ev_Kind e))) (Namespace e) (Name e))"
    using assms ok by (simp add: bus_Encode_def)
  ultimately show "parse_wire (map unat d) =
      Some (\<lparr>w_V = 1, w_K = ascii (the (kindNames (ev_Kind e))), w_NS = ascii (Namespace e), w_N = ascii (Name e)\<rparr>, [])"
    using bus_check_accepts [OF ok] runes_namespace [of "Namespace e"]
    by (metis parse_written unat_written)
qed

lemma bus_Decode_iff:
  assumes "bus_Encode e = Inr d"
  shows "bus_Decode d = (if length d \<le> MaxMessageBytes then Inr e else bus_malformed ''exceeds the limit'')"
proof (cases "length d \<le> MaxMessageBytes")
  case True
  obtain n where "kindNames (ev_Kind e) = Some n" using bus_check_accepts [OF bus_Encode_parses(1) [OF assms]] by auto
  then show ?thesis
    using True kindNames_cases [of "ev_Kind e" n] bus_Encode_parses [OF assms]
    by (cases e) (auto simp: bus_Decode_def kindNames_def Let_def ascii_def [of "''key''"] ascii_def [of "''tag''"])
qed (simp add: bus_Decode_def)

text \<open>C24. Encode and Decode are inverse: for an event that Encode accepts, Decode of the message gives the
  event back exactly when the message is within \<open>MaxMessageBytes\<close>, and a longer one is malformed.\<close>

theorem bus_Decode_Encode:
  assumes "bus_Encode e = Inr d"
  shows "bus_Decode d = (if length d \<le> MaxMessageBytes then Inr e else bus_malformed ''exceeds the limit'')"
  by (rule bus_Decode_iff [OF assms])

text \<open>Messages are untrusted: an event that comes out of Decode has passed the check that Encode makes, and
  came in a message within \<open>MaxMessageBytes\<close>; whatever else arrives is \<open>ErrMalformed\<close>, never a panic.\<close>

theorem bus_Decode_checked:
  "case bus_Decode d of Inr e \<Rightarrow> bus_check e = None \<and> length d \<le> MaxMessageBytes
   | Inl err \<Rightarrow> errors_Is err bus_ErrMalformed"
  by (auto simp: bus_Decode_def bus_malformed_def Let_def split: option.split prod.split)

definition invalidated_42 :: Event where
  "invalidated_42 = \<lparr>Namespace = ''tasks'', ev_Kind = KindKey, Name = ''cistern:v1:tasks:-:k:<42>''\<rparr>"

lemma invalidated_42_message: "\<exists>d. bus_Encode invalidated_42 = Inr d \<and> length d = 72"
proof -
  have "map_option length (case bus_Encode invalidated_42 of Inr d \<Rightarrow> Some d | Inl _ \<Rightarrow> None) = Some 72"
    by code_simp
  then show ?thesis by (auto split: sum.splits)
qed

theorem bus_Decode_Encode_witness:
  "\<exists>d. bus_Encode invalidated_42 = Inr d \<and> bus_Decode d = Inr invalidated_42"
  using invalidated_42_message bus_Decode_Encode [of invalidated_42] by (auto simp: MaxMessageBytes_def)

section \<open>A message that is too long\<close>

lemma json_escape_ascii: "\<forall>b \<in> set bs. b < 0x80 \<Longrightarrow> json_escape bs = concat (map escape_ascii bs)"
  by (induction bs) (simp_all add: json_escape.simps)

lemma angle_length: "length (json_escape (ascii (replicate n CHR ''<''))) = 6 * n"
proof -
  have "json_escape (ascii (replicate n CHR ''<'')) = concat (map escape_ascii (ascii (replicate n CHR ''<'')))"
    by (rule json_escape_ascii) (simp add: ascii_def)
  then show ?thesis by (induction n arbitrary: ) (auto simp: ascii_def length_concat sum_list_replicate escape_ascii_def html_safe_def)
qed

text \<open>A key of angle brackets within \<open>MaxKeyBytes\<close> is a key like any other; each bracket takes six bytes in
  JSON, so the event of its removal is longer than \<open>MaxMessageBytes\<close>, which Encode does not look at.\<close>

definition brackets :: "nat \<Rightarrow> string" where
  "brackets n = replicate n CHR ''<''"

definition brackets_name :: "nat \<Rightarrow> string" where
  "brackets_name n = ''cistern:v1:tasks:-:k:'' @ brackets n"

lemma brackets_key: "0 < n \<Longrightarrow> n \<le> MaxKeyBytes \<Longrightarrow>
    physicalKey tasks_space (brackets n) = Inr (brackets_name n)"
  using runes_plain [of "ascii (brackets n)"]
  by (auto simp: physicalKey_def Let_def validateKey_def ValidString_def utf8_runes_def tasks_space_def brackets_def
      ascii_def brackets_name_def entry_prefix_def IsControl_def list_ex_iff)

lemma brackets_checked: "bus_check \<lparr>Namespace = ''tasks'', ev_Kind = KindKey, Name = brackets_name n\<rparr> = None"
  using runes_plain [of "ascii (brackets_name n)"]
  by (auto simp: bus_check_def kindNames_def namespacePattern_def namespace_char_def ValidString_def utf8_runes_def
      brackets_name_def brackets_def ascii_def IsControl_def list_ex_iff)

lemma json_escape_append: "\<forall>b \<in> set s. b < 0x80 \<Longrightarrow> \<forall>b \<in> set t. b < 0x80 \<Longrightarrow> json_escape (s @ t) = json_escape s @ json_escape t"
  by (simp add: json_escape_ascii ball_Un)

text \<open>An event that crosses processes can be impossible to read: the key of 256 angle brackets is valid and
  its event is encoded without an error, but every Decode refuses the message for its length, so no other
  process learns of the invalidation.\<close>

theorem bus_Encode_exceeds_limit:
  assumes "171 \<le> n" "n \<le> MaxKeyBytes"
  shows "\<exists>name d. physicalKey tasks_space (brackets n) = Inr name \<and>
           bus_Encode \<lparr>Namespace = ''tasks'', ev_Kind = KindKey, Name = name\<rparr> = Inr d \<and>
           bus_Decode d = bus_malformed ''exceeds the limit''"
proof -
  let ?name = "brackets_name n"
  let ?e = "\<lparr>Namespace = ''tasks'', ev_Kind = KindKey, Name = ?name\<rparr>"
  let ?d = "map word_of_nat (write_wire ''key'' ''tasks'' ?name) :: bytes"
  have d: "bus_Encode ?e = Inr ?d" by (simp add: bus_Encode_def brackets_checked kindNames_def)
  have "json_escape (ascii ?name) = json_escape (ascii ''cistern:v1:tasks:-:k:'') @ json_escape (ascii (brackets n))"
    using json_escape_append [of "ascii ''cistern:v1:tasks:-:k:''" "ascii (brackets n)"]
    by (auto simp: ascii_def brackets_def brackets_name_def)
  then have "6 * n \<le> length (json_escape (ascii ?name))"
    using angle_length [of n] by (simp add: brackets_def)
  then have "MaxMessageBytes < length ?d"
    using assms(1) by (simp add: write_wire_def member_def json_string_def MaxMessageBytes_def)
  then show ?thesis using bus_Decode_iff [OF d] brackets_key [of n] assms d
    by (intro exI [of _ ?name] exI [of _ ?d]) simp
qed

theorem bus_Encode_exceeds_limit_witness:
  "\<exists>name d. physicalKey tasks_space (brackets 256) = Inr name \<and>
     bus_Encode \<lparr>Namespace = ''tasks'', ev_Kind = KindKey, Name = name\<rparr> = Inr d \<and>
     bus_Decode d = bus_malformed ''exceeds the limit''"
  using bus_Encode_exceeds_limit [of 256] by (simp add: MaxKeyBytes_def)

end
