(* ===== verification/Redis.thy ===== *)
theory Redis
  imports StoreLaws BusWire
begin

text \<open>
  \<open>redisstore/\<close>: the store over one Redis (\<open>redisstore.go\<close>), its tag counters (\<open>tagstore.go\<close>) and its bus
  (\<open>bus.go\<close>).  The Redis client is a library outside the repository, so it is a parameter: a record of the
  calls the code makes, on an arbitrary outside state.  A \<open>Guard\<close> is any function, and may call the
  operation it is given as it likes; the variables that operation captures are passed along explicitly.
\<close>

section \<open>The client\<close>

text \<open>The commands of a pipeline, as the code queues them.\<close>

datatype rcmd =
    SetNX string string duration
  | Incr string
  | PExpire string duration
  | MGet "string list"

text \<open>\<open>rc_Exec\<close> runs a pipeline: its error, and the reply of its last \<open>MGET\<close>, where \<open>None\<close> is a nil.\<close>

record 'x client =
  rc_ContextTimeoutEnabled :: bool
  rc_Get :: "ctx \<Rightarrow> string \<Rightarrow> 'x \<Rightarrow> bytes result \<times> 'x"
  rc_Set :: "ctx \<Rightarrow> string \<Rightarrow> bytes \<Rightarrow> duration \<Rightarrow> 'x \<Rightarrow> error option \<times> 'x"
  rc_Del :: "ctx \<Rightarrow> string \<Rightarrow> 'x \<Rightarrow> error option \<times> 'x"
  rc_Exec :: "ctx \<Rightarrow> rcmd list \<Rightarrow> 'x \<Rightarrow> (error option \<times> string option list) \<times> 'x"
  rc_Publish :: "ctx \<Rightarrow> string \<Rightarrow> bytes \<Rightarrow> 'x \<Rightarrow> error option \<times> 'x"

text \<open>\<open>redis.Nil\<close>, the client's error for a missing key.\<close>

definition redis_Nil :: error where "redis_Nil = Sentinel ''redis: nil''"

section \<open>The store\<close>

text \<open>What an operation has captured: the results its closure assigns.\<close>

record captured =
  cv_value :: "bytes option"
  cv_gens :: gens

definition nothing :: captured where
  "nothing = \<lparr>cv_value = None, cv_gens = None\<rparr>"

type_synonym 'x rop = "ctx \<Rightarrow> 'x \<times> captured \<Rightarrow> error option \<times> 'x \<times> captured"

type_synonym 'x Guard = "ctx \<Rightarrow> 'x rop \<Rightarrow> 'x \<times> captured \<Rightarrow> error option \<times> 'x \<times> captured"

definition passGuard_Do :: "'x Guard" where
  "passGuard_Do ctx op = op ctx"

record 'x rstore =
  rs_client :: "'x client option"
  rs_timeout :: duration
  rs_guard :: "'x Guard option"

definition Millisecond :: duration where "Millisecond = 1000000"

definition DefaultTimeout :: duration where "DefaultTimeout = 100 * Millisecond"

definition rs_WithTimeout :: "duration \<Rightarrow> 'x rstore \<Rightarrow> 'x rstore" where
  "rs_WithTimeout d s = s\<lparr>rs_timeout := d\<rparr>"

definition rs_WithGuard :: "'x Guard option \<Rightarrow> 'x rstore \<Rightarrow> 'x rstore" where
  "rs_WithGuard g s = s\<lparr>rs_guard := g\<rparr>"

definition rs_New :: "'x client option \<Rightarrow> ('x rstore \<Rightarrow> 'x rstore) list \<Rightarrow> 'x rstore result" where
  "rs_New client opts =
     (let s = fold (\<lambda>opt s. opt s) opts
            \<lparr>rs_client = client, rs_timeout = DefaultTimeout, rs_guard = Some passGuard_Do\<rparr> in
      case client of
        None \<Rightarrow> Inl (Wrap ''%w: redisstore: client is nil'' [ErrInvalidConfig])
      | Some cl \<Rightarrow>
          if \<not> rc_ContextTimeoutEnabled cl
            then Inl (Wrap ''%w: redisstore: the client must set ContextTimeoutEnabled'' [ErrInvalidConfig])
          else if rs_timeout s \<le> 0 then Inl (Wrap ''%w: redisstore: timeout must be positive'' [ErrInvalidConfig])
          else if rs_guard s = None then Inl (Wrap ''%w: redisstore: guard is nil'' [ErrInvalidConfig])
          else Inr s)"

text \<open>A store \<open>New\<close> did not build can have a nil client or guard; calling either panics, and a panic is not
  wrapped on its way out.\<close>

definition rs_call :: "'x rstore \<Rightarrow> ctx \<Rightarrow> 'x rop \<Rightarrow> 'x \<times> captured \<Rightarrow> error option \<times> 'x \<times> captured" where
  "rs_call s ctx op st =
     (case rs_guard s of None \<Rightarrow> (Some nil_panic, st)
      | Some guard \<Rightarrow> guard ctx (\<lambda>ctx. op (WithTimeout ctx (rs_timeout s))) st)"

definition on_client :: "'x rstore \<Rightarrow> ('x client \<Rightarrow> 'x rop) \<Rightarrow> 'x rop" where
  "on_client s op ctx st = (case rs_client s of None \<Rightarrow> (Some nil_panic, st) | Some cl \<Rightarrow> op cl ctx st)"

definition wrapped :: "string \<Rightarrow> error \<Rightarrow> error" where
  "wrapped msg err = (case err of Panic p \<Rightarrow> Panic p | _ \<Rightarrow> Wrap msg [err])"

definition rs_Get :: "'x rstore \<Rightarrow> ctx \<Rightarrow> string \<Rightarrow> 'x \<Rightarrow> bytes option result \<times> 'x" where
  "rs_Get s ctx key x =
     (let (err, x, cv) = rs_call s ctx (on_client s (\<lambda>cl ctx (x, cv).
            let (r, x) = rc_Get cl ctx key x in
            case r of
              Inl getErr \<Rightarrow> if errors_Is getErr redis_Nil then (None, x, cv) else (Some getErr, x, cv)
            | Inr v \<Rightarrow> (None, x, cv\<lparr>cv_value := Some v\<rparr>))) (x, nothing) in
      case err of Some e \<Rightarrow> (Inl (wrapped ''redisstore: get: %w'' e), x)
      | None \<Rightarrow> (Inr (cv_value cv), x))"

definition rs_Set :: "'x rstore \<Rightarrow> ctx \<Rightarrow> string \<Rightarrow> bytes \<Rightarrow> duration \<Rightarrow> 'x \<Rightarrow> error option \<times> 'x" where
  "rs_Set s ctx key value ttl x =
     (if ttl \<le> 0 then (Some (errors_New ''redisstore: ttl must be positive''), x)
      else
        let (err, x, cv) = rs_call s ctx (on_client s (\<lambda>cl ctx (x, cv).
               let (err, x) = rc_Set cl ctx key value (max ttl Millisecond) x in (err, x, cv))) (x, nothing) in
        (map_option (wrapped ''redisstore: set: %w'') err, x))"

definition rs_Delete :: "'x rstore \<Rightarrow> ctx \<Rightarrow> string \<Rightarrow> 'x \<Rightarrow> error option \<times> 'x" where
  "rs_Delete s ctx key x =
     (let (err, x, cv) = rs_call s ctx (on_client s (\<lambda>cl ctx (x, cv).
            let (err, x) = rc_Del cl ctx key x in (err, x, cv))) (x, nothing) in
      (map_option (wrapped ''redisstore: delete: %w'') err, x))"

section \<open>Counters\<close>

text \<open>\<open>strconv.ParseUint(s, 10, 64)\<close>: on an error the value is zero, or the largest integer when the digits
  say more than that.\<close>

definition is_decimal :: "string \<Rightarrow> bool" where
  "is_decimal s \<longleftrightarrow> s \<noteq> [] \<and> (\<forall>ch \<in> set s. 48 \<le> (of_char ch :: nat) \<and> (of_char ch :: nat) \<le> 57)"

definition decimal_value :: "string \<Rightarrow> nat" where
  "decimal_value s = foldl (\<lambda>n ch. 10 * n + (of_char ch - 48)) 0 s"

definition ParseUint :: "string \<Rightarrow> u64 \<times> error option" where
  "ParseUint s =
     (if \<not> is_decimal s then (0, Some (errors_New ''strconv.ParseUint: invalid syntax''))
      else if decimal_value s < 2 ^ 64 then (word_of_nat (decimal_value s), None)
      else (- 1, Some (errors_New ''strconv.ParseUint: value out of range'')))"

text \<open>The draws of \<open>crypto/rand\<close>, one per counter.\<close>

fun newGenerations :: "('x \<Rightarrow> bytes option \<times> 'x) \<Rightarrow> nat \<Rightarrow> 'x \<Rightarrow> string list result \<times> 'x" where
  "newGenerations rnd 0 x = (Inr [], x)"
| "newGenerations rnd (Suc n) x =
     (case rnd x of (drawn, x) \<Rightarrow>
        case NewGeneration drawn of
          Inl err \<Rightarrow> (Inl err, x)
        | Inr g \<Rightarrow> apfst (map_sum id (\<lambda>gs. FormatUint g # gs)) (newGenerations rnd n x))"

text \<open>The loop over \<open>vals[1:]\<close>: the generation at \<open>i\<close> from the reply for counter \<open>i\<close>, in the slice that
  already has its length.  An index past either slice panics.\<close>

definition index_panic :: error where "index_panic = Panic ''index out of range''"

fun read_gens :: "nat \<Rightarrow> string option list \<Rightarrow> nat \<Rightarrow> u64 list \<Rightarrow> error option \<times> u64 list" where
  "read_gens n [] i gens = (None, gens)"
| "read_gens n (v # vs) i gens =
     (if n \<le> i then (Some index_panic, gens)
      else case v of
        None \<Rightarrow> (Some (errors_New ''counter vanished between SET NX and MGET''), gens)
      | Some str \<Rightarrow>
          (case ParseUint str of
             (g, Some err) \<Rightarrow> (Some (Wrap ''counter %q holds %q: %w'' [err]), gens[i := g])
           | (g, None) \<Rightarrow> read_gens n vs (Suc i) (gens[i := g])))"

definition tagged_reply :: "nat \<Rightarrow> string option list \<Rightarrow> captured \<Rightarrow> error option \<times> captured" where
  "tagged_reply n vals cv =
     (case vals of [] \<Rightarrow> (Some index_panic, cv)
      | v # vs \<Rightarrow>
          let cv = (case v of None \<Rightarrow> cv | Some str \<Rightarrow> cv\<lparr>cv_value := Some (bytes_of str)\<rparr>);
              (err, gens) = read_gens n vs 0 (replicate n 0) in
          (err, cv\<lparr>cv_gens := Some gens\<rparr>))"

definition rs_GetTagged :: "('x \<Rightarrow> bytes option \<times> 'x) \<Rightarrow> 'x rstore \<Rightarrow> ctx \<Rightarrow> string \<Rightarrow> string list \<Rightarrow> duration \<Rightarrow> 'x
    \<Rightarrow> (bytes option \<times> gens) result \<times> 'x" where
  "rs_GetTagged rnd s ctx key genKeys genTTL x =
     (if genTTL \<le> 0 then (Inl (errors_New ''redisstore: counter ttl must be positive''), x)
      else case newGenerations rnd (length genKeys) x of
        (Inl err, x) \<Rightarrow> (Inl err, x)
      | (Inr fresh, x) \<Rightarrow>
          let pipe = map2 (\<lambda>gk f. SetNX gk f (max genTTL Millisecond)) genKeys fresh @ [MGet (key # genKeys)];
              (err, x, cv) = rs_call s ctx (on_client s (\<lambda>cl ctx (x, cv).
                let ((execErr, vals), x) = rc_Exec cl ctx pipe x in
                if execErr \<noteq> None \<and> \<not> errors_Is (the execErr) redis_Nil then (execErr, x, cv)
                else case tagged_reply (length genKeys) vals cv of (err, cv) \<Rightarrow> (err, x, cv))) (x, nothing) in
          case err of Some e \<Rightarrow> (Inl (wrapped ''redisstore: get tagged: %w'' e), x)
          | None \<Rightarrow> (Inr (cv_value cv, cv_gens cv), x))"

definition rs_Bump :: "('x \<Rightarrow> bytes option \<times> 'x) \<Rightarrow> 'x rstore \<Rightarrow> ctx \<Rightarrow> string list \<Rightarrow> duration \<Rightarrow> 'x
    \<Rightarrow> error option \<times> 'x" where
  "rs_Bump rnd s ctx genKeys genTTL x =
     (if genTTL \<le> 0 then (Some (errors_New ''redisstore: counter ttl must be positive''), x)
      else case newGenerations rnd (length genKeys) x of
        (Inl err, x) \<Rightarrow> (Some err, x)
      | (Inr fresh, x) \<Rightarrow>
          let ttl = max genTTL Millisecond;
              pipe = concat (map2 (\<lambda>gk f. [SetNX gk f ttl, Incr gk, PExpire gk ttl]) genKeys fresh);
              (err, x, cv) = rs_call s ctx (on_client s (\<lambda>cl ctx (x, cv).
                let ((execErr, _), x) = rc_Exec cl ctx pipe x in (execErr, x, cv))) (x, nothing) in
          (map_option (wrapped ''redisstore: bump: %w'') err, x))"

text \<open>The store as the cache sees it: a \<open>Store\<close> that is a \<open>TagStore\<close> too.\<close>

definition redis_Store :: "('x \<Rightarrow> bytes option \<times> 'x) \<Rightarrow> 'x rstore \<Rightarrow> 'x Store" where
  "redis_Store rnd s = \<lparr>st_Get = rs_Get s, st_Set = rs_Set s, st_Delete = rs_Delete s,
     st_tags = Some \<lparr>ts_GetTagged = rs_GetTagged rnd s, ts_Bump = rs_Bump rnd s\<rparr>\<rparr>"

section \<open>The bus\<close>

definition Channel :: string where "Channel = ''cistern:v1:bus''"

record 'x rbus =
  rb_client :: "'x client option"

definition NewBus :: "'x client option \<Rightarrow> 'x rbus result" where
  "NewBus client =
     (case client of
        None \<Rightarrow> Inl (Wrap ''%w: redisstore: client is nil'' [ErrInvalidConfig])
      | Some cl \<Rightarrow>
          if \<not> rc_ContextTimeoutEnabled cl
            then Inl (Wrap ''%w: redisstore: the client must set ContextTimeoutEnabled'' [ErrInvalidConfig])
          else Inr \<lparr>rb_client = client\<rparr>)"

definition rb_Publish :: "'x rbus \<Rightarrow> ctx \<Rightarrow> Event \<Rightarrow> 'x \<Rightarrow> error option \<times> 'x" where
  "rb_Publish b ctx e x =
     (case bus_Encode e of Inl err \<Rightarrow> (Some err, x)
      | Inr data \<Rightarrow>
          case rb_client b of None \<Rightarrow> (Some nil_panic, x)
          | Some cl \<Rightarrow>
              apfst (map_option (wrapped ''redisstore: publish: %w''))
                (rc_Publish cl (WithTimeout ctx DefaultTimeout) Channel data x))"

text \<open>The goroutine of \<open>Subscribe\<close>: the handler on each message that decodes, in the order they arrive.\<close>

definition deliver :: "(Event \<Rightarrow> 'h \<Rightarrow> 'h) \<Rightarrow> bytes list \<Rightarrow> 'h \<Rightarrow> 'h" where
  "deliver h messages = fold (\<lambda>payload st. case bus_Decode payload of Inl _ \<Rightarrow> st | Inr e \<Rightarrow> h e st) messages"

end
