(* ===== verification/CacheKeeps.thy ===== *)
theory CacheKeeps
  imports Cache
begin

text \<open>
  What every operation of the cache keeps, whatever the stores, the codec, the clock and the loader
  do.  The locale \<open>cache_invariant\<close> asks of a property of the world that it survives the four ways an
  operation touches it (the outside moves, a \<open>put\<close> or a \<open>drop\<close> of the local generations, a hook event
  of this cache), and proves that every exported operation keeps it.  It is interpreted for the
  contents of hook events, for the order of the trace, and for the bounds of the local generations.
\<close>

section \<open>Rules\<close>

named_theorems keeps_intros

declare keeps_return [keeps_intros] keeps_bind [keeps_intros] keeps_if [keeps_intros]

lemma keeps_option [keeps_intros]:
  "(x = None \<Longrightarrow> keeps a I) \<Longrightarrow> (\<And>y. x = Some y \<Longrightarrow> keeps (b y) I) \<Longrightarrow>
   keeps (case x of None \<Rightarrow> a | Some y \<Rightarrow> b y) I"
  by (cases x) simp_all

lemma keeps_sum [keeps_intros]:
  "(\<And>y. x = Inl y \<Longrightarrow> keeps (a y) I) \<Longrightarrow> (\<And>y. x = Inr y \<Longrightarrow> keeps (b y) I) \<Longrightarrow>
   keeps (case x of Inl y \<Rightarrow> a y | Inr y \<Rightarrow> b y) I"
  by (cases x) simp_all

lemma keeps_prod [keeps_intros]:
  "(\<And>y z. x = (y, z) \<Longrightarrow> keeps (a y z) I) \<Longrightarrow> keeps (case x of (y, z) \<Rightarrow> a y z) I"
  by (cases x) simp

lemma keeps_error [keeps_intros]:
  "(\<And>s. keeps (a s) I) \<Longrightarrow> (\<And>m es. keeps (b m es) I) \<Longrightarrow> (\<And>p. keeps (d p) I) \<Longrightarrow>
   keeps (case x of Sentinel s \<Rightarrow> a s | Wrap m es \<Rightarrow> b m es | Panic p \<Rightarrow> d p) I"
  by (cases x) simp_all

lemma keeps_flight [keeps_intros]:
  "keeps a I \<Longrightarrow> (\<And>e st. keeps (b e st) I) \<Longrightarrow> (\<And>p. keeps (d p) I) \<Longrightarrow>
   keeps (case x of Lead \<Rightarrow> a | Abandon e st \<Rightarrow> b e st | Join p \<Rightarrow> d p) I"
  by (cases x) simp_all

lemma keeps_Kind [keeps_intros]:
  "keeps a I \<Longrightarrow> keeps b I \<Longrightarrow> (\<And>n. keeps (d n) I) \<Longrightarrow>
   keeps (case x of KindKey \<Rightarrow> a | KindTag \<Rightarrow> b | KindOther n \<Rightarrow> d n) I"
  by (cases x) simp_all

lemma keeps_let [keeps_intros]: "keeps (f x) I \<Longrightarrow> keeps (let y = x in f y) I"
  by simp

lemma wp_call_hook [wp_simps]:
  "wp (call_hook hk ctx e) Q w = Q () (w\<lparr>w_trace := w_trace w @ (if hk = None then [] else [e])\<rparr>)"
  by (auto simp: call_hook_def safely_def wp_simps split: option.split)

lemma slotFor_genKeys: "slotFor c k = Inr s \<Longrightarrow> length (sl_genKeys s) \<le> MaxTags"
proof -
  assume s: "slotFor c k = Inr s"
  have len: "length gks = length tags" if "genKeys_of c tags = Inr gks" for tags gks
    using that by (induction tags arbitrary: gks) (auto split: sum.splits)
  show ?thesis using s len by (auto simp: slotFor_def Let_def split: sum.splits option.splits if_splits)
qed

section \<open>Sequences of calls\<close>

text \<open>One call of an exported method, or one event the bus delivers.\<close>

datatype ('x, 'k, 'v) call =
    CGet ctx 'k
  | CGetOrLoad ctx 'k "('x, 'v) Loader option" "EntryOption list"
  | CSet ctx 'k 'v "EntryOption list"
  | CDelete ctx 'k
  | CInvalidateTag ctx string
  | CEvent Event
  | CClose

fun cache_call :: "('x, 'k, 'v) cache \<Rightarrow> ('x, 'k, 'v) call \<Rightarrow> 'x world \<Rightarrow> 'x world" where
  "cache_call c (CGet ctx k) w = snd (run_state (Get c ctx k) w)"
| "cache_call c (CGetOrLoad ctx k load opts) w = snd (run_state (GetOrLoad c ctx k load opts) w)"
| "cache_call c (CSet ctx k v opts) w = snd (run_state (cache_Set c ctx k v opts) w)"
| "cache_call c (CDelete ctx k) w = snd (run_state (cache_Delete c ctx k) w)"
| "cache_call c (CInvalidateTag ctx tag) w = snd (run_state (InvalidateTag c ctx tag) w)"
| "cache_call c (CEvent e) w = snd (run_state (onEvent c e) w)"
| "cache_call c CClose w = snd (run_state (Close c) w)"

definition cache_calls :: "('x, 'k, 'v) cache \<Rightarrow> ('x, 'k, 'v) call list \<Rightarrow> 'x world \<Rightarrow> 'x world" where
  "cache_calls c cs w = fold (cache_call c) cs w"

section \<open>The locale\<close>

locale cache_invariant =
  fixes c :: "('x, 'k, 'v) cache" and P :: "'x world \<Rightarrow> bool"
  assumes moves: "P w \<Longrightarrow> P (w\<lparr>w_ext := x\<rparr>)"
    and puts: "P w \<Longrightarrow> length ks \<le> MaxTags \<Longrightarrow> P (w\<lparr>w_gens := fst (gc_put (w_gens w) t ks gs ep)\<rparr>)"
    and drops: "P w \<Longrightarrow> P (w\<lparr>w_gens := gc_drop (w_gens w) gk\<rparr>)"
    and emits: "P w \<Longrightarrow> he_ns e = namespace c \<Longrightarrow> (\<not> ca_hookKeys c \<Longrightarrow> he_key e = '''') \<Longrightarrow>
      P (w\<lparr>w_trace := w_trace w @ [e]\<rparr>)"
begin

lemma ext: "keeps (ext f) P"
  by (rule keepsI) (simp add: wp_simps moves)

lemma now: "keeps (now c) P" and ctxErr: "keeps (ctxErr c ctx) P"
  by (simp_all add: now_def ctxErr_def ext)

lemma hook: "he_ns e = namespace c \<Longrightarrow> (\<not> ca_hookKeys c \<Longrightarrow> he_key e = '''') \<Longrightarrow> keeps (call_hook hk ctx e) P"
  by (rule keepsI) (simp add: wp_simps emits)

lemma hooks:
  "keeps (onHit c ctx key level absent) P" "keeps (onMiss c ctx key) P"
  "keeps (onLoad c ctx key d err) P" "keeps (onCoalesced c ctx key) P"
  "keeps (onError c ctx key op level er) P" "keeps (onInvalidate c ctx key tag remote) P"
  by (simp_all add: onHit_def onMiss_def onLoad_def onCoalesced_def onError_def onInvalidate_def
      hook hookKey_def)

lemma gens_reads: "keeps (gens_get c s) P" "keeps (gens_epoch s) P" "keeps (gens_drop gk) P"
  by (rule keepsI; simp add: gens_get_def gens_epoch_def gens_drop_def now_def wp_simps moves drops)+

lemma gens_puts: "length (sl_genKeys s) \<le> MaxTags \<Longrightarrow> keeps (gens_put c s current since) P"
proof (rule keepsI)
  fix w assume len: "length (sl_genKeys s) \<le> MaxTags" and "P w"
  let ?t = "fst (rt_Now (ca_rt c) (w_ext w))" and ?w = "w\<lparr>w_ext := snd (rt_Now (ca_rt c) (w_ext w))\<rparr>"
  have "P (?w\<lparr>w_gens := fst (gc_put (w_gens ?w) ?t (sl_genKeys s) (elems current) since)\<rparr>)"
    by (rule puts [OF moves [OF \<open>P w\<close>] len])
  then show "wp (gens_put c s current since) (\<lambda>a. P) w"
    by (simp add: gens_put_def now_def wp_simps split_beta)
qed

lemmas gens = gens_reads gens_puts

lemmas basics = ext now ctxErr hooks gens

lemma writes: "keeps (cache_write c ctx pk entry ttl) P"
  unfolding cache_write_def by (intro keeps_intros basics)

lemma populates: "keeps (populate c ctx s entry ttl) P"
  unfolding populate_def by (intro keeps_intros basics writes)

lemma backfills: "keeps (backfill c l1 ctx s data expires) P"
  unfolding backfill_def by (intro keeps_intros basics)

lemma checks: "keeps (checked c ctx key level data) P"
  unfolding checked_def by (intro keeps_intros basics)

lemma serves: "keeps (served c ctx key level e) P"
  unfolding served_def by (intro keeps_intros basics)

lemma servesIf: "keeps (serveIf c ctx s level e gens) P"
  unfolding serveIf_def by (intro keeps_intros basics serves)

lemma levels: "keeps (readLevels c ctx s lvs) P"
proof (induction lvs)
  case Nil
  show ?case unfolding readLevels.simps by (intro keeps_intros basics)
next
  case (Cons lv lvs)
  obtain store level where lv: "lv = (store, level)" by (cases lv)
  show ?case
  proof (cases store)
    case None
    then show ?thesis using Cons lv by simp
  next
    case (Some st)
    show ?thesis unfolding lv Some readLevels.simps
      by (intro keeps_intros basics checks serves backfills Cons.IH)
  qed
qed

lemma locals: "keeps (readLocal c ctx s) P"
  unfolding readLocal_def by (intro keeps_intros basics checks)

lemma auths: "length (sl_genKeys s) \<le> MaxTags \<Longrightarrow> keeps (readAuth c ctx s e) P"
  unfolding readAuth_def by (intro keeps_intros basics checks servesIf backfills)

lemma tagged: "length (sl_genKeys s) \<le> MaxTags \<Longrightarrow> keeps (readTagged c ctx s) P"
  unfolding readTagged_def by (intro keeps_intros basics locals auths servesIf)

lemma reads: "length (sl_genKeys s) \<le> MaxTags \<Longrightarrow> keeps (cache_read c ctx s) P"
  unfolding cache_read_def readPlain_def by (intro keeps_intros tagged levels)

lemma loads: "keeps (runLoad c loadCtx s gens cacheable ttl load) P"
  unfolding runLoad_def by (intro keeps_intros basics populates)

theorem Get: "keeps (Get c ctx k) P"
  unfolding Get_def by (intro keeps_intros basics reads slotFor_genKeys)

theorem GetOrLoad: "keeps (GetOrLoad c ctx k load opts) P"
  unfolding GetOrLoad_def by (intro keeps_intros basics reads loads slotFor_genKeys)

theorem Set: "keeps (cache_Set c ctx k v opts) P"
  unfolding cache_Set_def by (intro keeps_intros basics writes)

lemma publishes: "keeps (publish c ctx kind name) P"
  unfolding publish_def by (intro keeps_intros basics)

theorem Delete: "keeps (cache_Delete c ctx k) P"
  unfolding cache_Delete_def by (intro keeps_intros basics publishes)

theorem Invalidate: "keeps (InvalidateTag c ctx tag) P"
  unfolding InvalidateTag_def by (intro keeps_intros basics publishes)

theorem Event: "keeps (onEvent c e) P"
  unfolding onEvent_def by (intro keeps_intros basics)

theorem Closes: "keeps (Close c) P"
  unfolding Close_def by (intro keeps_intros basics)

theorem call: "P w \<Longrightarrow> P (cache_call c call w)"
  using Get GetOrLoad Set Delete Invalidate Event Closes by (cases call) (auto simp: keeps_def)

theorem calls: "P w \<Longrightarrow> P (cache_calls c cs w)"
  by (induction cs arbitrary: w) (simp_all add: cache_calls_def call)

end

section \<open>Interpretations\<close>

text \<open>The trace only grows, and only by events that name this cache and keep its keys to themselves.\<close>

definition reported :: "('x, 'k, 'v) cache \<Rightarrow> hook_event list \<Rightarrow> 'x world \<Rightarrow> bool" where
  "reported c tr w \<longleftrightarrow> (\<exists>es. w_trace w = tr @ es
     \<and> (\<forall>e \<in> set es. he_ns e = namespace c \<and> (\<not> ca_hookKeys c \<longrightarrow> he_key e = '''')))"

interpretation reports: cache_invariant c "reported c tr" for c :: "('x, 'k, 'v) cache" and tr
proof unfold_locales
  fix w :: "'x world" and e
  assume r: "reported c tr w" and e: "he_ns e = namespace c" "\<not> ca_hookKeys c \<Longrightarrow> he_key e = ''''"
  obtain es where es: "w_trace w = tr @ es"
    "\<forall>e \<in> set es. he_ns e = namespace c \<and> (\<not> ca_hookKeys c \<longrightarrow> he_key e = '''')"
    using r by (auto simp: reported_def)
  then show "reported c tr (w\<lparr>w_trace := w_trace w @ [e]\<rparr>)"
    unfolding reported_def using e by (intro exI [of _ "es @ [e]"]) auto
qed (simp_all add: reported_def)

interpretation bounds: cache_invariant c "\<lambda>w. gc_bounded (w_gens w)" for c :: "('x, 'k, 'v) cache"
  by unfold_locales (simp_all add: gc_put_bounded gc_drop_bounded MaxTags_def maxCachedGens_def)

section \<open>Properties\<close>

lemma calls_withhold_keys:
  assumes "\<not> ca_hookKeys c"
  shows "\<exists>es. w_trace (cache_calls c cs w) = w_trace w @ es
    \<and> (\<forall>e \<in> set es. he_ns e = namespace c \<and> he_key e = '''')"
proof -
  have "reported c (w_trace w) w" by (simp add: reported_def)
  then have "reported c (w_trace w) (cache_calls c cs w)" by (rule reports.calls)
  then show ?thesis using assms by (simp add: reported_def)
qed

text \<open>C29. Hook events carry the cache's namespace, and without \<open>WithHookKeys\<close> none of them ever carries a
  consumer key, whatever sequence of operations runs and whatever events the bus delivers; and
  nothing already reported is lost.\<close>

theorem hooks_withhold_keys:
  assumes "\<not> ca_hookKeys c"
  shows "\<exists>es. w_trace (cache_calls c cs w) = w_trace w @ es
    \<and> (\<forall>e \<in> set es. he_ns e = namespace c \<and> he_key e = '''')"
  by (rule calls_withhold_keys [OF assms])

text \<open>The local copy of tag generations stays within its bound through any sequence of operations
  and bus events, forged ones included.\<close>

theorem cache_gens_bounded:
  assumes "w_gens w = newGenCache d"
  shows "map_len (g_m (w_gens (cache_calls c cs w))) \<le> maxCachedGens
    \<and> map_len (g_drops (w_gens (cache_calls c cs w))) \<le> maxCachedGens"
  using bounds.calls [of w c cs] assms gc_newGenCache_bounded [of d] by (simp add: gc_bounded_def)

end
