(* ===== verification/CacheRead.thy ===== *)
theory CacheRead
  imports CacheKeeps
begin

text \<open>
  What a read may return, for any stores, codec and clock: the errors that leave \<open>Get\<close>, and the
  entries a hit may come from.  \<open>res m R\<close> says that every result of \<open>m\<close> satisfies \<open>R\<close>, in whatever
  world it starts.
\<close>

section \<open>Results\<close>

definition res :: "('s, 'a) state \<Rightarrow> ('a \<Rightarrow> bool) \<Rightarrow> bool" where
  "res m R \<longleftrightarrow> (\<forall>w. R (fst (run_state m w)))"

named_theorems res_intros

lemma res_return [res_intros]: "R a \<Longrightarrow> res (State_Monad.return a) R"
  by (simp add: res_def State_Monad.return_def)

lemma res_bind: "res m R' \<Longrightarrow> (\<And>a. R' a \<Longrightarrow> res (f a) R) \<Longrightarrow> res (m \<bind> f) R"
  by (simp add: res_def State_Monad.bind_def split_beta)

lemma res_any [res_intros]: "(\<And>a. res (f a) R) \<Longrightarrow> res (m \<bind> f) R"
  by (simp add: res_def State_Monad.bind_def split_beta)

lemma res_ext: "res (ext f) (\<lambda>a. \<exists>x. fst (f x) = a)"
  by (auto simp: res_def ext_def split_beta)

lemma res_wp: "res m R \<Longrightarrow> wp m (\<lambda>a w. R a) w"
  by (simp add: res_def wp_run)

lemma res_run: "res m R \<Longrightarrow> run_state m w = (a, w') \<Longrightarrow> R a"
  by (metis res_def fst_conv)

lemma res_if [res_intros]: "(b \<Longrightarrow> res m R) \<Longrightarrow> (\<not> b \<Longrightarrow> res m' R) \<Longrightarrow> res (if b then m else m') R"
  by simp

lemma res_option [res_intros]:
  "(x = None \<Longrightarrow> res a R) \<Longrightarrow> (\<And>y. x = Some y \<Longrightarrow> res (b y) R) \<Longrightarrow>
   res (case x of None \<Rightarrow> a | Some y \<Rightarrow> b y) R"
  by (cases x) simp_all

lemma res_sum [res_intros]:
  "(\<And>y. x = Inl y \<Longrightarrow> res (a y) R) \<Longrightarrow> (\<And>y. x = Inr y \<Longrightarrow> res (b y) R) \<Longrightarrow>
   res (case x of Inl y \<Rightarrow> a y | Inr y \<Rightarrow> b y) R"
  by (cases x) simp_all

lemma res_prod [res_intros]:
  "(\<And>y z. x = (y, z) \<Longrightarrow> res (a y z) R) \<Longrightarrow> res (case x of (y, z) \<Rightarrow> a y z) R"
  by (cases x) simp

lemma res_let [res_intros]: "res (f x) R \<Longrightarrow> res (let y = x in f y) R"
  by simp

text \<open>\<open>spec J m R\<close>: from a world that satisfies \<open>J\<close>, \<open>m\<close> gives a result that satisfies \<open>R\<close>, in such a world again.\<close>

definition spec :: "('s \<Rightarrow> bool) \<Rightarrow> ('s, 'a) state \<Rightarrow> ('a \<Rightarrow> bool) \<Rightarrow> bool" where
  "spec J m R \<longleftrightarrow> (\<forall>w. J w \<longrightarrow> R (fst (run_state m w)) \<and> J (snd (run_state m w)))"

named_theorems spec_intros

lemma spec_return [spec_intros]: "R a \<Longrightarrow> spec J (State_Monad.return a) R"
  by (simp add: spec_def State_Monad.return_def)

lemma spec_bind: "spec J m R' \<Longrightarrow> (\<And>a. R' a \<Longrightarrow> spec J (f a) R) \<Longrightarrow> spec J (m \<bind> f) R"
  by (simp add: spec_def State_Monad.bind_def split_beta)

lemma spec_if [spec_intros]: "(b \<Longrightarrow> spec J m R) \<Longrightarrow> (\<not> b \<Longrightarrow> spec J m' R) \<Longrightarrow> spec J (if b then m else m') R"
  by simp

lemma spec_option [spec_intros]:
  "(x = None \<Longrightarrow> spec J a R) \<Longrightarrow> (\<And>y. x = Some y \<Longrightarrow> spec J (b y) R) \<Longrightarrow>
   spec J (case x of None \<Rightarrow> a | Some y \<Rightarrow> b y) R"
  by (cases x) simp_all

lemma spec_sum [spec_intros]:
  "(\<And>y. x = Inl y \<Longrightarrow> spec J (a y) R) \<Longrightarrow> (\<And>y. x = Inr y \<Longrightarrow> spec J (b y) R) \<Longrightarrow>
   spec J (case x of Inl y \<Rightarrow> a y | Inr y \<Rightarrow> b y) R"
  by (cases x) simp_all

lemma spec_prod [spec_intros]:
  "(\<And>y z. x = (y, z) \<Longrightarrow> spec J (a y z) R) \<Longrightarrow> spec J (case x of (y, z) \<Rightarrow> a y z) R"
  by (cases x) simp

lemma spec_res: "keeps m J \<Longrightarrow> res m R \<Longrightarrow> spec J m R"
  by (simp add: spec_def keeps_def res_def)

lemma spec_keeps: "keeps m J \<Longrightarrow> spec J m (\<lambda>_. True)"
  by (simp add: spec_def keeps_def)

lemma specD: "spec J m R \<Longrightarrow> J w \<Longrightarrow> R (fst (run_state m w))"
  by (simp add: spec_def)

lemma res_spec: "res m R = spec (\<lambda>_. True) m R"
  by (simp add: res_def spec_def)

section \<open>Entries\<close>

text \<open>What \<open>ctx.Err()\<close> can say, what a level can have returned, and which data \<open>checked\<close> lets through.\<close>

definition ctx_error :: "('x, 'k, 'v) cache \<Rightarrow> ctx \<Rightarrow> error \<Rightarrow> bool" where
  "ctx_error c ctx e \<longleftrightarrow> (\<exists>x. fst (rt_Err (ca_rt c) ctx x) = Some e)"

lemma res_ctxErr: "res (ctxErr c ctx) (\<lambda>a. \<forall>e. a = Some e \<longrightarrow> ctx_error c ctx e)"
  unfolding ctxErr_def ctx_error_def by (simp add: res_def ext_def split_beta) blast

definition stored :: "('x, 'k, 'v) cache \<Rightarrow> ctx \<Rightarrow> slot \<Rightarrow> bytes \<Rightarrow> bool" where
  "stored c ctx s data \<longleftrightarrow>
     (\<exists>st x. (ca_l1 c = Some st \<or> ca_l2 c = Some st) \<and> fst (st_Get st ctx (sl_pk s) x) = Inr (Some data))
     \<or> (\<exists>x gs. fst (ts_GetTagged (ca_auth c) ctx (sl_pk s) (sl_genKeys s) (ca_genTTL c) x) = Inr (Some data, gs))"

definition usable :: "('x, 'k, 'v) cache \<Rightarrow> bytes \<Rightarrow> entry \<Rightarrow> bool" where
  "usable c data e \<longleftrightarrow> Decode data (ca_maxValue c) = Inr e \<and> Codec e = ca_codecID c
     \<and> (\<exists>x. fst (rt_Now (ca_rt c) x) < Expires e)"

text \<open>What an entry may give a reader: its value, or the absence it remembers.  The last case is a codec
  whose own error is \<open>ErrNotFound\<close>.\<close>

definition gives :: "('x, 'k, 'v) cache \<Rightarrow> entry \<Rightarrow> 'v option result \<Rightarrow> bool" where
  "gives c e r \<longleftrightarrow>
     (if Absent e then r = Inl ErrNotFound
      else case cd_Unmarshal (ca_codec c) (Payload e) of
        Inr v \<Rightarrow> r = Inr (Some v)
      | Inl err \<Rightarrow> r = Inl (Wrap ''cistern: decoding value: %w'' [err]) \<and> errors_Is err ErrNotFound)"

lemma res_checked:
  "res (checked c ctx key level data) (\<lambda>r. \<forall>e. r = Some e \<longrightarrow> usable c data e)"
proof -
  have last: "res (now c \<bind> (\<lambda>t. State_Monad.return (if \<not> t < Expires e then None else Some e)))
      (\<lambda>r. \<forall>e. r = Some e \<longrightarrow> usable c data e)"
    if "Decode data (ca_maxValue c) = Inr e" "Codec e = ca_codecID c" for e
    unfolding now_def
    by (rule res_bind [OF res_ext], rule res_return) (use that in \<open>auto simp: usable_def\<close>)
  show ?thesis unfolding checked_def
    by (rule res_let, rule res_sum, rule res_any, rule res_return, simp,
        rule last) (auto split: sum.splits if_splits)
qed

lemma res_served: "res (served c ctx key level e) (\<lambda>r. taken r \<longrightarrow> gives c e (map_sum id Some r))"
  unfolding served_def
  by (intro res_intros) (auto simp: gives_def taken_def decode_def ErrNotFound_def split: sum.splits if_splits)

lemma res_serveIf:
  "res (serveIf c ctx s level e gens)
    (\<lambda>r. \<forall>r'. r = Some r' \<longrightarrow> (\<exists>e'. e = Some e' \<and> Gens e' = elems gens \<and> gives c e' r'))"
  unfolding serveIf_def
  by (rule res_option, rule res_return, simp, rule res_if, rule res_return, simp,
      rule res_bind [OF res_served], rule res_return) auto

section \<open>Untagged reads\<close>

definition plain_ok :: "('x, 'k, 'v) cache \<Rightarrow> ctx \<Rightarrow> slot \<Rightarrow> 'v option result \<Rightarrow> bool" where
  "plain_ok c ctx s r \<longleftrightarrow> r = Inr None \<or> (\<exists>e. r = Inl e \<and> ctx_error c ctx e)
     \<or> (\<exists>data e. stored c ctx s data \<and> usable c data e \<and> gives c e r)"

lemma res_readLevels:
  "\<forall>st level. (Some st, level) \<in> set lvs \<longrightarrow> ca_l1 c = Some st \<or> ca_l2 c = Some st \<Longrightarrow>
   res (readLevels c ctx s lvs) (plain_ok c ctx s)"
proof (induction lvs)
  case Nil
  show ?case unfolding readLevels.simps by (intro res_intros) (simp add: plain_ok_def)
next
  case (Cons lv lvs)
  obtain store level where lv: "lv = (store, level)" by (cases lv)
  have IH: "res (readLevels c ctx s lvs) (plain_ok c ctx s)" by (rule Cons.IH) (use Cons.prems in auto)
  show ?case
  proof (cases store)
    case None
    then show ?thesis using IH lv by simp
  next
    case (Some st)
    then have st: "ca_l1 c = Some st \<or> ca_l2 c = Some st" using Cons.prems lv by simp
    show ?thesis unfolding lv Some readLevels.simps
    proof (rule res_bind [OF res_ext], unfold ctxErr_def, rule res_bind [OF res_ext])
      fix got ce
      assume got: "\<exists>x. fst (st_Get st ctx (sl_pk s) x) = got"
        and ce: "\<exists>x. fst (rt_Err (ca_rt c) ctx x) = ce"
      show "res (case ce of Some e \<Rightarrow> State_Monad.return (Inl e)
     | None \<Rightarrow>
         case got of
           Inl err \<Rightarrow> do { _ \<leftarrow> onError c ctx (sl_key s) OpRead level err; readLevels c ctx s lvs }
         | Inr None \<Rightarrow> readLevels c ctx s lvs
         | Inr (Some data) \<Rightarrow> do {
             e \<leftarrow> checked c ctx (sl_key s) level data;
             case e of
               None \<Rightarrow> readLevels c ctx s lvs
             | Some e \<Rightarrow> do {
                 r \<leftarrow> served c ctx (sl_key s) level e;
                 if \<not> taken r then readLevels c ctx s lvs
                 else do {
                   _ \<leftarrow> (case ca_l1 c of
                       Some l1 \<Rightarrow> if level = LevelL2 then backfill c l1 ctx s data (Expires e)
                                 else State_Monad.return ()
                     | None \<Rightarrow> State_Monad.return ());
                   State_Monad.return (map_sum id Some r) } } }) (plain_ok c ctx s)"
      proof (intro res_option res_sum)
        fix e assume "ce = Some e"
        then show "res (State_Monad.return (Inl e)) (plain_ok c ctx s)"
          using ce by (intro res_return) (auto simp: plain_ok_def ctx_error_def)
      next
        fix d data assume "got = Inr d" "d = Some data"
        then have data: "stored c ctx s data" using got st by (auto simp: stored_def)
        show "res (do {
             e \<leftarrow> checked c ctx (sl_key s) level data;
             case e of
               None \<Rightarrow> readLevels c ctx s lvs
             | Some e \<Rightarrow> do {
                 r \<leftarrow> served c ctx (sl_key s) level e;
                 if \<not> taken r then readLevels c ctx s lvs
                 else do {
                   _ \<leftarrow> (case ca_l1 c of
                       Some l1 \<Rightarrow> if level = LevelL2 then backfill c l1 ctx s data (Expires e)
                                 else State_Monad.return ()
                     | None \<Rightarrow> State_Monad.return ());
                   State_Monad.return (map_sum id Some r) } } }) (plain_ok c ctx s)"
          by (rule res_bind [OF res_checked], rule res_option [OF IH], rule res_bind [OF res_served],
              rule res_if [OF IH], rule res_any, rule res_return)
            (use data in \<open>auto simp: plain_ok_def\<close>)
      qed (auto intro: IH res_any)
    qed
  qed
qed

lemma res_readPlain: "res (readPlain c ctx s) (plain_ok c ctx s)"
  unfolding readPlain_def by (rule res_readLevels) auto

section \<open>Tagged reads\<close>

lemma keeps_gens_ext: "keeps (ext f) (\<lambda>w. w_gens w = g)"
  by (rule keepsI) (simp add: wp_simps)

lemma keeps_gens_hook: "keeps (call_hook hk ctx e) (\<lambda>w. w_gens w = g)"
  by (rule keepsI) (simp add: wp_simps)

lemma keeps_gens_readLocal: "keeps (readLocal c ctx s) (\<lambda>w. w_gens w = g)"
  unfolding readLocal_def checked_def ctxErr_def now_def onError_def
  by (intro keeps_intros keeps_gens_ext keeps_gens_hook)

definition local_ok :: "('x, 'k, 'v) cache \<Rightarrow> ctx \<Rightarrow> slot \<Rightarrow> entry option \<Rightarrow> bool" where
  "local_ok c ctx s e \<longleftrightarrow> (\<forall>e'. e = Some e' \<longrightarrow> (\<exists>data. stored c ctx s data \<and> usable c data e'))"

lemma res_readLocal:
  assumes "ca_gens c \<longrightarrow> ca_l1 c \<noteq> None"
  shows "res (readLocal c ctx s)
    (\<lambda>r. (\<exists>e. r = Inl e \<and> ctx_error c ctx e) \<or> (\<exists>e. r = Inr e \<and> local_ok c ctx s e))"
    (is "res _ ?R")
proof (cases "ca_gens c")
  case False
  then show ?thesis by (simp add: readLocal_def res_return local_ok_def)
next
  case True
  with assms obtain l1 where l1: "ca_l1 c = Some l1" by auto
  have none: "?R (Inr None)" by (simp add: local_ok_def)
  have data: "res (do { e \<leftarrow> checked c ctx (sl_key s) LevelL1 data; State_Monad.return (Inr e) }) ?R"
    if "fst (st_Get l1 ctx (sl_pk s) x) = Inr (Some data)" for x data
    by (rule res_bind [OF res_checked], rule res_return)
      (use that l1 in \<open>auto simp: local_ok_def stored_def\<close>)
  show ?thesis unfolding readLocal_def l1 option.case ctxErr_def
  proof (rule res_if, use True in simp, rule res_bind [OF res_ext], rule res_bind [OF res_ext],
      intro res_option res_sum)
    fix got ce e assume "\<exists>x. fst (rt_Err (ca_rt c) ctx x) = ce" "ce = Some e"
    then show "res (State_Monad.return (Inl e)) ?R" by (intro res_return) (auto simp: ctx_error_def)
  next
    fix got err
    show "res (do { _ \<leftarrow> onError c ctx (sl_key s) OpRead LevelL1 err; State_Monad.return (Inr None) }) ?R"
      by (rule res_any, rule res_return, rule none)
  next
    show "res (State_Monad.return (Inr None)) ?R" by (rule res_return, rule none)
  next
    fix got d dat
    assume "\<exists>x. fst (st_Get l1 ctx (sl_pk s) x) = got" "got = Inr d" "d = Some dat"
    then show "res (do { e \<leftarrow> checked c ctx (sl_key s) LevelL1 dat; State_Monad.return (Inr e) }) ?R"
      using data by auto
  qed
qed

text \<open>The gens of the authoritative level, and the reads of the local copy.\<close>

definition authority :: "('x, 'k, 'v) cache \<Rightarrow> ctx \<Rightarrow> slot \<Rightarrow> gens \<Rightarrow> bool" where
  "authority c ctx s gens \<longleftrightarrow>
     (\<exists>x v. fst (ts_GetTagged (ca_auth c) ctx (sl_pk s) (sl_genKeys s) (ca_genTTL c) x) = Inr (v, gens))"

definition tagged_ok :: "('x, 'k, 'v) cache \<Rightarrow> ctx \<Rightarrow> slot \<Rightarrow> (gens \<Rightarrow> bool) \<Rightarrow>
    'v option result \<times> gens \<Rightarrow> bool" where
  "tagged_ok c ctx s L rg \<longleftrightarrow> fst rg = Inr None \<or> (\<exists>e. fst rg = Inl e \<and> ctx_error c ctx e)
     \<or> (\<exists>data e. stored c ctx s data \<and> usable c data e \<and> gives c e (fst rg) \<and> Gens e = elems (snd rg)
          \<and> L (snd rg))"

text \<open>\<open>GetTagged\<close> returns one generation per key.\<close>

definition answers_all :: "'x TagStore \<Rightarrow> bool" where
  "answers_all t \<longleftrightarrow> (\<forall>ctx k gks ttl x v gs. fst (ts_GetTagged t ctx k gks ttl x) = Inr (v, gs) \<longrightarrow>
     length (elems gs) = length gks)"

lemma gc_store_ok: "length ks \<le> length gs \<Longrightarrow> snd (gc_store mp e ks gs)"
  by (induction mp e ks gs rule: gc_store.induct) auto

lemma gc_put_ok: "length ks \<le> length gs \<Longrightarrow> snd (gc_put g t ks gs ep)"
  by (auto simp: gc_put_def Let_def split_beta gc_store_ok)

lemma res_gens_put: "length (sl_genKeys s) \<le> length (elems gens) \<Longrightarrow> res (gens_put c s gens ep) (\<lambda>ok. ok)"
  unfolding gens_put_def
  by (intro res_any res_prod res_let res_return) (metis gc_put_ok snd_conv)

text \<open>The read of the authoritative level keeps \<open>J\<close>, and a hit has generations in \<open>A\<close>, when its parts do and what
  the level answers is in \<open>A\<close>.\<close>

lemma spec_readAuth:
  assumes l: "local_ok c ctx s e"
    and parts: "\<And>hk e. keeps (call_hook hk ctx e) J" "keeps (now c) J" "keeps (ctxErr c ctx) J"
    and fill: "\<And>l1 dat x. ca_l1 c = Some l1 \<Longrightarrow> keeps (backfill c l1 ctx s dat x) J"
    and got: "spec J (ext (ts_GetTagged (ca_auth c) ctx (sl_pk s) (sl_genKeys s) (ca_genTTL c)))
      (\<lambda>r. \<forall>v g. r = Inr (v, g) \<longrightarrow> A g \<and> (\<forall>dat. v = Some dat \<longrightarrow> stored c ctx s dat))"
    and put: "\<And>g since. A g \<Longrightarrow> spec J (gens_put c s g since) (\<lambda>ok. ok)"
  shows "spec J (readAuth c ctx s e) (tagged_ok c ctx s A)"
    (is "spec J _ ?R")
proof -
  have hooks: "keeps (onHit c ctx key level absent) J" "keeps (onMiss c ctx key) J" "keeps (onError c ctx key op level er) J"
    for key level absent op er
    by (simp_all add: onHit_def onMiss_def onError_def parts)
  have checks: "keeps (checked c ctx key level dat) J" for key level dat
    unfolding checked_def by (intro keeps_intros hooks parts)
  have serves: "keeps (serveIf c ctx s level e g) J" for level e g
    unfolding serveIf_def served_def by (intro keeps_intros hooks)
  have epoch: "keeps (gens_epoch s) J" by (rule keepsI) (simp add: gens_epoch_def wp_simps)
  have miss: "?R (Inr None, g)" for g by (simp add: tagged_ok_def)
  have serve: "\<forall>r'. r = Some r' \<longrightarrow> ?R (r', g)"
    if "\<forall>r'. r = Some r' \<longrightarrow> (\<exists>e'. e = Some e' \<and> Gens e' = elems g \<and> gives c e' r')"
      "local_ok c ctx s e" "A g" for e r g
    using that by (fastforce simp: tagged_ok_def local_ok_def)
  have missed: "spec J (do { _ \<leftarrow> onMiss c ctx (sl_key s); State_Monad.return (Inr None, g) }) ?R" for g
    by (rule spec_bind [OF spec_keeps [OF hooks(2)] spec_return [where R = ?R, OF miss]])
  have fin: "spec J (do {
                   e \<leftarrow> (case dat of None \<Rightarrow> State_Monad.return None
                     | Some data \<Rightarrow> checked c ctx (sl_key s) authLevel data);
                   r \<leftarrow> serveIf c ctx s authLevel e current;
                   case r of
                     Some r \<Rightarrow> do {
                       _ \<leftarrow> (case ca_l1 c of
                           Some l1 \<Rightarrow> if ca_gens c
                             then backfill c l1 ctx s (the dat) (Expires (the e))
                             else State_Monad.return ()
                         | None \<Rightarrow> State_Monad.return ());
                       State_Monad.return (r, current) }
                   | None \<Rightarrow> do {
                       _ \<leftarrow> onMiss c ctx (sl_key s);
                       State_Monad.return (Inr None, current) } }) ?R"
    if a: "A current" and st: "\<forall>d. dat = Some d \<longrightarrow> stored c ctx s d"
    for dat current authLevel
  proof (rule spec_bind [where R' = "local_ok c ctx s"])
    show "spec J (case dat of None \<Rightarrow> State_Monad.return None
        | Some data \<Rightarrow> checked c ctx (sl_key s) authLevel data) (local_ok c ctx s)"
    proof (rule spec_option)
      fix data assume "dat = Some data"
      then have "res (checked c ctx (sl_key s) authLevel data) (local_ok c ctx s)"
        using st res_checked [of c ctx "sl_key s" authLevel data] by (auto simp: res_def local_ok_def)
      then show "spec J (checked c ctx (sl_key s) authLevel data) (local_ok c ctx s)" by (rule spec_res [OF checks])
    qed (simp add: spec_return local_ok_def)
  next
    fix e' assume e': "local_ok c ctx s e'"
    have fill': "keeps (case ca_l1 c of
                           Some l1 \<Rightarrow> if ca_gens c
                             then backfill c l1 ctx s (the dat) (Expires (the e'))
                             else State_Monad.return ()
                         | None \<Rightarrow> State_Monad.return ()) J"
      by (intro keeps_intros fill)
    show "spec J (do {
                   r \<leftarrow> serveIf c ctx s authLevel e' current;
                   case r of
                     Some r \<Rightarrow> do {
                       _ \<leftarrow> (case ca_l1 c of
                           Some l1 \<Rightarrow> if ca_gens c
                             then backfill c l1 ctx s (the dat) (Expires (the e'))
                             else State_Monad.return ()
                         | None \<Rightarrow> State_Monad.return ());
                       State_Monad.return (r, current) }
                   | None \<Rightarrow> do {
                       _ \<leftarrow> onMiss c ctx (sl_key s);
                       State_Monad.return (Inr None, current) } }) ?R"
      by (rule spec_bind [OF spec_res [OF serves res_serveIf]], rule spec_option, rule missed,
          rule spec_bind [OF spec_keeps [OF fill']], rule spec_return)
        (use serve [OF _ e' a] in auto)
  qed
  have ce: "spec J (ctxErr c ctx) (\<lambda>a. \<forall>e. a = Some e \<longrightarrow> ctx_error c ctx e)"
    by (rule spec_res [OF parts(3) res_ctxErr])
  show ?thesis unfolding readAuth_def Let_def
  proof (rule spec_bind [OF spec_keeps [OF epoch]], rule spec_bind [OF got], rule spec_bind [OF ce],
      intro spec_option spec_sum spec_prod)
    fix since got ce er
    assume "\<forall>e. ce = Some e \<longrightarrow> ctx_error c ctx e" "ce = Some er"
    then show "spec J (State_Monad.return (Inl er, None)) ?R"
      by (intro spec_return) (auto simp: tagged_ok_def)
  next
    fix since got ce er
    show "spec J (do {
             _ \<leftarrow> onError c ctx (sl_key s) OpRead (if ca_l2 c \<noteq> None then LevelL2 else LevelL1) er;
             _ \<leftarrow> onMiss c ctx (sl_key s);
             State_Monad.return (Inr None, None) }) ?R"
      by (rule spec_bind [OF spec_keeps [OF hooks(3)] missed])
  next
    fix since got ce d dat current
    assume r: "\<forall>v g. got = Inr (v, g) \<longrightarrow> A g \<and> (\<forall>dat. v = Some dat \<longrightarrow> stored c ctx s dat)"
      "got = Inr d" "d = (dat, current)"
    then have a: "A current" and st: "\<forall>d. dat = Some d \<longrightarrow> stored c ctx s d" by auto
    have puts: "spec J (if ca_gens c then gens_put c s current since else State_Monad.return True) (\<lambda>ok. ok)"
      by (rule spec_if, rule put [OF a], rule spec_return) simp
    show "spec J (do {
             ok \<leftarrow> (if ca_gens c then gens_put c s current since else State_Monad.return True);
             if \<not> ok then State_Monad.return (Inl (Panic ''index out of range''), None)
             else do {
               r \<leftarrow> serveIf c ctx s LevelL1 e current;
               case r of Some r \<Rightarrow> State_Monad.return (r, current)
               | None \<Rightarrow> do {
                   e \<leftarrow> (case dat of None \<Rightarrow> State_Monad.return None
                     | Some data \<Rightarrow> checked c ctx (sl_key s) (if ca_l2 c \<noteq> None then LevelL2 else LevelL1) data);
                   r \<leftarrow> serveIf c ctx s (if ca_l2 c \<noteq> None then LevelL2 else LevelL1) e current;
                   case r of
                     Some r \<Rightarrow> do {
                       _ \<leftarrow> (case ca_l1 c of
                           Some l1 \<Rightarrow> if ca_gens c
                             then backfill c l1 ctx s (the dat) (Expires (the e))
                             else State_Monad.return ()
                         | None \<Rightarrow> State_Monad.return ());
                       State_Monad.return (r, current) }
                   | None \<Rightarrow> do {
                       _ \<leftarrow> onMiss c ctx (sl_key s);
                       State_Monad.return (Inr None, current) } } } }) ?R"
      by (rule spec_bind [OF puts], rule spec_if, simp, rule spec_bind [OF spec_res [OF serves res_serveIf]], rule spec_option,
          rule fin [OF a st], rule spec_return)
        (use serve [OF _ l a] in auto)
  qed
qed

lemma res_readAuth:
  assumes l: "local_ok c ctx s e" and all: "answers_all (ca_auth c)"
  shows "res (readAuth c ctx s e) (tagged_ok c ctx s (authority c ctx s))"
  unfolding res_spec
proof (rule spec_readAuth [OF l])
  let ?A = "\<lambda>g. authority c ctx s g \<and> length (sl_genKeys s) \<le> length (elems g)"
  show "spec (\<lambda>_. True) (ext (ts_GetTagged (ca_auth c) ctx (sl_pk s) (sl_genKeys s) (ca_genTTL c)))
      (\<lambda>r. \<forall>v g. r = Inr (v, g) \<longrightarrow> authority c ctx s g \<and> (\<forall>dat. v = Some dat \<longrightarrow> stored c ctx s dat))"
    by (auto simp: spec_def ext_def split_beta authority_def stored_def)
next
  fix g since assume "authority c ctx s g"
  then have "length (sl_genKeys s) \<le> length (elems g)" using all unfolding authority_def answers_all_def by (metis order_refl)
  then show "spec (\<lambda>_. True) (gens_put c s g since) (\<lambda>ok. ok)" using res_gens_put by (simp add: res_spec)
qed (simp_all add: keeps_def)

text \<open>The whole tagged read.  The local copy it may answer from is the one before the read.\<close>

definition local_gens :: "('x, 'k, 'v) cache \<Rightarrow> genCache \<Rightarrow> slot \<Rightarrow> gens \<Rightarrow> bool" where
  "local_gens c g s gens \<longleftrightarrow> ca_gens c \<and> gens \<noteq> None
     \<and> (\<exists>x. gc_get g (fst (rt_Now (ca_rt c) x)) (sl_genKeys s) = gens)"

lemma tagged_ok_mono: "tagged_ok c ctx s L rg \<Longrightarrow> (\<And>g. L g \<Longrightarrow> L' g) \<Longrightarrow> tagged_ok c ctx s L' rg"
  unfolding tagged_ok_def by blast

lemma readTagged_ok:
  fixes c :: "('x, 'k, 'v) cache" and w :: "'x world"
  assumes l1: "ca_gens c \<longrightarrow> ca_l1 c \<noteq> None" and all: "answers_all (ca_auth c)"
  shows "wp (readTagged c ctx s)
    (\<lambda>rg w'. tagged_ok c ctx s (\<lambda>g. authority c ctx s g \<or> local_gens c (w_gens w) s g) rg) w"
    (is "wp _ (\<lambda>rg w'. ?R rg) w")
proof -
  have auth: "wp (readAuth c ctx s e) (\<lambda>rg w'. ?R rg) w'" if "local_ok c ctx s e" for e and w' :: "'x world"
    by (rule wp_mono [OF res_wp [OF res_readAuth [OF that all]]]) (auto elim: tagged_ok_mono)
  have step: "wp (readLocal c ctx s) (\<lambda>r w'. ((\<exists>e. r = Inl e \<and> ctx_error c ctx e) \<or>
      (\<exists>e. r = Inr e \<and> local_ok c ctx s e)) \<and> w_gens w' = w_gens w) w"
    by (rule wp_conj [OF res_wp [OF res_readLocal [OF l1]] keeps_wp [OF keeps_gens_readLocal]]) simp
  show ?thesis unfolding readTagged_def wp_bind
  proof (rule wp_mono [OF step])
    fix loc and w1 :: "'x world"
    assume h: "((\<exists>e. loc = Inl e \<and> ctx_error c ctx e) \<or> (\<exists>e. loc = Inr e \<and> local_ok c ctx s e))
      \<and> w_gens w1 = w_gens w"
    show "wp (case loc of Inl e \<Rightarrow> State_Monad.return (Inl e, None)
     | Inr local \<Rightarrow>
         if \<not> ca_gens c then readAuth c ctx s local
         else do {
           local_gens \<leftarrow> gens_get c s;
           case local_gens of
             None \<Rightarrow> readAuth c ctx s local
           | Some cached \<Rightarrow> do {
               r \<leftarrow> serveIf c ctx s LevelL1 local (Some cached);
               case r of Some r \<Rightarrow> State_Monad.return (r, Some cached)
               | None \<Rightarrow> readAuth c ctx s local } }) (\<lambda>rg w'. ?R rg) w1"
    proof (cases loc)
      case (Inl e)
      then show ?thesis using h by (auto simp: wp_simps tagged_ok_def)
    next
      case (Inr e)
      then have e: "local_ok c ctx s e" using h by auto
      show ?thesis
      proof (cases "ca_gens c")
        case False
        then show ?thesis using Inr auth [OF e] by simp
      next
        case True
        let ?t = "fst (rt_Now (ca_rt c) (w_ext w1))"
        have served: "wp (serveIf c ctx s LevelL1 e (Some cached))
            (\<lambda>r. wp (case r of Some r \<Rightarrow> State_Monad.return (r, Some cached) | None \<Rightarrow> readAuth c ctx s e)
              (\<lambda>rg w'. ?R rg)) w2"
          if cached: "gc_get (w_gens w) ?t (sl_genKeys s) = Some cached" for cached and w2 :: "'x world"
        proof (rule wp_mono [OF res_wp [OF res_serveIf]])
          fix r and w3 :: "'x world"
          assume r: "\<forall>r'. r = Some r' \<longrightarrow> (\<exists>e'. e = Some e' \<and> Gens e' = elems (Some cached) \<and> gives c e' r')"
          have "local_gens c (w_gens w) s (Some cached)" using True cached by (auto simp: local_gens_def)
          then have "?R (r', Some cached)" if "r = Some r'" for r'
            using r that e by (fastforce simp: tagged_ok_def local_ok_def)
          then show "wp (case r of Some r \<Rightarrow> State_Monad.return (r, Some cached) | None \<Rightarrow> readAuth c ctx s e)
              (\<lambda>rg w'. ?R rg) w3"
            using auth [OF e] by (cases r) (auto simp: wp_simps)
        qed
        show ?thesis using True Inr h served auth [OF e]
          by (auto simp: gens_get_def now_def wp_simps split: option.split)
      qed
    qed
  qed
qed

end
