(* ===== verification/TwoLevels.thy ===== *)
theory TwoLevels
  imports StoreLaws CacheRead
begin

text \<open>
  The cache over two stores that keep the contract of \<open>StoreLaws\<close>, without tags: what a write or a
  deletion means for the reads that follow.  The outside state is a triple: everything else (clock,
  contexts, bus), the state of L1, the state of L2.  The locale \<open>two_levels\<close> combines two contracts with
  the cache that uses them; it is interpreted with the in-process store at both levels.
\<close>

section \<open>Placing a component in the outside\<close>

type_synonym ('e, 'a, 'b) outside = "'e \<times> 'a \<times> 'b"

definition at_env :: "('e \<Rightarrow> 'r \<times> 'e) \<Rightarrow> ('e, 'a, 'b) outside \<Rightarrow> 'r \<times> ('e, 'a, 'b) outside" where
  "at_env f x = (case x of (e, a, b) \<Rightarrow> apsnd (\<lambda>e. (e, a, b)) (f e))"

definition at_l1 :: "('a \<Rightarrow> 'r \<times> 'a) \<Rightarrow> ('e, 'a, 'b) outside \<Rightarrow> 'r \<times> ('e, 'a, 'b) outside" where
  "at_l1 f x = (case x of (e, a, b) \<Rightarrow> apsnd (\<lambda>a. (e, a, b)) (f a))"

definition at_l2 :: "('b \<Rightarrow> 'r \<times> 'b) \<Rightarrow> ('e, 'a, 'b) outside \<Rightarrow> 'r \<times> ('e, 'a, 'b) outside" where
  "at_l2 f x = (case x of (e, a, b) \<Rightarrow> apsnd (\<lambda>b. (e, a, b)) (f b))"

lemma at_simps [simp]:
  "fst (at_env f (e, a, b)) = fst (f e)" "snd (at_env f (e, a, b)) = (snd (f e), a, b)"
  "fst (at_l1 g (e, a, b)) = fst (g a)" "snd (at_l1 g (e, a, b)) = (e, snd (g a), b)"
  "fst (at_l2 h (e, a, b)) = fst (h b)" "snd (at_l2 h (e, a, b)) = (e, a, snd (h b))"
  by (simp_all add: at_env_def at_l1_def at_l2_def apsnd_def map_prod_def split_beta)

definition on_l1 :: "'a Store \<Rightarrow> ('e, 'a, 'b) outside Store" where
  "on_l1 S = \<lparr>st_Get = (\<lambda>ctx k. at_l1 (st_Get S ctx k)), st_Set = (\<lambda>ctx k v ttl. at_l1 (st_Set S ctx k v ttl)),
     st_Delete = (\<lambda>ctx k. at_l1 (st_Delete S ctx k)),
     st_tags = map_option (\<lambda>t. \<lparr>ts_GetTagged = (\<lambda>ctx k gks ttl. at_l1 (ts_GetTagged t ctx k gks ttl)),
       ts_Bump = (\<lambda>ctx gks ttl. at_l1 (ts_Bump t ctx gks ttl))\<rparr>) (st_tags S)\<rparr>"

definition on_l2 :: "'b Store \<Rightarrow> ('e, 'a, 'b) outside Store" where
  "on_l2 S = \<lparr>st_Get = (\<lambda>ctx k. at_l2 (st_Get S ctx k)), st_Set = (\<lambda>ctx k v ttl. at_l2 (st_Set S ctx k v ttl)),
     st_Delete = (\<lambda>ctx k. at_l2 (st_Delete S ctx k)),
     st_tags = map_option (\<lambda>t. \<lparr>ts_GetTagged = (\<lambda>ctx k gks ttl. at_l2 (ts_GetTagged t ctx k gks ttl)),
       ts_Bump = (\<lambda>ctx gks ttl. at_l2 (ts_Bump t ctx gks ttl))\<rparr>) (st_tags S)\<rparr>"

definition rt_env :: "'e runtime \<Rightarrow> ('e, 'a, 'b) outside runtime" where
  "rt_env rt = \<lparr>rt_Err = (\<lambda>ctx. at_env (rt_Err rt ctx)), rt_Now = at_env (rt_Now rt),
     rt_Float64 = at_env (rt_Float64 rt), rt_trunc = rt_trunc rt,
     rt_flight = (\<lambda>ctx k d. at_env (rt_flight rt ctx k d))\<rparr>"

definition bus_env :: "'e Bus \<Rightarrow> ('e, 'a, 'b) outside Bus" where
  "bus_env b = \<lparr>b_Publish = (\<lambda>ctx ev. at_env (b_Publish b ctx ev)), b_Subscribe = at_env (b_Subscribe b),
     b_Unsubscribe = (\<lambda>n x. snd (at_env (\<lambda>e. ((), b_Unsubscribe b n e)) x))\<rparr>"

section \<open>Properties of the levels\<close>

text \<open>A property of the two levels alone.\<close>

definition inner :: "('a \<times> 'b \<Rightarrow> bool) \<Rightarrow> ('e, 'a, 'b) outside world \<Rightarrow> bool" where
  "inner Q w \<longleftrightarrow> Q (snd (w_ext w))"

lemma inner_simps [simp]:
  "inner Q (w\<lparr>w_trace := tr\<rparr>) = inner Q w" "inner Q (w\<lparr>w_gens := g\<rparr>) = inner Q w"
  by (simp_all add: inner_def)

lemma keeps_env: "keeps (ext (at_env f)) (inner Q)"
  by (rule keepsI) (auto simp: wp_simps inner_def at_env_def apsnd_def split: prod.splits)

lemma keeps_hook: "keeps (call_hook hk ctx e) (inner Q)"
  by (rule keepsI) (simp add: wp_simps)

lemma wp_l1: "wp (ext (at_l1 f)) Q w =
    Q (fst (f (fst (snd (w_ext w))))) (w\<lparr>w_ext := (fst (w_ext w), snd (f (fst (snd (w_ext w)))), snd (snd (w_ext w)))\<rparr>)"
  by (simp add: wp_simps at_l1_def split_beta)

lemma wp_l2: "wp (ext (at_l2 f)) Q w =
    Q (fst (f (snd (snd (w_ext w))))) (w\<lparr>w_ext := (fst (w_ext w), fst (snd (w_ext w)), snd (f (snd (snd (w_ext w)))))\<rparr>)"
  by (simp add: wp_simps at_l2_def split_beta)

lemma wp_keeps: "keeps m (inner Q) \<Longrightarrow> inner Q w \<Longrightarrow> (\<And>a w'. inner Q w' \<Longrightarrow> R a w') \<Longrightarrow> wp m R w"
  by (auto simp: keeps_def wp_run)

lemma keeps_bind_res: "keeps m I \<Longrightarrow> res m R \<Longrightarrow> (\<And>a. R a \<Longrightarrow> keeps (f a) I) \<Longrightarrow> keeps (m \<bind> f) I"
  by (simp add: keeps_def res_def State_Monad.bind_def split_beta)

text \<open>A property of a store's states that all its calls keep, the writes in \<open>W\<close> only; and what a read of a
  key can find where it holds.\<close>

definition store_keeps :: "'x Store \<Rightarrow> ('x \<Rightarrow> bool) \<Rightarrow> (string \<Rightarrow> bytes \<Rightarrow> duration \<Rightarrow> bool) \<Rightarrow> bool" where
  "store_keeps S P W \<longleftrightarrow>
     (\<forall>x ctx k. P x \<longrightarrow> P (snd (st_Get S ctx k x)) \<and> P (snd (st_Delete S ctx k x)))
     \<and> (\<forall>x ctx k v ttl. P x \<and> W k v ttl \<longrightarrow> P (snd (st_Set S ctx k v ttl x)))"

definition hits :: "'x Store \<Rightarrow> ('x \<Rightarrow> bool) \<Rightarrow> string \<Rightarrow> bytes set" where
  "hits S P k = {v. \<exists>x ctx. P x \<and> fst (st_Get S ctx k x) = Inr (Some v)}"

section \<open>The locale\<close>

locale two_levels =
  l1: store_laws S1 ok1 may1 + l2: store_laws S2 ok2 may2
  for S1 :: "'a Store" and ok1 may1 and S2 :: "'b Store" and ok2 may2 +
  fixes c :: "(('e, 'a, 'b) outside, 'k, 'v) cache" and rt :: "'e runtime"
  assumes l1: "ca_l1 c = Some (on_l1 S1)" and l2: "ca_l2 c = Some (on_l2 S2)"
    and rt: "ca_rt c = rt_env rt" and untagged: "ca_tagsFn c = None"
    and bus: "ca_bus c = None \<or> (\<exists>b. ca_bus c = Some (bus_env b))"
begin

text \<open>One property of each level.  They are guarded when each is kept by its store, and what a read finds in
  L2 may be written to L1.\<close>

definition levels :: "('a \<Rightarrow> bool) \<Rightarrow> ('b \<Rightarrow> bool) \<Rightarrow> ('e, 'a, 'b) outside world \<Rightarrow> bool" where
  "levels P Q = inner (\<lambda>x. P (fst x) \<and> Q (snd x))"

definition guards :: "('a \<Rightarrow> bool) \<Rightarrow> ('b \<Rightarrow> bool) \<Rightarrow> (string \<Rightarrow> bytes \<Rightarrow> duration \<Rightarrow> bool)
    \<Rightarrow> (string \<Rightarrow> bytes \<Rightarrow> bool) \<Rightarrow> bool" where
  "guards P Q W V \<longleftrightarrow> store_keeps S1 P W \<and> store_keeps S2 Q (\<lambda>k v _. V k v)
     \<and> (\<forall>k t. \<forall>v \<in> hits S2 Q k. t \<le> ca_l1TTL c \<longrightarrow> W k v t)"

lemma keeps_parts:
  "keeps (now c) (inner Q)" "keeps (ctxErr c ctx) (inner Q)"
  "keeps (onHit c ctx key level absent) (inner Q)" "keeps (onMiss c ctx key) (inner Q)"
  "keeps (onError c ctx key op level er) (inner Q)" "keeps (onInvalidate c ctx key tag rem) (inner Q)"
  "keeps (ext (rt_Float64 (ca_rt c))) (inner Q)"
  by (simp_all add: now_def ctxErr_def rt rt_env_def keeps_env onHit_def onMiss_def onError_def
      onInvalidate_def keeps_hook)

lemmas keeps_levels_parts = keeps_parts [where Q = "\<lambda>x. P (fst x) \<and> Q (snd x)" for P Q, folded levels_def]

lemma keeps_publish: "keeps (publish c ctx kind name) (inner Q)"
  using bus by (auto simp: publish_def bus_env_def intro!: keeps_intros keeps_env)

lemma keeps_on_l1: "(\<And>a. P a \<Longrightarrow> P (snd (f a))) \<Longrightarrow> keeps (ext (at_l1 f)) (levels P Q)"
  by (rule keepsI) (simp add: wp_l1 levels_def inner_def)

lemma keeps_on_l2: "(\<And>b. Q b \<Longrightarrow> Q (snd (f b))) \<Longrightarrow> keeps (ext (at_l2 f)) (levels P Q)"
  by (rule keepsI) (simp add: wp_l2 levels_def inner_def)

lemma keeps_gets:
  assumes "guards P Q W V"
  shows "keeps (ext (st_Get (on_l1 S1) ctx j)) (levels P Q)" "keeps (ext (st_Get (on_l2 S2) ctx j)) (levels P Q)"
  using assms unfolding on_l1_def on_l2_def Store.simps guards_def store_keeps_def
  by (simp_all add: keeps_on_l1 keeps_on_l2)

lemma keeps_dels:
  assumes "guards P Q W V"
  shows "keeps (ext (st_Delete (on_l1 S1) ctx j)) (levels P Q)" "keeps (ext (st_Delete (on_l2 S2) ctx j)) (levels P Q)"
  using assms unfolding on_l1_def on_l2_def Store.simps guards_def store_keeps_def
  by (simp_all add: keeps_on_l1 keeps_on_l2)

lemma keeps_sets:
  assumes "guards P Q W V"
  shows "W j v ttl \<Longrightarrow> keeps (ext (st_Set (on_l1 S1) ctx j v ttl)) (levels P Q)"
    "V j v \<Longrightarrow> keeps (ext (st_Set (on_l2 S2) ctx j v ttl)) (levels P Q)"
  using assms unfolding on_l1_def on_l2_def Store.simps guards_def store_keeps_def
  by (simp_all add: keeps_on_l1 keeps_on_l2)

lemma keeps_checked: "keeps (checked c ctx key level dat) (levels P Q)"
  unfolding checked_def by (intro keeps_intros keeps_levels_parts)

lemma keeps_served: "keeps (served c ctx key level e) (levels P Q)"
  unfolding served_def by (intro keeps_intros keeps_levels_parts)

lemma spec_gets:
  assumes "guards P Q W V"
  shows "spec (levels P Q) (ext (st_Get (on_l1 S1) ctx k)) (\<lambda>r. \<forall>v. r = Inr (Some v) \<longrightarrow> v \<in> hits S1 P k)"
    "spec (levels P Q) (ext (st_Get (on_l2 S2) ctx k)) (\<lambda>r. \<forall>v. r = Inr (Some v) \<longrightarrow> v \<in> hits S2 Q k)"
  using keeps_gets [OF assms, of ctx k]
  by (auto simp: spec_def keeps_def ext_def on_l1_def on_l2_def levels_def inner_def at_l1_def at_l2_def apsnd_def
      hits_def split_beta)

lemma keeps_backfill:
  assumes "guards P Q W V" "dat \<in> hits S2 Q (sl_pk s)"
  shows "keeps (backfill c (on_l1 S1) ctx s dat x) (levels P Q)"
  unfolding backfill_def Let_def
proof (intro keeps_intros keeps_levels_parts keeps_sets(1) [OF assms(1)])
  fix t show "W (sl_pk s) dat (min (ca_l1TTL c) (sat64 (x - t)))" using assms by (simp add: guards_def)
qed

text \<open>What a read answers then: a miss, the context's error, or what one of those entries gives.\<close>

definition answer :: "ctx \<Rightarrow> bytes set \<Rightarrow> 'v option result \<Rightarrow> bool" where
  "answer ctx D r \<longleftrightarrow> r = Inr None \<or> (\<exists>e. r = Inl e \<and> ctx_error c ctx e)
     \<or> (\<exists>dat \<in> D. \<exists>e. usable c dat e \<and> gives c e r)"

lemma read_level:
  assumes get: "spec (levels P Q) (ext (st_Get store ctx (sl_pk s))) (\<lambda>r. \<forall>v. r = Inr (Some v) \<longrightarrow> v \<in> D)"
    and D: "D \<subseteq> G" and fill: "\<And>dat x. level = LevelL2 \<Longrightarrow> dat \<in> D \<Longrightarrow> keeps (backfill c (on_l1 S1) ctx s dat x) (levels P Q)"
    and rest: "spec (levels P Q) (readLevels c ctx s lvs) (answer ctx G)"
  shows "spec (levels P Q) (readLevels c ctx s ((Some store, level) # lvs)) (answer ctx G)"
  unfolding readLevels.simps
proof (rule spec_bind [OF get])
  fix got :: "bytes option result" assume got: "\<forall>v. got = Inr (Some v) \<longrightarrow> v \<in> D"
  let ?J = "levels P Q"
  have ce: "spec ?J (ctxErr c ctx) (\<lambda>a. \<forall>e. a = Some e \<longrightarrow> ctx_error c ctx e)"
    by (rule spec_res [OF keeps_levels_parts(2) res_ctxErr])
  have after: "spec ?J (do { _ \<leftarrow> m; readLevels c ctx s lvs }) (answer ctx G)" if "keeps m ?J" for m :: "(_, unit) state"
    by (rule spec_bind [OF spec_keeps [OF that] rest])
  have hit: "spec ?J (do {
             e \<leftarrow> checked c ctx (sl_key s) level dat;
             case e of
               None \<Rightarrow> readLevels c ctx s lvs
             | Some e \<Rightarrow> do {
                 r \<leftarrow> served c ctx (sl_key s) level e;
                 if \<not> taken r then readLevels c ctx s lvs
                 else do {
                   _ \<leftarrow> (case ca_l1 c of
                       Some l1 \<Rightarrow> if level = LevelL2 then backfill c l1 ctx s dat (Expires e)
                                 else State_Monad.return ()
                     | None \<Rightarrow> State_Monad.return ());
                   State_Monad.return (map_sum id Some r) } } }) (answer ctx G)"
    if "dat \<in> D" for dat
  proof -
    have fill': "keeps (case ca_l1 c of
                       Some l1 \<Rightarrow> if level = LevelL2 then backfill c l1 ctx s dat (Expires e)
                                 else State_Monad.return ()
                     | None \<Rightarrow> State_Monad.return ()) ?J" for e
      unfolding l1 option.case by (intro keeps_intros fill that)
    show ?thesis
      by (rule spec_bind [OF spec_res [OF keeps_checked res_checked]], rule spec_option [OF rest],
          rule spec_bind [OF spec_res [OF keeps_served res_served]], rule spec_if [OF rest],
          rule spec_bind [OF spec_keeps [OF fill']], rule spec_return)
        (use that D in \<open>auto simp: answer_def\<close>)
  qed
  show "spec ?J (do {
     ce \<leftarrow> ctxErr c ctx;
     case ce of Some e \<Rightarrow> State_Monad.return (Inl e)
     | None \<Rightarrow>
         case got of
           Inl err \<Rightarrow> do { _ \<leftarrow> onError c ctx (sl_key s) OpRead level err; readLevels c ctx s lvs }
         | Inr None \<Rightarrow> readLevels c ctx s lvs
         | Inr (Some dat) \<Rightarrow> do {
             e \<leftarrow> checked c ctx (sl_key s) level dat;
             case e of
               None \<Rightarrow> readLevels c ctx s lvs
             | Some e \<Rightarrow> do {
                 r \<leftarrow> served c ctx (sl_key s) level e;
                 if \<not> taken r then readLevels c ctx s lvs
                 else do {
                   _ \<leftarrow> (case ca_l1 c of
                       Some l1 \<Rightarrow> if level = LevelL2 then backfill c l1 ctx s dat (Expires e)
                                 else State_Monad.return ()
                     | None \<Rightarrow> State_Monad.return ());
                   State_Monad.return (map_sum id Some r) } } } }) (answer ctx G)"
    by (rule spec_bind [OF ce], intro spec_option spec_sum, (rule after [OF keeps_levels_parts(5)])?,
        (rule rest)?, (rule hit, use got in blast)?, (rule spec_return, auto simp: answer_def)?)
qed

lemma read_plain:
  assumes "guards P Q W V"
  shows "spec (levels P Q) (readPlain c ctx s) (answer ctx (hits S1 P (sl_pk s) \<union> hits S2 Q (sl_pk s)))"
  unfolding readPlain_def l1 l2
proof (rule read_level [OF spec_gets(1) [OF assms]])
  let ?G = "hits S1 P (sl_pk s) \<union> hits S2 Q (sl_pk s)"
  have none: "spec (levels P Q) (readLevels c ctx s []) (answer ctx ?G)"
    by (auto simp: answer_def intro!: spec_bind [OF spec_keeps [OF keeps_levels_parts(4)]] spec_return)
  show "spec (levels P Q) (readLevels c ctx s [(Some (on_l2 S2), LevelL2)]) (answer ctx ?G)"
    by (rule read_level [OF spec_gets(2) [OF assms] _ keeps_backfill [OF assms] none]) simp
qed simp_all

lemma read_Get:
  assumes g: "guards P Q W V" and s: "slotFor c k = Inr s" and J: "levels P Q w"
    and D: "hits S1 P (sl_pk s) \<subseteq> D" "hits S2 Q (sl_pk s) \<subseteq> D"
  shows "answer ctx D (fst (run_state (Get c ctx k) w))"
proof -
  have "answer ctx G r \<Longrightarrow> G \<subseteq> D \<Longrightarrow> answer ctx D r" for G r by (auto simp: answer_def)
  then have plain: "spec (levels P Q) (readPlain c ctx s) (answer ctx D)"
    using read_plain [OF g, of ctx s] D unfolding spec_def by (meson Un_least)
  have ce: "spec (levels P Q) (ctxErr c ctx) (\<lambda>a. \<forall>e. a = Some e \<longrightarrow> ctx_error c ctx e)"
    by (rule spec_res [OF keeps_levels_parts(2) res_ctxErr])
  have read: "spec (levels P Q) (cache_read c ctx s) (\<lambda>rg. answer ctx D (fst rg))"
    using untagged by (auto simp: cache_read_def intro!: spec_bind [OF plain] spec_return)
  have "spec (levels P Q) (Get c ctx k) (answer ctx D)"
    unfolding Get_def s sum.case
    by (rule spec_bind [OF ce], rule spec_option, rule spec_bind [OF read])
      (auto simp: answer_def split_beta intro!: spec_return)
  then show ?thesis using J by (simp add: spec_def)
qed

text \<open>Neither level can give more for a key than the data in \<open>D\<close>.\<close>

definition holdings :: "string \<Rightarrow> bytes set \<Rightarrow> ('e, 'a, 'b) outside world \<Rightarrow> bool" where
  "holdings k D = levels (l1.confined k D) (l2.confined k D)"

definition other :: "string \<Rightarrow> bytes set \<Rightarrow> string \<Rightarrow> bytes \<Rightarrow> bool" where
  "other k D j v \<longleftrightarrow> (j = k \<longrightarrow> v \<in> D)"

lemma confined_keeps:
  "store_keeps S1 (l1.confined k D) (\<lambda>j v _. other k D j v)" "store_keeps S2 (l2.confined k D) (\<lambda>j v _. other k D j v)"
proof -
  have "l1.confined k D (snd (st_Set S1 ctx j v ttl x))" if "l1.confined k D x" "other k D j v" for ctx j v ttl x
    using that l1.confined_set l1.confined_set_other by (cases "j = k") (simp_all add: other_def)
  then show "store_keeps S1 (l1.confined k D) (\<lambda>j v _. other k D j v)"
    by (simp add: store_keeps_def l1.confined_get l1.confined_delete)
  have "l2.confined k D (snd (st_Set S2 ctx j v ttl x))" if "l2.confined k D x" "other k D j v" for ctx j v ttl x
    using that l2.confined_set l2.confined_set_other by (cases "j = k") (simp_all add: other_def)
  then show "store_keeps S2 (l2.confined k D) (\<lambda>j v _. other k D j v)"
    by (simp add: store_keeps_def l2.confined_get l2.confined_delete)
qed

lemma confined_hits: "hits S1 (l1.confined k D) k \<subseteq> D" "hits S2 (l2.confined k D) k \<subseteq> D"
  by (auto simp: hits_def dest: l1.confined_hit l2.confined_hit)

lemma guards_holdings: "guards (l1.confined k D) (l2.confined k D) (\<lambda>j v _. other k D j v) (other k D)"
  unfolding guards_def
proof (intro conjI confined_keeps allI ballI impI)
  fix j t v assume "v \<in> hits S2 (l2.confined k D) j"
  then show "other k D j v" using confined_hits(2) by (auto simp: other_def)
qed

lemmas holdings_Get = read_Get [OF guards_holdings _ _ confined_hits, folded holdings_def]

text \<open>A deletion that reports success leaves nothing of the key in either level.\<close>

lemma Delete_empties:
  assumes ok: "inner (\<lambda>x. ok1 (fst x) \<and> ok2 (snd x)) w"
  shows "wp (cache_Delete c ctx k)
    (\<lambda>r w'. r = None \<longrightarrow> (\<exists>s. slotFor c k = Inr s \<and> holdings (sl_pk s) {} w')) w"
proof -
  let ?ok = "\<lambda>x :: 'a \<times> 'b. ok1 (fst x) \<and> ok2 (snd x)"
  have del: "wp (do {
         e1 \<leftarrow> (case ca_l1 c of None \<Rightarrow> State_Monad.return None
           | Some l1 \<Rightarrow> ext (st_Delete l1 ctx (sl_pk s)));
         e2 \<leftarrow> (case ca_l2 c of None \<Rightarrow> State_Monad.return None
           | Some l2 \<Rightarrow> ext (st_Delete l2 ctx (sl_pk s)));
         e3 \<leftarrow> publish c ctx KindKey (sl_pk s);
         let err = errors_Join [e1, e2, e3];
         _ \<leftarrow> (if err = None then onInvalidate c ctx (sl_key s) '''' False else State_Monad.return ());
         State_Monad.return err }) (\<lambda>r w'. r = None \<longrightarrow> holdings (sl_pk s) {} w') w1"
    if "inner ?ok w1" for s and w1 :: "('e, 'a, 'b) outside world"
  proof -
    obtain e a b where w1: "w_ext w1 = (e, a, b)" by (cases "w_ext w1")
    with that have ab: "ok1 a" "ok2 b" by (simp_all add: inner_def)
    let ?r1 = "st_Delete S1 ctx (sl_pk s) a" and ?r2 = "st_Delete S2 ctx (sl_pk s) b"
    let ?w = "w1\<lparr>w_ext := (e, snd ?r1, snd ?r2)\<rparr>"
    let ?Q = "\<lambda>x. x = (snd ?r1, snd ?r2)"
    have "inner ?Q ?w" by (simp add: inner_def)
    then have "wp (publish c ctx KindKey (sl_pk s)) (\<lambda>e3. wp (do {
         let err = errors_Join [fst ?r1, fst ?r2, e3];
         _ \<leftarrow> (if err = None then onInvalidate c ctx (sl_key s) '''' False else State_Monad.return ());
         State_Monad.return err }) (\<lambda>r w'. r = None \<longrightarrow> holdings (sl_pk s) {} w')) ?w"
    proof (rule wp_keeps [OF keeps_publish])
      fix e3 and w' :: "('e, 'a, 'b) outside world" assume "inner ?Q w'"
      then show "wp (do {
         let err = errors_Join [fst ?r1, fst ?r2, e3];
         _ \<leftarrow> (if err = None then onInvalidate c ctx (sl_key s) '''' False else State_Monad.return ());
         State_Monad.return err }) (\<lambda>r w'. r = None \<longrightarrow> holdings (sl_pk s) {} w') w'"
        using ab l1.confined_deleted [of a ctx "sl_pk s"] l2.confined_deleted [of b ctx "sl_pk s"]
        by (auto simp: Let_def wp_simps onInvalidate_def holdings_def levels_def inner_def errors_Join_None_iff)
    qed
    then show ?thesis by (simp add: l1 l2 on_l1_def on_l2_def wp_bind wp_l1 wp_l2 w1 wp_if)
  qed
  show ?thesis unfolding cache_Delete_def wp_bind
  proof (rule wp_keeps [OF keeps_parts(2) ok])
    fix ce and w1 :: "('e, 'a, 'b) outside world" assume "inner ?ok w1"
    then show "wp (case ce of Some e \<Rightarrow> State_Monad.return (Some e)
     | None \<Rightarrow>
     case slotFor c k of Inl err \<Rightarrow> State_Monad.return (Some err)
     | Inr s \<Rightarrow> do {
         e1 \<leftarrow> (case ca_l1 c of None \<Rightarrow> State_Monad.return None
           | Some l1 \<Rightarrow> ext (st_Delete l1 ctx (sl_pk s)));
         e2 \<leftarrow> (case ca_l2 c of None \<Rightarrow> State_Monad.return None
           | Some l2 \<Rightarrow> ext (st_Delete l2 ctx (sl_pk s)));
         e3 \<leftarrow> publish c ctx KindKey (sl_pk s);
         let err = errors_Join [e1, e2, e3];
         _ \<leftarrow> (if err = None then onInvalidate c ctx (sl_key s) '''' False else State_Monad.return ());
         State_Monad.return err })
      (\<lambda>r w'. r = None \<longrightarrow> (\<exists>s. slotFor c k = Inr s \<and> holdings (sl_pk s) {} w')) w1"
      using del by (cases ce; cases "slotFor c k") (auto simp: wp_return)
  qed
qed

lemma Delete_then_Get:
  assumes "inner (\<lambda>x. ok1 (fst x) \<and> ok2 (snd x)) w" "run_state (cache_Delete c ctx k) w = (None, w1)"
  shows "fst (run_state (Get c ctx' k) w1) = Inr None
    \<or> (\<exists>e. fst (run_state (Get c ctx' k) w1) = Inl e \<and> ctx_error c ctx' e)"
proof -
  obtain s where s: "slotFor c k = Inr s" "holdings (sl_pk s) {} w1"
    using Delete_empties [OF assms(1), of ctx k] assms(2) by (auto simp: wp_def)
  from holdings_Get [OF this] show ?thesis by (auto simp: answer_def)
qed

text \<open>A write that reports success leaves nothing but the entry it wrote in either level.\<close>

lemma write_fills:
  assumes ok: "inner (\<lambda>x. ok1 (fst x) \<and> ok2 (snd x)) w"
  shows "wp (cache_write c ctx pk entry ttl)
    (\<lambda>r w'. r = None \<longrightarrow> (\<exists>x dat. Encode (entry\<lparr>Codec := ca_codecID c, Expires := x\<rparr>) = Inr dat
      \<and> holdings pk {dat} w')) w"
  unfolding cache_write_def Let_def wp_bind
proof (rule wp_keeps [OF keeps_parts(7) ok], rule wp_keeps [OF keeps_parts(1)], assumption)
  fix r t w1 and w2 :: "('e, 'a, 'b) outside world"
  assume "inner (\<lambda>x. ok1 (fst x) \<and> ok2 (snd x)) w2"
  then obtain e a b where w2: "w_ext w2 = (e, a, b)" "ok1 a" "ok2 b"
    by (cases "w_ext w2") (auto simp: inner_def)
  define longest where "longest = scaled (rt_trunc (ca_rt c)) ttl (fl (1 - fl (ca_jitter c * r)))"
  define short where "short = scaled (rt_trunc (ca_rt c)) (min ttl (ca_l1TTL c)) (fl (1 - fl (ca_jitter c * r)))"
  let ?en = "Encode (entry\<lparr>Codec := ca_codecID c, Expires := t + longest\<rparr>)"
  show "wp (case Encode (entry\<lparr>Codec := ca_codecID c, Expires := t + scaled (rt_trunc (ca_rt c)) ttl (fl (1 - fl (ca_jitter c * r)))\<rparr>) of
       Inl err \<Rightarrow> State_Monad.return (Some (Wrap ''cistern: %w'' [err]))
     | Inr data \<Rightarrow> do {
         errs2 \<leftarrow> (case ca_l2 c of None \<Rightarrow> State_Monad.return []
           | Some s \<Rightarrow> do { e \<leftarrow> ext (st_Set s ctx pk data (scaled (rt_trunc (ca_rt c)) ttl (fl (1 - fl (ca_jitter c * r))))); State_Monad.return [e] });
         errs1 \<leftarrow> (case ca_l1 c of None \<Rightarrow> State_Monad.return []
           | Some s \<Rightarrow> do {
               e \<leftarrow> ext (st_Set s ctx pk data (scaled (rt_trunc (ca_rt c)) (min ttl (ca_l1TTL c)) (fl (1 - fl (ca_jitter c * r)))));
               State_Monad.return [e] });
         State_Monad.return (errors_Join (errs2 @ errs1)) })
    (\<lambda>r w'. r = None \<longrightarrow> (\<exists>x dat. Encode (entry\<lparr>Codec := ca_codecID c, Expires := x\<rparr>) = Inr dat
      \<and> holdings pk {dat} w')) w2"
    unfolding longest_def [symmetric] short_def [symmetric]
  proof (cases ?en)
    case (Inr dat)
    have "l1.confined pk {dat} (snd (st_Set S1 ctx pk dat short a))"
      if "fst (st_Set S1 ctx pk dat short a) = None" by (rule l1.confined_written [OF w2(2) that])
    moreover have "l2.confined pk {dat} (snd (st_Set S2 ctx pk dat longest b))"
      if "fst (st_Set S2 ctx pk dat longest b) = None" by (rule l2.confined_written [OF w2(3) that])
    ultimately show "wp (case ?en of
       Inl err \<Rightarrow> State_Monad.return (Some (Wrap ''cistern: %w'' [err]))
     | Inr data \<Rightarrow> do {
         errs2 \<leftarrow> (case ca_l2 c of None \<Rightarrow> State_Monad.return []
           | Some s \<Rightarrow> do { e \<leftarrow> ext (st_Set s ctx pk data longest); State_Monad.return [e] });
         errs1 \<leftarrow> (case ca_l1 c of None \<Rightarrow> State_Monad.return []
           | Some s \<Rightarrow> do { e \<leftarrow> ext (st_Set s ctx pk data short); State_Monad.return [e] });
         State_Monad.return (errors_Join (errs2 @ errs1)) })
    (\<lambda>r w'. r = None \<longrightarrow> (\<exists>x dat. Encode (entry\<lparr>Codec := ca_codecID c, Expires := x\<rparr>) = Inr dat
      \<and> holdings pk {dat} w')) w2"
      using Inr by (auto simp: l1 l2 on_l1_def on_l2_def wp_bind wp_return wp_l1 wp_l2 w2(1)
          holdings_def levels_def inner_def errors_Join_None_iff)
  qed (simp add: wp_return)
qed

lemma Set_fills:
  assumes ok: "inner (\<lambda>x. ok1 (fst x) \<and> ok2 (snd x)) w"
  shows "wp (cache_Set c ctx k v opts) (\<lambda>r w'. r = None \<longrightarrow> (\<exists>s payload x dat. slotFor c k = Inr s
    \<and> cd_Marshal (ca_codec c) v = Inr payload \<and> int (length payload) \<le> ca_maxValue c
    \<and> Encode \<lparr>Absent = False, Expires = x, Codec = ca_codecID c, Gens = [], Payload = payload\<rparr> = Inr dat
    \<and> holdings (sl_pk s) {dat} w')) w" (is "wp _ ?R w")
  unfolding cache_Set_def wp_bind
proof (rule wp_keeps [OF keeps_parts(2) ok])
  fix ce and w1 :: "('e, 'a, 'b) outside world"
  assume ok1: "inner (\<lambda>x. ok1 (fst x) \<and> ok2 (snd x)) w1"
  have "wp (cache_write c ctx (sl_pk s)
        \<lparr>Absent = False, Expires = 0, Codec = '''', Gens = [], Payload = payload\<rparr> ttl) ?R w1"
    if "slotFor c k = Inr s" "cd_Marshal (ca_codec c) v = Inr payload" "int (length payload) \<le> ca_maxValue c"
    for s payload ttl
    by (rule wp_mono [OF write_fills [OF ok1]]) (use that in auto)
  then show "wp (case ce of Some e \<Rightarrow> State_Monad.return (Some e)
     | None \<Rightarrow>
     case entryOptions (ca_ttl c) opts of Inl err \<Rightarrow> State_Monad.return (Some err)
     | Inr e \<Rightarrow>
     case slotFor c k of Inl err \<Rightarrow> State_Monad.return (Some err)
     | Inr s \<Rightarrow>
     if uncacheable (ca_type c) v then State_Monad.return (Some (Wrap ''%w: %T'' [ErrUncacheable]))
     else case cd_Marshal (ca_codec c) v of
       Inl err \<Rightarrow> State_Monad.return (Some (Wrap ''cistern: encoding value: %w'' [err]))
     | Inr payload \<Rightarrow>
     if int (length payload) > ca_maxValue c
       then State_Monad.return (Some (Wrap ''%w: %d bytes encoded, limit %d'' [ErrValueTooLarge]))
     else do {
       gens \<leftarrow> (if ca_tagsFn c = None then State_Monad.return (Inr None)
         else do {
           got \<leftarrow> ext (ts_GetTagged (ca_auth c) ctx (sl_pk s) (sl_genKeys s) (ca_genTTL c));
           State_Monad.return (map_sum id snd got) });
       case gens of
         Inl err \<Rightarrow> State_Monad.return (Some (Wrap ''cistern: reading tag generations: %w'' [err]))
       | Inr gens \<Rightarrow> cache_write c ctx (sl_pk s)
           \<lparr>Absent = False, Expires = 0, Codec = '''', Gens = elems gens, Payload = payload\<rparr> (ec_ttl e) }) ?R w1"
    using untagged by (auto simp: wp_simps elems_def split: option.split sum.split)
qed

lemma Set_then_Get:
  assumes ok: "inner (\<lambda>x. ok1 (fst x) \<and> ok2 (snd x)) w" "run_state (cache_Set c ctx k v opts) w = (None, w1)"
    and codec: "\<And>p. cd_Marshal (ca_codec c) v = Inr p \<Longrightarrow> cd_Unmarshal (ca_codec c) p = Inr v"
  shows "fst (run_state (Get c ctx' k) w1) \<in> {Inr (Some v), Inr None}
    \<or> (\<exists>e. fst (run_state (Get c ctx' k) w1) = Inl e \<and> ctx_error c ctx' e)"
proof -
  obtain s payload x dat where s: "slotFor c k = Inr s" "cd_Marshal (ca_codec c) v = Inr payload"
    "int (length payload) \<le> ca_maxValue c"
    "Encode \<lparr>Absent = False, Expires = x, Codec = ca_codecID c, Gens = [], Payload = payload\<rparr> = Inr dat"
    "holdings (sl_pk s) {dat} w1"
    using Set_fills [OF ok(1), of ctx k v opts] ok(2) by (auto simp: wp_def)
  have "gives c e r \<Longrightarrow> r = Inr (Some v)" if "usable c dat e" for e r
    using that Decode_Encode [OF s(4), of "ca_maxValue c"] s(3) codec [OF s(2)]
    by (auto simp: usable_def gives_def)
  with holdings_Get [OF s(1,5), of ctx'] show ?thesis by (auto simp: answer_def)
qed

end

end
