(* ===== verification/MemoryCache.thy ===== *)
theory MemoryCache
  imports TwoLevels
begin

text \<open>
  The contracts at work: a cache over two in-process stores.  \<open>memory_levels\<close> puts the stores in any
  cache's two levels; the locale of \<open>TwoLevels\<close> is interpreted for it, and the properties restate its
  lemmas for every cache built this way, in every state the two stores can reach.
\<close>

section \<open>The interpretation\<close>

definition memory_levels :: "(ctx \<Rightarrow> error option) \<Rightarrow> (ctx \<Rightarrow> error option) \<Rightarrow> 'e runtime \<Rightarrow> 'e Bus option
    \<Rightarrow> (('e, store, store) outside, 'k, 'v) cache \<Rightarrow> (('e, store, store) outside, 'k, 'v) cache" where
  "memory_levels ce1 ce2 rt b c = c\<lparr>ca_l1 := Some (on_l1 (mem_Store ce1)), ca_l2 := Some (on_l2 (mem_Store ce2)),
     ca_rt := rt_env rt, ca_tagsFn := None, ca_bus := map_option bus_env b\<rparr>"

interpretation mem2: two_levels "mem_Store ce1" mem_ok mem_may "mem_Store ce2" mem_ok mem_may
    "memory_levels ce1 ce2 rt b c" rt
  for ce1 ce2 rt b and c :: "(('e, store, store) outside, 'k, 'v) cache"
proof (intro two_levels.intro two_levels_axioms.intro mem.store_laws_axioms)
  show "ca_bus (memory_levels ce1 ce2 rt b c) = None
      \<or> (\<exists>b'. ca_bus (memory_levels ce1 ce2 rt b c) = Some (bus_env b'))"
    by (cases b) (auto simp: memory_levels_def)
qed (simp_all add: memory_levels_def)

lemma memory_levels_id:
  "ca_l1 c = Some (on_l1 (mem_Store ce1)) \<Longrightarrow> ca_l2 c = Some (on_l2 (mem_Store ce2)) \<Longrightarrow>
   ca_rt c = rt_env rt \<Longrightarrow> ca_tagsFn c = None \<Longrightarrow> ca_bus c = map_option bus_env b \<Longrightarrow>
   memory_levels ce1 ce2 rt b c = c"
  by (simp add: memory_levels_def)

text \<open>A cache over two in-process stores, in a world where both are states of built stores.\<close>

definition over_memory :: "(ctx \<Rightarrow> error option) \<Rightarrow> (ctx \<Rightarrow> error option) \<Rightarrow> 'e runtime \<Rightarrow> 'e Bus option
    \<Rightarrow> (('e, store, store) outside, 'k, 'v) cache \<Rightarrow> ('e, store, store) outside world \<Rightarrow> bool" where
  "over_memory ce1 ce2 rt b c w \<longleftrightarrow>
     ca_l1 c = Some (on_l1 (mem_Store ce1)) \<and> ca_l2 c = Some (on_l2 (mem_Store ce2))
     \<and> ca_rt c = rt_env rt \<and> ca_tagsFn c = None \<and> ca_bus c = map_option bus_env b
     \<and> mem_ok (fst (snd (w_ext w))) \<and> mem_ok (snd (snd (w_ext w)))"

lemma mem_state_ok: "mem_state clk rnd opts cs = Some s \<Longrightarrow> mem_ok s"
  by (auto simp: mem_ok_def dest: mem_state_rel)

lemma over_memory_ok:
  "over_memory ce1 ce2 rt b c w \<Longrightarrow> inner (\<lambda>x. mem_ok (fst x) \<and> mem_ok (snd x)) w
    \<and> memory_levels ce1 ce2 rt b c = c"
  by (auto simp: over_memory_def inner_def memory_levels_id)

section \<open>A cache to evaluate\<close>

definition demo_rt :: "unit runtime" where
  "demo_rt = \<lparr>rt_Err = (\<lambda>_ e. (None, e)), rt_Now = (\<lambda>e. (1000, e)), rt_Float64 = (\<lambda>e. (0, e)),
     rt_trunc = min_int64, rt_flight = (\<lambda>_ _ _ e. (Lead, e))\<rparr>"

definition raw :: "bytes Codec" where
  "raw = \<lparr>cd_ID = ''raw'', cd_Marshal = Inr, cd_Unmarshal = Inr\<rparr>"

definition demo_type :: "bytes gotype" where
  "demo_type = \<lparr>ty_zero = [], ty_NoCache = (\<lambda>v. v = [0]), ty_ptr_NoCache = False\<rparr>"

definition demo_world :: "(unit, store, store) outside world" where
  "demo_world = \<lparr>w_ext = ((), demo_set, demo_set), w_gens = newGenCache 0, w_trace = []\<rparr>"

definition demo_cache :: "((unit, store, store) outside, string, bytes) cache" where
  "demo_cache = projr (fst (run_state (New (rt_env demo_rt) demo_type raw ''tasks'' (Some (\<lambda>k. k))
     [WithL1 (Some (on_l1 (mem_Store (\<lambda>_. None)))), WithL2 (Some (on_l2 (mem_Store (\<lambda>_. None)))),
      WithTTL 60]) demo_world))"

lemma tasks_namespace: "namespacePattern ''tasks''"
  by code_simp

lemma demo_cache_fields:
  "ca_l1 demo_cache = Some (on_l1 (mem_Store (\<lambda>_. None)))" "ca_l2 demo_cache = Some (on_l2 (mem_Store (\<lambda>_. None)))"
  "ca_rt demo_cache = rt_env demo_rt" "ca_tagsFn demo_cache = None" "ca_bus demo_cache = None"
  "ca_hooks demo_cache = no_hooks" "ca_codec demo_cache = raw" "ca_codecID demo_cache = ''raw''"
  "ca_type demo_cache = demo_type" "ca_ttl demo_cache = 60" "ca_l1TTL demo_cache = 60"
  "ca_jitter demo_cache = 0" "ca_maxValue demo_cache = DefaultMaxValueBytes" "key_fn demo_cache = (\<lambda>k. k)"
  "namespace demo_cache = ''tasks''" "prefix demo_cache = ''cistern:v1:tasks:-:''" "hashKeys demo_cache = False"
  "ca_gens demo_cache = False" "ca_hookKeys demo_cache = False"
  by (simp_all add: demo_cache_def New_def Let_def default_config_def WithL1_def WithL2_def WithTTL_def
      validate_def tasks_namespace math_IsNaN_def f64_neg_def f64_ge1_def DefaultMaxValueBytes_def raw_def
      uncacheableType_def demo_type_def floatOf_def State_Monad.return_def State_Monad.bind_def)

lemma demo_over: "over_memory (\<lambda>_. None) (\<lambda>_. None) demo_rt None demo_cache demo_world"
  by (simp add: over_memory_def demo_cache_fields demo_world_def mem_state_ok [OF demo_state])

lemma demo_slot: "slotFor demo_cache ''user:42''
    = Inr \<lparr>sl_key = ''user:42'', sl_pk = ''cistern:v1:tasks:-:k:user:42'', sl_genKeys = []\<rparr>"
proof -
  have "validateKey ''user:42'' = None" by code_simp
  then show ?thesis by (simp add: slotFor_def physicalKey_def demo_cache_fields MaxKeyBytes_def)
qed

section \<open>Properties\<close>

text \<open>After a \<open>Delete\<close> that reports success, a \<open>Get\<close> of the same key finds nothing in either level:
  it misses, or returns the error of its own context.\<close>

theorem cache_delete_then_get:
  assumes "over_memory ce1 ce2 rt b c w" "run_state (cache_Delete c ctx k) w = (None, w1)"
  shows "fst (run_state (Get c ctx' k) w1) = Inr None
    \<or> (\<exists>e. fst (run_state (Get c ctx' k) w1) = Inl e \<and> ctx_error c ctx' e)"
  using mem2.Delete_then_Get [of w ce1 ce2 rt b c ctx k w1 ctx'] over_memory_ok [OF assms(1)] assms(2) by simp

lemma ctxErr_demo: "run_state (ctxErr demo_cache ctx) w = (None, w)"
  by (simp add: ctxErr_def ext_def demo_cache_fields rt_env_def at_env_def demo_rt_def split: prod.splits)

lemma mem_Delete_succeeds: "mem_ok s \<Longrightarrow> ce ctx = None \<Longrightarrow> fst (st_Delete (mem_Store ce) ctx k s) = None"
  by (auto simp: mem_ok_def mem_Store_def mem_Delete_go lru_Delete_def)

lemma mem_Set_succeeds:
  "mem_ok s \<Longrightarrow> ce ctx = None \<Longrightarrow> 0 < ttl \<Longrightarrow> fst (st_Set (mem_Store ce) ctx k v ttl s) = None"
  by (auto simp: mem_ok_def mem_Store_def mem_Set_go lru_Set_def split_beta)

lemma wp_ctxErr_demo: "wp (ctxErr demo_cache ctx) Q w = Q None w"
  by (simp add: wp_def ctxErr_demo)

lemma demo_Delete: "fst (run_state (cache_Delete demo_cache Background ''user:42'') demo_world) = None"
proof -
  have "wp (cache_Delete demo_cache Background ''user:42'') (\<lambda>r w. r = None) demo_world"
    using mem_Delete_succeeds [OF mem_state_ok [OF demo_state], of "\<lambda>_. None" Background]
    by (simp add: cache_Delete_def wp_bind wp_ctxErr_demo demo_slot demo_cache_fields on_l1_def on_l2_def
        wp_l1 wp_l2 demo_world_def publish_def wp_return errors_Join_def List.map_filter_def Let_def
        onInvalidate_def no_hooks_def wp_call_hook)
  then show ?thesis by (simp add: wp_run)
qed

theorem cache_delete_then_get_witness:
  "fst (run_state (Get demo_cache Background ''user:42'')
      (snd (run_state (cache_Delete demo_cache Background ''user:42'') demo_world))) = Inr None
    \<or> (\<exists>e. fst (run_state (Get demo_cache Background ''user:42'')
      (snd (run_state (cache_Delete demo_cache Background ''user:42'') demo_world))) = Inl e
      \<and> ctx_error demo_cache Background e)"
  by (rule cache_delete_then_get [OF demo_over, where ctx = Background]) (simp add: prod_eq_iff demo_Delete)

text \<open>After a \<open>Set\<close> that reports success, a \<open>Get\<close> of the same key returns exactly that value, misses,
  or returns the error of its own context: never an older value of either level, and never another
  key's.  All that is asked of the codec is that it decodes what it encoded.\<close>

theorem cache_set_then_get:
  assumes "over_memory ce1 ce2 rt b c w" "run_state (cache_Set c ctx k v opts) w = (None, w1)"
    and "\<And>p. cd_Marshal (ca_codec c) v = Inr p \<Longrightarrow> cd_Unmarshal (ca_codec c) p = Inr v"
  shows "fst (run_state (Get c ctx' k) w1) \<in> {Inr (Some v), Inr None}
    \<or> (\<exists>e. fst (run_state (Get c ctx' k) w1) = Inl e \<and> ctx_error c ctx' e)"
  using mem2.Set_then_Get [of w ce1 ce2 rt b c ctx k v opts w1 ctx'] over_memory_ok [OF assms(1)]
    assms(2,3) by simp

lemma demo_scaled: "scaled x 60 1 = 60"
  using fl_of_int [of 60] by (simp add: scaled_def toDuration_def in_int64_def max_int64_def min_int64_def)

lemma demo_Encode:
  "\<exists>dat. Encode \<lparr>Absent = False, Expires = 1060, Codec = ''raw'', Gens = [], Payload = [7]\<rparr> = Inr dat"
  by (simp add: Encode_def check_def UnixNano_def wrap64_id in_int64_def max_int64_def min_int64_def
      maxCodecID_def Let_def)

lemma demo_Set: "fst (run_state (cache_Set demo_cache Background ''user:42'' [7] []) demo_world) = None"
proof -
  obtain dat where d: "Encode \<lparr>Absent = False, Expires = 1060, Codec = ''raw'', Gens = [], Payload = [7]\<rparr> = Inr dat"
    using demo_Encode by blast
  have "wp (cache_Set demo_cache Background ''user:42'' [7] []) (\<lambda>r w. r = None) demo_world"
    using mem_Set_succeeds [OF mem_state_ok [OF demo_state], of "\<lambda>_. None" Background 60]
    by (simp add: cache_Set_def wp_bind wp_ctxErr_demo demo_slot demo_cache_fields on_l1_def on_l2_def
        entryOptions_def uncacheable_def demo_type_def raw_def DefaultMaxValueBytes_def elems_def wp_return
        cache_write_def wp_ext now_def rt_env_def demo_rt_def at_env_def demo_scaled d
        demo_world_def errors_Join_def List.map_filter_def Let_def wp_l1 wp_l2)
  then show ?thesis by (simp add: wp_run)
qed

theorem cache_set_then_get_witness:
  "fst (run_state (Get demo_cache Background ''user:42'')
      (snd (run_state (cache_Set demo_cache Background ''user:42'' [7] []) demo_world))) \<in> {Inr (Some [7]), Inr None}
    \<or> (\<exists>e. fst (run_state (Get demo_cache Background ''user:42'')
      (snd (run_state (cache_Set demo_cache Background ''user:42'' [7] []) demo_world))) = Inl e
      \<and> ctx_error demo_cache Background e)"
  by (rule cache_set_then_get [OF demo_over, where ctx = Background and opts = "[]"])
    (simp_all add: prod_eq_iff demo_Set demo_cache_fields raw_def)

section \<open>Witnesses of the invariants\<close>

theorem hooks_withhold_keys_witness:
  "\<exists>es. w_trace (cache_calls demo_cache [CSet Background ''user:42'' [7] [], CDelete Background ''user:42''] demo_world)
      = w_trace demo_world @ es
    \<and> (\<forall>e \<in> set es. he_ns e = namespace demo_cache \<and> he_key e = '''')"
  by (rule hooks_withhold_keys) (simp add: demo_cache_fields)

theorem cache_gens_bounded_witness:
  "map_len (g_m (w_gens (cache_calls demo_cache [CSet Background ''user:42'' [7] []] demo_world))) \<le> maxCachedGens
    \<and> map_len (g_drops (w_gens (cache_calls demo_cache [CSet Background ''user:42'' [7] []] demo_world)))
      \<le> maxCachedGens"
  by (rule cache_gens_bounded [of _ 0]) (simp add: demo_world_def)

end
