(* ===== verification/TwoLevelRuns.thy ===== *)
theory TwoLevelRuns
  imports MemoryCache
begin

text \<open>
  Sequences of calls on a cache over two stores, without tags: what the two levels can give for a key is
  kept by every call that does not write that key, bus events included.  So a written value, or a
  deletion, is what every later read sees, until the key is written again.
\<close>

text \<open>A call that does not write under the physical key \<open>pk\<close>, and whose loader leaves the stores alone.\<close>

fun spares :: "(('e, 'a, 'b) outside, 'k, 'v) cache \<Rightarrow> string \<Rightarrow> (('e, 'a, 'b) outside, 'k, 'v) call \<Rightarrow> bool" where
  "spares c pk (CSet ctx k v opts) = (case slotFor c k of Inl _ \<Rightarrow> True | Inr s \<Rightarrow> sl_pk s \<noteq> pk)"
| "spares c pk (CGetOrLoad ctx k load opts) =
     ((case slotFor c k of Inl _ \<Rightarrow> True | Inr s \<Rightarrow> sl_pk s \<noteq> pk)
      \<and> (case load of None \<Rightarrow> True | Some l \<Rightarrow> \<forall>lc. \<exists>f. l lc = at_env f))"
| "spares c pk _ = True"

text \<open>More generally, one that writes only under physical keys in \<open>K\<close>.\<close>

fun writes_within :: "(('e, 'a, 'b) outside, 'k, 'v) cache \<Rightarrow> (string \<Rightarrow> bool) \<Rightarrow> (('e, 'a, 'b) outside, 'k, 'v) call \<Rightarrow> bool" where
  "writes_within c K (CSet ctx k v opts) \<longleftrightarrow> (\<forall>s. slotFor c k = Inr s \<longrightarrow> K (sl_pk s))"
| "writes_within c K (CGetOrLoad ctx k load opts) \<longleftrightarrow> (\<forall>s. slotFor c k = Inr s \<longrightarrow> K (sl_pk s))
      \<and> (\<forall>l lc. load = Some l \<longrightarrow> (\<exists>f. l lc = at_env f))"
| "writes_within c K _ \<longleftrightarrow> True"

lemma spares_within: "spares c pk call = writes_within c (\<lambda>p. p \<noteq> pk) call"
  by (cases call) (auto split: sum.split option.split)

context two_levels begin

lemma keeps_loadHook: "keeps (onLoad c ctx key d er) (inner Q)" "keeps (onCoalesced c ctx key) (inner Q)"
  by (simp_all add: onLoad_def onCoalesced_def keeps_hook)

lemma keeps_rt: "keeps (ext (rt_Now (ca_rt c))) (inner Q)" "keeps (ext (rt_flight (ca_rt c) ctx fk d)) (inner Q)"
  by (simp_all add: rt rt_env_def keeps_env)

lemmas keeps_levels_rt = keeps_rt [where Q = "\<lambda>x. P (fst x) \<and> Q (snd x)" for P Q, folded levels_def]
  keeps_loadHook [where Q = "\<lambda>x. P (fst x) \<and> Q (snd x)" for P Q, folded levels_def]
  keeps_publish [where Q = "\<lambda>x. P (fst x) \<and> Q (snd x)" for P Q, folded levels_def]

text \<open>The keys under which a write of the cache is one the levels allow.\<close>

definition writable :: "(string \<Rightarrow> bytes \<Rightarrow> duration \<Rightarrow> bool) \<Rightarrow> (string \<Rightarrow> bytes \<Rightarrow> bool) \<Rightarrow> string \<Rightarrow> bool" where
  "writable W V pk \<longleftrightarrow> (\<forall>v. V pk v) \<and> (\<forall>v ttl e. 0 < ttl \<longrightarrow>
     W pk v (scaled (rt_trunc (ca_rt c)) (min ttl (ca_l1TTL c)) (fl (1 - fl (ca_jitter c * fst (rt_Float64 rt e))))))"

lemma keeps_write:
  assumes "guards P Q W V" "writable W V pk" "0 < ttl"
  shows "keeps (cache_write c ctx pk entry ttl) (levels P Q)"
  unfolding cache_write_def l1 l2 option.case
proof (rule keeps_bind_res [OF keeps_levels_parts(7)])
  show "res (ext (rt_Float64 (ca_rt c))) (\<lambda>r. \<exists>e. r = fst (rt_Float64 rt e))"
    by (auto simp: res_def ext_def rt rt_env_def at_env_def apsnd_def split_beta)
  fix r assume "\<exists>e. r = fst (rt_Float64 rt e)"
  then have "W pk v (scaled (rt_trunc (ca_rt c)) (min ttl (ca_l1TTL c)) (fl (1 - fl (ca_jitter c * r))))" "V pk v" for v
    using assms(2,3) unfolding writable_def by blast+
  note sets = keeps_sets(1) [OF assms(1) this(1)] keeps_sets(2) [OF assms(1) this(2)]
  show "keeps (do {
     let scale = fl (1 - fl (ca_jitter c * r));
     let longest = scaled (rt_trunc (ca_rt c)) ttl scale;
     t \<leftarrow> now c;
     let entry = entry\<lparr>Codec := ca_codecID c, Expires := t + longest\<rparr>;
     case Encode entry of
       Inl err \<Rightarrow> State_Monad.return (Some (Wrap ''cistern: %w'' [err]))
     | Inr data \<Rightarrow> do {
         errs2 \<leftarrow> do { e \<leftarrow> ext (st_Set (on_l2 S2) ctx pk data longest); State_Monad.return [e] };
         errs1 \<leftarrow> do {
               e \<leftarrow> ext (st_Set (on_l1 S1) ctx pk data (scaled (rt_trunc (ca_rt c)) (min ttl (ca_l1TTL c)) scale));
               State_Monad.return [e] };
         State_Monad.return (errors_Join (errs2 @ errs1)) } }) (levels P Q)"
    unfolding Let_def by (intro keeps_intros keeps_levels_parts sets)
qed

lemma keeps_read:
  assumes "guards P Q W V"
  shows "keeps (cache_read c ctx s) (levels P Q)"
proof -
  have "keeps (readPlain c ctx s) (levels P Q)" using read_plain [OF assms, of ctx s] by (simp add: spec_def keeps_def)
  then show ?thesis using untagged by (auto simp: cache_read_def intro: keeps_intros)
qed

lemma keeps_Get:
  assumes "guards P Q W V"
  shows "keeps (Get c ctx j) (levels P Q)"
  unfolding Get_def by (intro keeps_intros keeps_levels_parts keeps_read [OF assms])

lemma keeps_Delete:
  assumes "guards P Q W V"
  shows "keeps (cache_Delete c ctx j) (levels P Q)"
  unfolding cache_Delete_def l1 l2 option.case
  by (intro keeps_intros keeps_levels_parts keeps_dels [OF assms] keeps_levels_rt)

lemma keeps_Event:
  assumes "guards P Q W V"
  shows "keeps (onEvent c e) (levels P Q)"
  unfolding onEvent_def l1 option.case Let_def untagged
  by (intro keeps_intros keeps_levels_parts keeps_dels [OF assms]) simp_all

lemma keeps_InvalidateTag: "keeps (InvalidateTag c ctx tag) (levels P Q)"
  using untagged unfolding InvalidateTag_def by (auto intro!: keeps_intros keeps_levels_parts)

lemma keeps_Close: "keeps (Close c) (levels P Q)"
proof -
  have "keeps (ext (\<lambda>x. ((), b_Unsubscribe (bus_env b) n x))) (levels P Q)" for b :: "'e Bus" and n
    by (rule keepsI) (auto simp: wp_simps bus_env_def levels_def inner_def at_env_def apsnd_def split: prod.splits)
  then show ?thesis using bus unfolding Close_def by (auto intro!: keeps_intros)
qed

lemma entryOptions_ttl: "entryOptions t opts = Inr e \<Longrightarrow> 0 < ec_ttl e"
  by (auto simp: entryOptions_def Let_def split: if_splits)

lemma keeps_load:
  assumes "guards P Q W V" "writable W V (sl_pk s)" "keeps (ext (load loadCtx)) (levels P Q)" "0 < ttl"
  shows "keeps (runLoad c loadCtx s gens cacheable ttl load) (levels P Q)"
  unfolding runLoad_def populate_def
  by (intro keeps_intros keeps_levels_parts keeps_levels_rt keeps_write [OF assms(1,2)] assms(3,4)) simp_all

lemma keeps_GetOrLoad:
  assumes "guards P Q W V" "\<And>s. slotFor c j = Inr s \<Longrightarrow> writable W V (sl_pk s)"
    and "\<And>l lc. load = Some l \<Longrightarrow> keeps (ext (l lc)) (levels P Q)"
  shows "keeps (GetOrLoad c ctx j load opts) (levels P Q)"
  unfolding GetOrLoad_def
  by (intro keeps_intros keeps_levels_parts keeps_levels_rt keeps_read [OF assms(1)] keeps_load [OF assms(1)] assms(2,3)
      entryOptions_ttl)

lemma keeps_Set:
  assumes "guards P Q W V" "\<And>s. slotFor c j = Inr s \<Longrightarrow> writable W V (sl_pk s)"
  shows "keeps (cache_Set c ctx j v opts) (levels P Q)"
  using untagged unfolding cache_Set_def
  by (intro keeps_intros keeps_levels_parts keeps_write [OF assms(1)] assms(2) entryOptions_ttl) simp_all

lemma keeps_call:
  assumes g: "guards P Q W V" and K: "\<And>pk. K pk \<Longrightarrow> writable W V pk"
    and within: "writes_within c K call" and J: "levels P Q w"
  shows "levels P Q (cache_call c call w)"
proof (cases call)
  case (CGetOrLoad ctx j load opts)
  have env: "keeps (ext (l lc)) (levels P Q)" if l: "load = Some l" for l lc
  proof -
    have "\<exists>f. l lc = at_env f" using within l CGetOrLoad by simp
    then obtain f where "l lc = at_env f" by blast
    then show ?thesis by (simp add: levels_def keeps_env)
  qed
  have "keeps (GetOrLoad c ctx j load opts) (levels P Q)"
    by (rule keeps_GetOrLoad [OF g]) (use within CGetOrLoad env K in auto)
  then show ?thesis using J CGetOrLoad by (simp add: keeps_def)
next
  case (CSet ctx j v opts)
  have "keeps (cache_Set c ctx j v opts) (levels P Q)" by (rule keeps_Set [OF g]) (use within CSet K in auto)
  then show ?thesis using J CSet by (simp add: keeps_def)
qed (use J keeps_Get [OF g] keeps_Delete [OF g] keeps_Event [OF g] keeps_InvalidateTag keeps_Close in \<open>auto simp: keeps_def\<close>)

lemma writable_other: "pk \<noteq> k \<Longrightarrow> writable (\<lambda>j v _. other k D j v) (other k D) pk"
  by (simp add: writable_def other_def)

lemma keeps_calls: "\<forall>call \<in> set cs. spares c pk call \<Longrightarrow> holdings pk D w \<Longrightarrow> holdings pk D (cache_calls c cs w)"
proof (induction cs arbitrary: w)
  case (Cons call cs)
  have "holdings pk D (cache_call c call w)"
    unfolding holdings_def
    by (rule keeps_call [OF guards_holdings, where K = "\<lambda>p. p \<noteq> pk"])
      (use Cons.prems in \<open>simp_all add: writable_other holdings_def spares_within\<close>)
  then show ?case using Cons by (simp add: cache_calls_def)
qed (simp add: cache_calls_def)

lemma Delete_calls_Get:
  assumes ok: "inner (\<lambda>x. ok1 (fst x) \<and> ok2 (snd x)) w"
    and del: "run_state (cache_Delete c ctx k) w = (None, w1)"
    and s: "slotFor c k = Inr s" and cs: "\<forall>call \<in> set cs. spares c (sl_pk s) call"
  shows "fst (run_state (Get c ctx' k) (cache_calls c cs w1)) = Inr None
    \<or> (\<exists>e. fst (run_state (Get c ctx' k) (cache_calls c cs w1)) = Inl e \<and> ctx_error c ctx' e)"
proof -
  have "holdings (sl_pk s) {} w1" using Delete_empties [OF ok, of ctx k] del s by (auto simp: wp_def)
  from holdings_Get [OF s keeps_calls [OF cs this], of ctx'] show ?thesis by (auto simp: answer_def)
qed

lemma Set_calls_Get:
  assumes ok: "inner (\<lambda>x. ok1 (fst x) \<and> ok2 (snd x)) w"
    and set: "run_state (cache_Set c ctx k v opts) w = (None, w1)"
    and codec: "\<And>p. cd_Marshal (ca_codec c) v = Inr p \<Longrightarrow> cd_Unmarshal (ca_codec c) p = Inr v"
    and s: "slotFor c k = Inr s" and cs: "\<forall>call \<in> set cs. spares c (sl_pk s) call"
  shows "fst (run_state (Get c ctx' k) (cache_calls c cs w1)) \<in> {Inr (Some v), Inr None}
    \<or> (\<exists>e. fst (run_state (Get c ctx' k) (cache_calls c cs w1)) = Inl e \<and> ctx_error c ctx' e)"
proof -
  obtain payload x dat where p: "cd_Marshal (ca_codec c) v = Inr payload" "int (length payload) \<le> ca_maxValue c"
    "Encode \<lparr>Absent = False, Expires = x, Codec = ca_codecID c, Gens = [], Payload = payload\<rparr> = Inr dat"
    "holdings (sl_pk s) {dat} w1"
    using Set_fills [OF ok, of ctx k v opts] set s by (auto simp: wp_def)
  have "gives c e r \<Longrightarrow> r = Inr (Some v)" if "usable c dat e" for e r
    using that Decode_Encode [OF p(3), of "ca_maxValue c"] p(2) codec [OF p(1)]
    by (auto simp: usable_def gives_def)
  with holdings_Get [OF s keeps_calls [OF cs p(4)], of ctx'] show ?thesis by (auto simp: answer_def)
qed

end

section \<open>Properties\<close>

text \<open>C1. After a \<open>Set\<close> that reports success, a later \<open>Get\<close> of the key returns exactly that value, misses, or
  returns the error of its own context, whatever runs in between that does not write the same key:
  reads and deletions of any keys, writes and loads of other keys, bus events, forged ones included.\<close>

theorem set_is_what_later_gets_see:
  assumes "over_memory ce1 ce2 rt b c w" "run_state (cache_Set c ctx k v opts) w = (None, w1)"
    and "\<And>p. cd_Marshal (ca_codec c) v = Inr p \<Longrightarrow> cd_Unmarshal (ca_codec c) p = Inr v"
    and "slotFor c k = Inr s" "\<forall>call \<in> set cs. spares c (sl_pk s) call"
  shows "fst (run_state (Get c ctx' k) (cache_calls c cs w1)) \<in> {Inr (Some v), Inr None}
    \<or> (\<exists>e. fst (run_state (Get c ctx' k) (cache_calls c cs w1)) = Inl e \<and> ctx_error c ctx' e)"
  using mem2.Set_calls_Get [of w ce1 ce2 rt b c ctx k v opts w1 s cs ctx'] over_memory_ok [OF assms(1)]
    assms(2-) by simp

theorem set_is_what_later_gets_see_witness:
  "fst (run_state (Get demo_cache Background ''user:42'') (cache_calls demo_cache
      [CGet Background ''user:42'', CDelete Background ''user:43'', CEvent \<lparr>Namespace = ''tasks'', ev_Kind = KindKey,
         Name = ''cistern:v1:tasks:-:k:user:42''\<rparr>]
      (snd (run_state (cache_Set demo_cache Background ''user:42'' [7] []) demo_world))))
      \<in> {Inr (Some [7]), Inr None}
    \<or> (\<exists>e. fst (run_state (Get demo_cache Background ''user:42'') (cache_calls demo_cache
      [CGet Background ''user:42'', CDelete Background ''user:43'', CEvent \<lparr>Namespace = ''tasks'', ev_Kind = KindKey,
         Name = ''cistern:v1:tasks:-:k:user:42''\<rparr>]
      (snd (run_state (cache_Set demo_cache Background ''user:42'' [7] []) demo_world)))) = Inl e
      \<and> ctx_error demo_cache Background e)"
  by (rule set_is_what_later_gets_see [OF demo_over _ _ demo_slot, where ctx = Background and opts = "[]"])
    (simp_all add: prod_eq_iff demo_Set demo_cache_fields raw_def)

text \<open>C2. After a \<open>Delete\<close> that reports success, nothing brings the old value back: a later \<open>Get\<close> of the key
  misses, or returns the error of its own context, until the key is written again.\<close>

theorem deleted_stays_deleted:
  assumes "over_memory ce1 ce2 rt b c w" "run_state (cache_Delete c ctx k) w = (None, w1)"
    and "slotFor c k = Inr s" "\<forall>call \<in> set cs. spares c (sl_pk s) call"
  shows "fst (run_state (Get c ctx' k) (cache_calls c cs w1)) = Inr None
    \<or> (\<exists>e. fst (run_state (Get c ctx' k) (cache_calls c cs w1)) = Inl e \<and> ctx_error c ctx' e)"
  using mem2.Delete_calls_Get [of w ce1 ce2 rt b c ctx k w1 s cs ctx'] over_memory_ok [OF assms(1)]
    assms(2-) by simp

theorem deleted_stays_deleted_witness:
  "fst (run_state (Get demo_cache Background ''user:42'') (cache_calls demo_cache [CSet Background ''user:43'' [8] []]
      (snd (run_state (cache_Delete demo_cache Background ''user:42'') demo_world)))) = Inr None
    \<or> (\<exists>e. fst (run_state (Get demo_cache Background ''user:42'') (cache_calls demo_cache [CSet Background ''user:43'' [8] []]
      (snd (run_state (cache_Delete demo_cache Background ''user:42'') demo_world)))) = Inl e
      \<and> ctx_error demo_cache Background e)"
proof (rule deleted_stays_deleted [OF demo_over _ demo_slot, where ctx = Background])
  have "validateKey ''user:43'' = None" by code_simp
  then have "slotFor demo_cache ''user:43''
    = Inr \<lparr>sl_key = ''user:43'', sl_pk = ''cistern:v1:tasks:-:k:user:43'', sl_genKeys = []\<rparr>"
    by (simp add: slotFor_def physicalKey_def demo_cache_fields MaxKeyBytes_def)
  then show "\<forall>call \<in> set [CSet Background ''user:43'' [8] []]. spares demo_cache (sl_pk \<lparr>sl_key = ''user:42'',
      sl_pk = ''cistern:v1:tasks:-:k:user:42'', sl_genKeys = []\<rparr>) call" by simp
qed (simp add: prod_eq_iff demo_Delete)

end
