(* ===== verification/RedisLaws.thy ===== *)
theory RedisLaws
  imports Redis TwoLevelRuns
begin

text \<open>
  The store of \<open>redisstore\<close> keeps the contract of \<open>StoreLaws\<close>, over any client that does what Redis
  documents for \<open>GET\<close>, \<open>SET\<close> and \<open>DEL\<close> and behind any guard that keeps the promise in the comment of
  \<open>Guard\<close>: it runs the operation at most once and returns its error or one of its own.
\<close>

section \<open>The promise of a guard\<close>

text \<open>\<open>own x y\<close>: the guard's own doing may lead from \<open>x\<close> to \<open>y\<close>.\<close>

definition guard_laws :: "('x \<Rightarrow> 'x \<Rightarrow> bool) \<Rightarrow> 'x Guard \<Rightarrow> bool" where
  "guard_laws own G \<longleftrightarrow> (\<forall>ctx op x cv. \<exists>x1. own x x1 \<and>
     ((\<exists>err. G ctx op (x, cv) = (Some err, x1, cv))
      \<or> (\<exists>ctx' err x' cv' x2 err'. op ctx' (x1, cv) = (err, x', cv') \<and> own x' x2
          \<and> G ctx op (x, cv) = (err', x2, cv') \<and> (err' = err \<or> err' \<noteq> None))))"

lemma guard_laws_pass: "(\<And>x. own x x) \<Longrightarrow> guard_laws own passGuard_Do"
  by (simp add: guard_laws_def passGuard_Do_def) (metis prod_cases3)

lemma guard_cases:
  assumes "guard_laws own G" "G ctx op (x, cv) = r"
  obtains (refused) x1 err where "own x x1" "r = (Some err, x1, cv)"
  | (ran) x1 ctx' err x' cv' x2 err' where "own x x1" "op ctx' (x1, cv) = (err, x', cv')" "own x' x2"
      "r = (err', x2, cv')" "err' = err \<or> err' \<noteq> None"
  using assms unfolding guard_laws_def by metis

section \<open>What Redis documents\<close>

locale redis_server =
  fixes C :: "'x client" and ok :: "'x \<Rightarrow> bool" and may :: "'x \<Rightarrow> string \<Rightarrow> bytes option"
  assumes GET_ok: "ok x \<Longrightarrow> ok (snd (rc_Get C ctx k x))"
    and SET_ok: "ok x \<Longrightarrow> ok (snd (rc_Set C ctx k v ttl x))"
    and DEL_ok: "ok x \<Longrightarrow> ok (snd (rc_Del C ctx k x))"
    and GET_may: "ok x \<Longrightarrow> fst (rc_Get C ctx k x) = Inr v \<Longrightarrow> may x k = Some v"
    and GET_keeps: "ok x \<Longrightarrow> may (snd (rc_Get C ctx k x)) j = Some u \<Longrightarrow> may x j = Some u"
    and SET_may: "ok x \<Longrightarrow> may (snd (rc_Set C ctx k v ttl x)) j = Some u \<Longrightarrow>
      (j = k \<and> u = v) \<or> (may x j = Some u \<and> (j = k \<longrightarrow> fst (rc_Set C ctx k v ttl x) \<noteq> None))"
    and DEL_may: "ok x \<Longrightarrow> may (snd (rc_Del C ctx k x)) j = Some u \<Longrightarrow>
      may x j = Some u \<and> (j = k \<longrightarrow> fst (rc_Del C ctx k x) \<noteq> None)"

text \<open>The store over such a server: the guard's own doing touches no key.\<close>

locale redis_store = redis_server C ok may
  for C :: "'x client" and ok may +
  fixes G :: "'x Guard" and timeout :: duration and rnd :: "'x \<Rightarrow> bytes option \<times> 'x"
  assumes guard: "guard_laws (\<lambda>x y. (ok x \<longrightarrow> ok y) \<and> may y = may x) G"
begin

definition guarded :: "'x rstore" where
  "guarded = \<lparr>rs_client = Some C, rs_timeout = timeout, rs_guard = Some G\<rparr>"

lemma call_cases:
  assumes "ok x" "rs_call guarded ctx (on_client guarded op) (x, cv) = r"
  obtains (refused) x1 err where "ok x1" "may x1 = may x" "r = (Some err, x1, cv)"
  | (ran) x1 ctx' err x' cv' x2 err' where "ok x1" "may x1 = may x" "op C ctx' (x1, cv) = (err, x', cv')"
      "ok x' \<Longrightarrow> ok x2" "may x2 = may x'" "r = (err', x2, cv')" "err' = err \<or> err' \<noteq> None"
proof -
  have r: "G ctx (\<lambda>ctx. on_client guarded op (WithTimeout ctx timeout)) (x, cv) = r"
    using assms(2) by (simp add: rs_call_def guarded_def)
  show thesis
  proof (rule guard_cases [OF guard r])
    fix x1 err assume "(ok x \<longrightarrow> ok x1) \<and> may x1 = may x" "r = (Some err, x1, cv)"
    then show thesis using refused assms(1) by blast
  next
    fix x1 ctx' err x' cv' x2 err'
    assume "(ok x \<longrightarrow> ok x1) \<and> may x1 = may x" "on_client guarded op (WithTimeout ctx' timeout) (x1, cv) = (err, x', cv')"
      "(ok x' \<longrightarrow> ok x2) \<and> may x2 = may x'" "r = (err', x2, cv')" "err' = err \<or> err' \<noteq> None"
    then show thesis using ran [of x1 "WithTimeout ctx' timeout" err x' cv' x2 err'] assms(1)
      by (simp add: on_client_def guarded_def)
  qed
qed

lemma Get_law:
  assumes "ok x"
  shows "ok (snd (rs_Get guarded ctx k x))"
    and "fst (rs_Get guarded ctx k x) = Inr (Some v) \<Longrightarrow> may x k = Some v"
    and "may (snd (rs_Get guarded ctx k x)) j = Some u \<Longrightarrow> may x j = Some u"
proof -
  let ?op = "\<lambda>cl ctx (x, cv). let (r, x) = rc_Get cl ctx k x in
      case r of Inl getErr \<Rightarrow> if errors_Is getErr redis_Nil then (None, x, cv) else (Some getErr, x, cv)
      | Inr v \<Rightarrow> (None, x, cv\<lparr>cv_value := Some v\<rparr>)"
  have "ok (snd (rs_Get guarded ctx k x)) \<and> (fst (rs_Get guarded ctx k x) = Inr (Some v) \<longrightarrow> may x k = Some v)
    \<and> (may (snd (rs_Get guarded ctx k x)) j = Some u \<longrightarrow> may x j = Some u)"
  proof (rule call_cases [OF assms refl, of ctx ?op nothing])
    fix x1 err assume "ok x1" "may x1 = may x"
      "rs_call guarded ctx (on_client guarded ?op) (x, nothing) = (Some err, x1, nothing)"
    then show ?thesis by (simp add: rs_Get_def)
  next
    fix x1 ctx' err x' cv' x2 err'
    assume x1: "ok x1" "may x1 = may x" and op: "?op C ctx' (x1, nothing) = (err, x', cv')"
      and x2: "ok x' \<Longrightarrow> ok x2" "may x2 = may x'"
      and r: "rs_call guarded ctx (on_client guarded ?op) (x, nothing) = (err', x2, cv')" "err' = err \<or> err' \<noteq> None"
    obtain g where g: "rc_Get C ctx' k x1 = (g, x')" "\<And>v. cv_value cv' = Some v \<Longrightarrow> g = Inr v"
      using op by (cases "rc_Get C ctx' k x1") (auto simp: nothing_def split: sum.splits if_splits)
    have "ok x'" "\<And>u. may x' j = Some u \<Longrightarrow> may x j = Some u" "\<And>v. cv_value cv' = Some v \<Longrightarrow> may x k = Some v"
      using GET_ok [OF x1(1), of ctx' k] GET_keeps [OF x1(1), of ctx' k j] GET_may [OF x1(1), of ctx' k] g x1(2) by auto
    then show ?thesis using x2 r by (auto simp: rs_Get_def split: option.splits)
  qed
  then show "ok (snd (rs_Get guarded ctx k x))" "fst (rs_Get guarded ctx k x) = Inr (Some v) \<Longrightarrow> may x k = Some v"
    "may (snd (rs_Get guarded ctx k x)) j = Some u \<Longrightarrow> may x j = Some u" by auto
qed

lemma Set_law:
  assumes "ok x"
  shows "ok (snd (rs_Set guarded ctx k v ttl x))"
    and "may (snd (rs_Set guarded ctx k v ttl x)) j = Some u \<Longrightarrow>
      (j = k \<and> u = v) \<or> (may x j = Some u \<and> (j = k \<longrightarrow> fst (rs_Set guarded ctx k v ttl x) \<noteq> None))"
proof -
  let ?op = "\<lambda>cl ctx (x, cv). let (err, x) = rc_Set cl ctx k v (max ttl Millisecond) x in (err, x, cv)"
  have "ok (snd (rs_Set guarded ctx k v ttl x)) \<and> (may (snd (rs_Set guarded ctx k v ttl x)) j = Some u \<longrightarrow>
      (j = k \<and> u = v) \<or> (may x j = Some u \<and> (j = k \<longrightarrow> fst (rs_Set guarded ctx k v ttl x) \<noteq> None)))"
  proof (cases "ttl \<le> 0")
    case False
    show ?thesis
    proof (rule call_cases [OF assms refl, of ctx ?op nothing])
      fix x1 err assume "ok x1" "may x1 = may x"
        "rs_call guarded ctx (on_client guarded ?op) (x, nothing) = (Some err, x1, nothing)"
      then show ?thesis using False by (simp add: rs_Set_def)
    next
      fix x1 ctx' err x' cv' x2 err'
      assume x1: "ok x1" "may x1 = may x" and op: "?op C ctx' (x1, nothing) = (err, x', cv')"
        and x2: "ok x' \<Longrightarrow> ok x2" "may x2 = may x'"
        and r: "rs_call guarded ctx (on_client guarded ?op) (x, nothing) = (err', x2, cv')" "err' = err \<or> err' \<noteq> None"
      have "rc_Set C ctx' k v (max ttl Millisecond) x1 = (err, x')" using op by (simp add: split_beta prod_eq_iff)
      then show ?thesis
        using SET_ok [OF x1(1), of ctx' k v "max ttl Millisecond"] SET_may [OF x1(1), of ctx' k v "max ttl Millisecond" j u]
          x1(2) x2 r False by (auto simp: rs_Set_def)
    qed
  qed (use assms in \<open>simp add: rs_Set_def\<close>)
  then show "ok (snd (rs_Set guarded ctx k v ttl x))"
    "may (snd (rs_Set guarded ctx k v ttl x)) j = Some u \<Longrightarrow>
      (j = k \<and> u = v) \<or> (may x j = Some u \<and> (j = k \<longrightarrow> fst (rs_Set guarded ctx k v ttl x) \<noteq> None))" by blast+
qed

lemma Delete_law:
  assumes "ok x"
  shows "ok (snd (rs_Delete guarded ctx k x))"
    and "may (snd (rs_Delete guarded ctx k x)) j = Some u \<Longrightarrow>
      may x j = Some u \<and> (j = k \<longrightarrow> fst (rs_Delete guarded ctx k x) \<noteq> None)"
proof -
  let ?op = "\<lambda>cl ctx (x, cv). let (err, x) = rc_Del cl ctx k x in (err, x, cv)"
  have "ok (snd (rs_Delete guarded ctx k x)) \<and> (may (snd (rs_Delete guarded ctx k x)) j = Some u \<longrightarrow>
      may x j = Some u \<and> (j = k \<longrightarrow> fst (rs_Delete guarded ctx k x) \<noteq> None))"
  proof (rule call_cases [OF assms refl, of ctx ?op nothing])
    fix x1 err assume "ok x1" "may x1 = may x"
      "rs_call guarded ctx (on_client guarded ?op) (x, nothing) = (Some err, x1, nothing)"
    then show ?thesis by (simp add: rs_Delete_def)
  next
    fix x1 ctx' err x' cv' x2 err'
    assume x1: "ok x1" "may x1 = may x" and op: "?op C ctx' (x1, nothing) = (err, x', cv')"
      and x2: "ok x' \<Longrightarrow> ok x2" "may x2 = may x'"
      and r: "rs_call guarded ctx (on_client guarded ?op) (x, nothing) = (err', x2, cv')" "err' = err \<or> err' \<noteq> None"
    have "rc_Del C ctx' k x1 = (err, x')" using op by (simp add: split_beta prod_eq_iff)
    then show ?thesis using DEL_ok [OF x1(1), of ctx' k] DEL_may [OF x1(1), of ctx' k j u] x1(2) x2 r
      by (auto simp: rs_Delete_def)
  qed
  then show "ok (snd (rs_Delete guarded ctx k x))" "may (snd (rs_Delete guarded ctx k x)) j = Some u \<Longrightarrow>
      may x j = Some u \<and> (j = k \<longrightarrow> fst (rs_Delete guarded ctx k x) \<noteq> None)" by blast+
qed

text \<open>So it is a store in the sense of the cache's contract.\<close>

sublocale store_laws "redis_Store rnd guarded" ok may
proof unfold_locales
  fix x ctx k j v u ttl assume ok: "ok x"
  note st = redis_Store_def Store.select_convs
  note G = Get_law [OF ok, of ctx k] and S = Set_law [OF ok, of ctx k v ttl] and D = Delete_law [OF ok, of ctx k]
  show "ok (snd (st_Get (redis_Store rnd guarded) ctx k x))" unfolding st by (rule G)
  show "ok (snd (st_Set (redis_Store rnd guarded) ctx k v ttl x))" unfolding st by (rule S)
  show "ok (snd (st_Delete (redis_Store rnd guarded) ctx k x))" unfolding st by (rule D)
  show "fst (st_Get (redis_Store rnd guarded) ctx k x) = Inr (Some v) \<Longrightarrow> may x k = Some v" unfolding st by (rule G)
  show "may (snd (st_Get (redis_Store rnd guarded) ctx k x)) j = Some u \<Longrightarrow> may x j = Some u" unfolding st by (rule G)
  show "j \<noteq> k \<Longrightarrow> may (snd (st_Set (redis_Store rnd guarded) ctx k v ttl x)) j = Some u \<Longrightarrow> may x j = Some u"
    unfolding st using S(2) by blast
  show "may (snd (st_Set (redis_Store rnd guarded) ctx k v ttl x)) k = Some u \<Longrightarrow> u = v \<or> may x k = Some u"
    unfolding st using S(2) by blast
  show "fst (st_Set (redis_Store rnd guarded) ctx k v ttl x) = None \<Longrightarrow>
      may (snd (st_Set (redis_Store rnd guarded) ctx k v ttl x)) k = Some u \<Longrightarrow> u = v"
    unfolding st using S(2) by blast
  show "may (snd (st_Delete (redis_Store rnd guarded) ctx k x)) j = Some u \<Longrightarrow> may x j = Some u"
    unfolding st using D(2) by blast
  show "fst (st_Delete (redis_Store rnd guarded) ctx k x) = None \<Longrightarrow>
      may (snd (st_Delete (redis_Store rnd guarded) ctx k x)) k = None"
    unfolding st using D(2) [of k] by (cases "may (snd (rs_Delete guarded ctx k x)) k") auto
qed

lemma is_store: "store_laws (redis_Store rnd guarded) ok may"
  by (rule store_laws_axioms)

end

section \<open>One generation per counter\<close>

lemma read_gens_length: "length (snd (read_gens n vs i gens)) = length gens"
  by (induction n vs i gens rule: read_gens.induct) (auto split: option.splits prod.splits)

lemma tagged_reply_length: "tagged_reply n vals cv = (None, cv') \<Longrightarrow> \<exists>gs. cv_gens cv' = Some gs \<and> length gs = n"
  using read_gens_length [of n _ 0 "replicate n 0"]
  by (auto simp: tagged_reply_def Let_def split: list.splits prod.splits option.splits)
    (metis length_replicate snd_conv)+

lemma rs_GetTagged_length:
  assumes "guard_laws own G" "rs_guard s = Some G" "fst (rs_GetTagged rnd s ctx key gks ttl x) = Inr (v, gs)"
  shows "length (elems gs) = length gks"
proof -
  obtain fresh x0 where x0: "newGenerations rnd (length gks) x = (Inr fresh, x0)" "\<not> ttl \<le> 0"
    using assms(3) by (auto simp: rs_GetTagged_def split: if_splits prod.splits sum.splits)
  define pipe where "pipe = map2 (\<lambda>gk f. SetNX gk f (max ttl Millisecond)) gks fresh @ [MGet (key # gks)]"
  define op where "op = on_client s (\<lambda>cl ctx (x, cv). let ((execErr, vals), x) = rc_Exec cl ctx pipe x in
    if execErr \<noteq> None \<and> \<not> errors_Is (the execErr) redis_Nil then (execErr, x, cv)
    else case tagged_reply (length gks) vals cv of (err, cv) \<Rightarrow> (err, x, cv))"
  obtain x1 cv where r: "rs_call s ctx op (x0, nothing) = (None, x1, cv)" "cv_gens cv = gs"
    using assms(3) x0 by (auto simp: rs_GetTagged_def op_def pipe_def Let_def split: prod.splits option.splits)
  have g: "G ctx (\<lambda>ctx. op (WithTimeout ctx (rs_timeout s))) (x0, nothing) = (None, x1, cv)"
    using r(1) assms(2) by (simp add: rs_call_def)
  from assms(1) g show ?thesis
  proof (cases rule: guard_cases)
    case (ran y ctx' err x' cv' x2 err')
    then have "op (WithTimeout ctx' (rs_timeout s)) (y, nothing) = (None, x', cv)" by auto
    then obtain vals where "tagged_reply (length gks) vals nothing = (None, cv)"
      by (auto simp: op_def on_client_def Let_def split: option.splits prod.splits if_splits)
    then show ?thesis using tagged_reply_length r(2) by (fastforce simp: elems_def)
  qed simp
qed

lemma redis_answers_all:
  "guard_laws own G \<Longrightarrow> rs_guard s = Some G \<Longrightarrow> st_tags (redis_Store rnd s) = Some t \<Longrightarrow> answers_all t"
  by (auto simp: answers_all_def redis_Store_def rs_GetTagged_length)

end
