(* ===== verification/RedisServer.thy ===== *)
theory RedisServer
  imports RedisLaws "HOL-Library.AList"
begin

text \<open>
  A small server to evaluate the store on: keys with values and expiry times, a clock that moves with every
  command, and a switch that takes it down.  It does what Redis documents for the commands the code uses,
  so it is an instance of \<open>redis_server\<close>, and with it the properties of \<open>RedisLaws\<close> have a witness.
\<close>

record redis =
  rd_keys :: "(string \<times> string \<times> time option) list"
  rd_now :: time
  rd_up :: bool

definition connection_refused :: error where
  "connection_refused = errors_New ''dial tcp: connection refused''"

definition rd_tick :: "redis \<Rightarrow> redis" where
  "rd_tick r = r\<lparr>rd_now := rd_now r + 1\<rparr>"

definition rd_live :: "redis \<Rightarrow> string \<Rightarrow> string option" where
  "rd_live r k =
     (case map_of (rd_keys r) k of None \<Rightarrow> None
      | Some (v, None) \<Rightarrow> Some v
      | Some (v, Some t) \<Rightarrow> if rd_now r < t then Some v else None)"

definition rd_put :: "string \<Rightarrow> string \<Rightarrow> time option \<Rightarrow> redis \<Rightarrow> redis" where
  "rd_put k v t r = r\<lparr>rd_keys := AList.update k (v, t) (rd_keys r)\<rparr>"

fun rd_cmd :: "rcmd \<Rightarrow> redis \<Rightarrow> (error option \<times> string option list) \<times> redis" where
  "rd_cmd (SetNX k v d) r =
     (if d \<le> 0 then ((Some (errors_New ''ERR invalid expire time''), []), r)
      else ((None, []), if rd_live r k = None then rd_put k v (Some (rd_now r + d)) r else r))"
| "rd_cmd (Incr k) r =
     (case rd_live r k of
        None \<Rightarrow> ((None, []), rd_put k ''1'' None r)
      | Some v \<Rightarrow>
          if is_decimal v \<and> decimal_value v < 2 ^ 63 - 1
          then ((None, []), rd_put k (decimal (decimal_value v + 1)) (snd (the (map_of (rd_keys r) k))) r)
          else ((Some (errors_New ''ERR value is not an integer or out of range''), []), r))"
| "rd_cmd (PExpire k d) r =
     ((None, []), case rd_live r k of None \<Rightarrow> r
      | Some v \<Rightarrow> if d \<le> 0 then r\<lparr>rd_keys := AList.delete k (rd_keys r)\<rparr> else rd_put k v (Some (rd_now r + d)) r)"
| "rd_cmd (MGet ks) r = ((None, map (rd_live r) ks), r)"

text \<open>A pipeline: every command runs; the first error is its error, and the last reply its reply.\<close>

fun rd_pipe :: "rcmd list \<Rightarrow> (error option \<times> string option list) \<Rightarrow> redis \<Rightarrow> (error option \<times> string option list) \<times> redis" where
  "rd_pipe [] (err, vals) r = ((err, vals), r)"
| "rd_pipe (c # cs) (err, vals) r =
     (case rd_cmd c r of ((err', vals'), r) \<Rightarrow> rd_pipe cs (if err = None then err' else err, vals') r)"

definition rd_client :: "redis client" where
  "rd_client = \<lparr>rc_ContextTimeoutEnabled = True,
     rc_Get = (\<lambda>ctx k r. (if \<not> rd_up r then Inl connection_refused
       else case rd_live r k of None \<Rightarrow> Inl redis_Nil | Some v \<Rightarrow> Inr (bytes_of v), rd_tick r)),
     rc_Set = (\<lambda>ctx k v d r. if \<not> rd_up r then (Some connection_refused, rd_tick r)
       else (None, rd_tick (rd_put k (string_of v) (Some (rd_now r + d)) r))),
     rc_Del = (\<lambda>ctx k r. if \<not> rd_up r then (Some connection_refused, rd_tick r)
       else (None, rd_tick (r\<lparr>rd_keys := AList.delete k (rd_keys r)\<rparr>))),
     rc_Exec = (\<lambda>ctx cs r. if \<not> rd_up r then ((Some connection_refused, []), rd_tick r)
       else apsnd rd_tick (rd_pipe cs (None, []) r)),
     rc_Publish = (\<lambda>ctx ch m r. (if rd_up r then None else Some connection_refused, rd_tick r))\<rparr>"

definition rd_may :: "redis \<Rightarrow> string \<Rightarrow> bytes option" where
  "rd_may r k = map_option (\<lambda>e. bytes_of (fst e)) (map_of (rd_keys r) k)"

lemma rd_may_simps [simp]: "rd_may (rd_tick r) = rd_may r"
  "rd_may (rd_put k v t r) j = (if j = k then Some (bytes_of v) else rd_may r j)"
  "rd_may (r\<lparr>rd_keys := AList.delete k (rd_keys r)\<rparr>) j = (if j = k then None else rd_may r j)"
  by (auto simp: rd_may_def rd_tick_def rd_put_def fun_eq_iff update_conv' delete_conv')

lemma rd_live_may: "rd_live r k = Some v \<Longrightarrow> rd_may r k = Some (bytes_of v)"
  by (auto simp: rd_live_def rd_may_def split: option.splits if_splits)

interpretation rd: redis_server rd_client "\<lambda>_. True" rd_may
  by unfold_locales (auto simp: rd_client_def rd_live_may split: option.splits if_splits)

text \<open>A source that always draws the same.\<close>

definition rd_rnd :: "redis \<Rightarrow> bytes option \<times> redis" where
  "rd_rnd r = (Some (be64 41), rd_tick r)"

interpretation rds: redis_store rd_client "\<lambda>_. True" rd_may passGuard_Do DefaultTimeout rd_rnd
  by unfold_locales (simp add: guard_laws_pass)

end
