(* ===== verification/RedisCache.thy ===== *)
theory RedisCache
  imports RedisServer
begin

text \<open>
  The cache over an in-process store and Redis, the deployment the library is made for: the properties
  of \<open>TwoLevelRuns\<close> for any Redis and guard that keep their documented behaviour, and what \<open>redisstore\<close>
  promises by itself, with the server of \<open>RedisServer\<close> as the witness.
\<close>

section \<open>The store a client and a guard make\<close>

lemma guarded_is: "rs_client s = Some C \<Longrightarrow> rs_guard s = Some G \<Longrightarrow> redis_store C ok may G \<Longrightarrow>
    redis_store.guarded C G (rs_timeout s) = s"
  by (simp add: redis_store.guarded_def)

text \<open>C37. Over a client that does what Redis documents and a guard that keeps its promise, the Redis store
  keeps the contract of a cistern \<open>Store\<close>: a \<open>Get\<close> returns only what was last set and not deleted since,
  a failed write may or may not have happened, and a reported one has.\<close>

theorem redis_Store_keeps_contract:
  assumes "redis_store C ok may G" "rs_client s = Some C" "rs_guard s = Some G"
  shows "store_laws (redis_Store rnd s) ok may"
  using redis_store.is_store [OF assms(1), of rnd "rs_timeout s"] guarded_is [OF assms(2,3,1)] by simp

definition demo_redis :: "redis rstore" where
  "demo_redis = projr (rs_New (Some rd_client) [])"

lemma demo_redis_fields [simp]: "rs_client demo_redis = Some rd_client" "rs_guard demo_redis = Some passGuard_Do"
  "rs_timeout demo_redis = DefaultTimeout"
  by (simp_all add: demo_redis_def rs_New_def rd_client_def DefaultTimeout_def Millisecond_def)

theorem redis_Store_keeps_contract_witness: "store_laws (redis_Store rd_rnd demo_redis) (\<lambda>_. True) rd_may"
  by (rule redis_Store_keeps_contract [OF rds.redis_store_axioms]) simp_all

lemma rs_call_same:
  assumes "\<And>ctx st. op C (WithTimeout ctx t) st = op C' (WithTimeout ctx t) st"
  shows "rs_call \<lparr>rs_client = Some C, rs_timeout = t, rs_guard = g\<rparr> ctx
      (on_client \<lparr>rs_client = Some C, rs_timeout = t, rs_guard = g\<rparr> op) st
    = rs_call \<lparr>rs_client = Some C', rs_timeout = t, rs_guard = g\<rparr> ctx
      (on_client \<lparr>rs_client = Some C', rs_timeout = t, rs_guard = g\<rparr> op) st"
proof -
  let ?s = "\<lambda>C. \<lparr>rs_client = Some C, rs_timeout = t, rs_guard = g\<rparr>"
  have "(\<lambda>ctx. on_client (?s C) op (WithTimeout ctx t)) = (\<lambda>ctx. on_client (?s C') op (WithTimeout ctx t))"
    using assms by (simp add: on_client_def fun_eq_iff)
  then show ?thesis by (cases g) (simp_all add: rs_call_def)
qed

text \<open>Every call of Redis is bounded: the store reaches the client only under a context with the store's
  own timeout, whatever the guard does and whatever deadline the caller has; two clients that agree on
  those contexts cannot be told apart through it.\<close>

theorem redis_calls_bounded:
  assumes "\<And>ctx. rc_Get C (WithTimeout ctx t) = rc_Get C' (WithTimeout ctx t)"
    and "\<And>ctx. rc_Set C (WithTimeout ctx t) = rc_Set C' (WithTimeout ctx t)"
    and "\<And>ctx. rc_Del C (WithTimeout ctx t) = rc_Del C' (WithTimeout ctx t)"
    and "\<And>ctx. rc_Exec C (WithTimeout ctx t) = rc_Exec C' (WithTimeout ctx t)"
  shows "redis_Store rnd \<lparr>rs_client = Some C, rs_timeout = t, rs_guard = g\<rparr>
    = redis_Store rnd \<lparr>rs_client = Some C', rs_timeout = t, rs_guard = g\<rparr>"
proof -
  let ?s = "\<lambda>C. \<lparr>rs_client = Some C, rs_timeout = t, rs_guard = g\<rparr>"
  note same = rs_call_same [where C = C and C' = C' and t = t and g = g]
  have "rs_Get (?s C) = rs_Get (?s C')" "rs_Set (?s C) = rs_Set (?s C')" "rs_Delete (?s C) = rs_Delete (?s C')"
    unfolding rs_Get_def rs_Set_def rs_Delete_def fun_eq_iff by (simp_all add: assms same cong: if_cong)
  moreover have "rs_GetTagged rnd (?s C) = rs_GetTagged rnd (?s C')" "rs_Bump rnd (?s C) = rs_Bump rnd (?s C')"
    unfolding rs_GetTagged_def rs_Bump_def fun_eq_iff Let_def by (simp_all add: assms same cong: if_cong sum.case_cong)
  ultimately show ?thesis by (simp add: redis_Store_def)
qed

text \<open>A client that answers no \<open>GET\<close> without a deadline.\<close>

definition strict_client :: "redis client" where
  "strict_client = rd_client\<lparr>rc_Get := (\<lambda>ctx k r. case ctx of WithTimeout _ _ \<Rightarrow> rc_Get rd_client ctx k r
     | _ \<Rightarrow> (Inl nil_panic, r))\<rparr>"

theorem redis_calls_bounded_witness:
  "redis_Store rd_rnd demo_redis = redis_Store rd_rnd (demo_redis\<lparr>rs_client := Some strict_client\<rparr>)"
proof -
  have "demo_redis = \<lparr>rs_client = Some rd_client, rs_timeout = DefaultTimeout, rs_guard = Some passGuard_Do\<rparr>"
    by (simp add: demo_redis_def rs_New_def rd_client_def DefaultTimeout_def Millisecond_def)
  then have d: "demo_redis = \<lparr>rs_client = Some rd_client, rs_timeout = DefaultTimeout, rs_guard = Some passGuard_Do\<rparr>"
    "demo_redis\<lparr>rs_client := Some strict_client\<rparr>
      = \<lparr>rs_client = Some strict_client, rs_timeout = DefaultTimeout, rs_guard = Some passGuard_Do\<rparr>" by simp_all
  show ?thesis unfolding d(2) unfolding d(1) by (rule redis_calls_bounded) (simp_all add: strict_client_def)
qed

section \<open>A cache over memory and Redis\<close>

definition over_redis :: "(ctx \<Rightarrow> error option) \<Rightarrow> 'b rstore \<Rightarrow> ('b \<Rightarrow> bytes option \<times> 'b) \<Rightarrow> ('b \<Rightarrow> bool) \<Rightarrow> 'e runtime
    \<Rightarrow> 'e Bus option \<Rightarrow> (('e, store, 'b) outside, 'k, 'v) cache \<Rightarrow> ('e, store, 'b) outside world \<Rightarrow> bool" where
  "over_redis ce s rnd ok rt b c w \<longleftrightarrow>
     ca_l1 c = Some (on_l1 (mem_Store ce)) \<and> ca_l2 c = Some (on_l2 (redis_Store rnd s))
     \<and> ca_rt c = rt_env rt \<and> ca_tagsFn c = None \<and> ca_bus c = map_option bus_env b
     \<and> mem_ok (fst (snd (w_ext w))) \<and> ok (snd (snd (w_ext w)))"

lemma over_redis_levels:
  assumes "over_redis ce s rnd ok rt b c w" "redis_store C ok may G" "rs_client s = Some C" "rs_guard s = Some G"
  shows "two_levels (mem_Store ce) mem_ok mem_may (redis_Store rnd s) ok may c rt"
    and "inner (\<lambda>x. mem_ok (fst x) \<and> ok (snd x)) w"
proof -
  have "ca_bus c = None \<or> (\<exists>b'. ca_bus c = Some (bus_env b'))" using assms(1) by (cases b) (auto simp: over_redis_def)
  then show "two_levels (mem_Store ce) mem_ok mem_may (redis_Store rnd s) ok may c rt"
    using assms(1) redis_store.is_store [OF assms(2), of rnd "rs_timeout s"] guarded_is [OF assms(3,4,2)]
    by (intro two_levels.intro two_levels_axioms.intro mem.store_laws_axioms) (simp_all add: over_redis_def)
  show "inner (\<lambda>x. mem_ok (fst x) \<and> ok (snd x)) w" using assms(1) by (simp add: over_redis_def inner_def)
qed

text \<open>C31. In a cache over an in-process store and Redis, behind any guard, a \<open>Set\<close> that reports success is what
  every later \<open>Get\<close> of the key returns, if it returns a value at all, and after a \<open>Delete\<close> that reports
  success no later \<open>Get\<close> returns one, until the key is written again: outages, refusals of a breaker and
  bus events in between included.\<close>

theorem redis_writes_hold:
  assumes "redis_store C ok may G" "rs_client s = Some C" "rs_guard s = Some G" "over_redis ce s rnd ok rt b c w"
    and "slotFor c k = Inr sl" "\<forall>call \<in> set cs. spares c (sl_pk sl) call"
    and "\<And>p. cd_Marshal (ca_codec c) v = Inr p \<Longrightarrow> cd_Unmarshal (ca_codec c) p = Inr v"
    and "run_state (if del then cache_Delete c ctx k else cache_Set c ctx k v opts) w = (None, w1)"
  shows "fst (run_state (Get c ctx' k) (cache_calls c cs w1)) \<in> (if del then {Inr None} else {Inr (Some v), Inr None})
    \<or> (\<exists>e. fst (run_state (Get c ctx' k) (cache_calls c cs w1)) = Inl e \<and> ctx_error c ctx' e)"
  using two_levels.Set_calls_Get [OF over_redis_levels [OF assms(4,1-3)], of ctx k v opts w1 sl cs ctx']
    two_levels.Delete_calls_Get [OF over_redis_levels [OF assms(4,1-3)], of ctx k w1 sl cs ctx'] assms(5-)
  by (cases del) auto

definition mixed_world :: "(unit, store, redis) outside world" where
  "mixed_world = \<lparr>w_ext = ((), demo_set, \<lparr>rd_keys = [], rd_now = 0, rd_up = True\<rparr>), w_gens = newGenCache 0, w_trace = []\<rparr>"

definition mixed_cache :: "((unit, store, redis) outside, string, bytes) cache" where
  "mixed_cache = projr (fst (run_state (New (rt_env demo_rt) demo_type raw ''tasks'' (Some (\<lambda>k. k))
     [WithL1 (Some (on_l1 (mem_Store (\<lambda>_. None)))), WithL2 (Some (on_l2 (redis_Store rd_rnd demo_redis))),
      WithTTL 60]) mixed_world))"

lemma mixed_fields:
  "ca_l1 mixed_cache = Some (on_l1 (mem_Store (\<lambda>_. None)))"
  "ca_l2 mixed_cache = Some (on_l2 (redis_Store rd_rnd demo_redis))"
  "ca_rt mixed_cache = rt_env demo_rt" "ca_tagsFn mixed_cache = None" "ca_bus mixed_cache = None"
  "ca_hooks mixed_cache = no_hooks" "ca_codec mixed_cache = raw" "key_fn mixed_cache = (\<lambda>k. k)"
  "namespace mixed_cache = ''tasks''" "prefix mixed_cache = ''cistern:v1:tasks:-:''" "hashKeys mixed_cache = False"
  by (simp_all add: mixed_cache_def New_def Let_def default_config_def WithL1_def WithL2_def WithTTL_def
      validate_def tasks_namespace math_IsNaN_def f64_neg_def f64_ge1_def DefaultMaxValueBytes_def raw_def
      uncacheableType_def demo_type_def floatOf_def State_Monad.return_def State_Monad.bind_def)

lemma mixed_over: "over_redis (\<lambda>_. None) demo_redis rd_rnd (\<lambda>_. True) demo_rt None mixed_cache mixed_world"
  by (simp add: over_redis_def mixed_fields mixed_world_def mem_state_ok [OF demo_state])

lemma mixed_slot: "slotFor mixed_cache ''user:42''
    = Inr \<lparr>sl_key = ''user:42'', sl_pk = ''cistern:v1:tasks:-:k:user:42'', sl_genKeys = []\<rparr>"
proof -
  have "validateKey ''user:42'' = None" by code_simp
  then show ?thesis by (simp add: slotFor_def physicalKey_def mixed_fields MaxKeyBytes_def)
qed

lemma mixed_Delete: "fst (run_state (cache_Delete mixed_cache Background ''user:42'') mixed_world) = None"
proof -
  have "run_state (ctxErr mixed_cache ctx) w = (None, w)" for ctx w
    by (simp add: ctxErr_def ext_def mixed_fields rt_env_def at_env_def demo_rt_def split: prod.splits)
  then have "wp (cache_Delete mixed_cache Background ''user:42'') (\<lambda>r w. r = None) mixed_world"
    using mem_Delete_succeeds [OF mem_state_ok [OF demo_state], of "\<lambda>_. None" Background]
    by (simp add: cache_Delete_def wp_bind wp_def [of "ctxErr _ _"] mixed_slot mixed_fields on_l1_def on_l2_def
        wp_l1 wp_l2 mixed_world_def publish_def wp_return errors_Join_def List.map_filter_def Let_def
        onInvalidate_def no_hooks_def wp_call_hook redis_Store_def rs_Delete_def rs_call_def on_client_def
        passGuard_Do_def rd_client_def)
  then show ?thesis by (simp add: wp_run)
qed

theorem redis_writes_hold_witness:
  "fst (run_state (Get mixed_cache Background ''user:42'') (cache_calls mixed_cache [CGet Background ''user:42'']
      (snd (run_state (cache_Delete mixed_cache Background ''user:42'') mixed_world)))) \<in> {Inr None}
    \<or> (\<exists>e. fst (run_state (Get mixed_cache Background ''user:42'') (cache_calls mixed_cache [CGet Background ''user:42'']
      (snd (run_state (cache_Delete mixed_cache Background ''user:42'') mixed_world)))) = Inl e
      \<and> ctx_error mixed_cache Background e)"
proof -
  let ?w1 = "snd (run_state (cache_Delete mixed_cache Background ''user:42'') mixed_world)"
  have del: "run_state (if True then cache_Delete mixed_cache Background ''user:42''
      else cache_Set mixed_cache Background ''user:42'' [] []) mixed_world = (None, ?w1)"
    by (simp add: prod_eq_iff mixed_Delete)
  show ?thesis
    using redis_writes_hold [OF rds.redis_store_axioms _ _ mixed_over mixed_slot _ _ del,
        where cs = "[CGet Background ''user:42'']" and ctx' = Background]
    by (simp add: mixed_fields raw_def)
qed

end
