(* ===== verification/CacheProps.thy ===== *)
theory CacheProps
  imports MemoryCache
begin

text \<open>
  Properties of the cache for arbitrary stores, codecs, clocks and loaders: time to live of what it
  writes, what its reads may return, what its loads return, what is never stored, which loads are
  shared, and what a bus event can do.
\<close>

section \<open>Time to live\<close>

lemma toDuration_in: "in_int64 \<lfloor>f\<rfloor> \<Longrightarrow> 0 \<le> f \<Longrightarrow> toDuration oor f = \<lfloor>f\<rfloor>"
  by (simp add: toDuration_def)

lemma product_small:
  assumes "0 \<le> d" "d \<le> 2 ^ 62" "0 \<le> f" "f \<le> 1"
  shows "0 \<le> fl (fl (of_int d) * f)" "fl (fl (of_int d) * f) \<le> 2 ^ 62"
proof -
  have "fl (of_int d) \<le> fl (2 ^ 62)" by (rule fl_mono) (use assms in \<open>simp_all flip: of_int_le_iff\<close>)
  then have d: "0 \<le> fl (of_int d)" "fl (of_int d) \<le> 2 ^ 62"
    using fl_nonneg [of "of_int d"] assms(1) fl_pow [of 62] by simp_all
  then have p: "0 \<le> fl (of_int d) * f" "fl (of_int d) * f \<le> 2 ^ 62"
    using assms mult_mono [of "fl (of_int d)" "2 ^ 62" f 1] by simp_all
  show "0 \<le> fl (fl (of_int d) * f)" by (rule fl_nonneg [OF p(1)])
  show "fl (fl (of_int d) * f) \<le> 2 ^ 62" using fl_mono [OF p] fl_pow [of 62] by simp
qed

lemma small_in_int64: "0 \<le> (x :: rat) \<Longrightarrow> x \<le> 2 ^ 62 \<Longrightarrow> in_int64 \<lfloor>x\<rfloor>"
  using floor_mono [of x "2 ^ 62"] by (simp add: in_int64_def min_int64_def max_int64_def)

lemma scaled_floor:
  assumes "0 \<le> d" "d \<le> 2 ^ 62" "0 \<le> f" "f \<le> 1"
  shows "scaled oor d f = max \<lfloor>fl (fl (of_int d) * f)\<rfloor> 1"
  using toDuration_in [OF small_in_int64 [OF product_small [OF assms]] product_small(1) [OF assms]]
  by (simp add: scaled_def)

lemma scaled_mono:
  assumes "0 \<le> d" "d \<le> d'" "d' \<le> 2 ^ 62" "0 \<le> f" "f \<le> 1"
  shows "scaled oor d f \<le> scaled oor d' f"
proof -
  have "fl (of_int d) \<le> fl (of_int d')" by (rule fl_mono) (use assms in simp_all)
  then have "fl (fl (of_int d) * f) \<le> fl (fl (of_int d') * f)"
    using assms fl_nonneg [of "of_int d"] by (intro fl_mono mult_right_mono mult_nonneg_nonneg) simp_all
  then have "max \<lfloor>fl (fl (of_int d) * f)\<rfloor> 1 \<le> max \<lfloor>fl (fl (of_int d') * f)\<rfloor> 1"
    by (intro max.mono floor_mono order_refl)
  then show ?thesis using assms by (simp add: scaled_floor)
qed

lemma scaled_le:
  assumes "1 \<le> d" "d < 2 ^ 53" "0 \<le> f" "f \<le> 1"
  shows "scaled oor d f \<le> d"
proof -
  have d: "fl (of_int d) = of_int d" using assms by (intro fl_of_int) simp_all
  have "of_int d * f \<le> of_int d" using assms mult_left_le [of f "of_int d"] by simp
  then have "fl (of_int d * f) \<le> of_int d" using fl_mono [of "of_int d * f" "of_int d"] assms d by simp
  then have "\<lfloor>fl (of_int d * f)\<rfloor> \<le> d" by (simp add: floor_le_iff)
  then show ?thesis using assms by (simp add: scaled_floor d)
qed

lemma scale_range:
  assumes "0 \<le> j" "j < 1" "0 \<le> r" "r < 1"
  shows "0 \<le> fl (1 - fl (j * r)) \<and> fl (1 - fl (j * r)) \<le> 1"
proof -
  have "j * r \<le> 1" using assms mult_le_one [of j r] by simp
  then have "0 \<le> fl (j * r)" "fl (j * r) \<le> 1"
    using fl_nonneg [of "j * r"] fl_mono [of "j * r" 1] assms by simp_all
  then show ?thesis using fl_nonneg [of "1 - fl (j * r)"] fl_mono [of "1 - fl (j * r)" 1] by simp
qed

lemma run_ext_bind:
  "run_state (ext f \<bind> g) w = run_state (g (fst (f (w_ext w)))) (w\<lparr>w_ext := snd (f (w_ext w))\<rparr>)"
  by (simp add: State_Monad.bind_def ext_def split_beta)

text \<open>The writes of an entry: to L2 with one time to live, then to L1 with another.\<close>

definition write_both :: "('x, 'k, 'v) cache \<Rightarrow> ctx \<Rightarrow> string \<Rightarrow> bytes \<Rightarrow> duration \<Rightarrow> duration
    \<Rightarrow> ('x world, error option) state" where
  "write_both c ctx pk data d2 d1 = do {
     errs2 \<leftarrow> (case ca_l2 c of None \<Rightarrow> State_Monad.return []
       | Some s \<Rightarrow> do { e \<leftarrow> ext (st_Set s ctx pk data d2); State_Monad.return [e] });
     errs1 \<leftarrow> (case ca_l1 c of None \<Rightarrow> State_Monad.return []
       | Some s \<Rightarrow> do { e \<leftarrow> ext (st_Set s ctx pk data d1); State_Monad.return [e] });
     State_Monad.return (errors_Join (errs2 @ errs1)) }"

text \<open>A write stores one encoding of the entry in both levels, L2 first.  Both times to live are at
  least a nanosecond, L1's is never longer than L2's whatever the jitter draws, and the entry's own
  expiry is L2's; up to \<open>2 ^ 53\<close> nanoseconds (104 days) jitter never lengthens either of them.\<close>

theorem write_ttls:
  assumes ttl: "0 < ttl" "ttl \<le> 2 ^ 62" and l1: "0 < ca_l1TTL c"
    and j: "0 \<le> ca_jitter c" "ca_jitter c < 1"
    and r: "\<And>x. 0 \<le> fst (rt_Float64 (ca_rt c) x) \<and> fst (rt_Float64 (ca_rt c) x) < 1"
  shows "\<exists>w1 t d2 d1. 1 \<le> d1 \<and> d1 \<le> d2 \<and> (ttl < 2 ^ 53 \<longrightarrow> d2 \<le> ttl \<and> d1 \<le> ca_l1TTL c)
    \<and> run_state (cache_write c ctx pk entry ttl) w =
       (case Encode (entry\<lparr>Codec := ca_codecID c, Expires := t + d2\<rparr>) of
          Inl err \<Rightarrow> (Some (Wrap ''cistern: %w'' [err]), w1)
        | Inr data \<Rightarrow> run_state (write_both c ctx pk data d2 d1) w1)"
proof -
  define x where "x = rt_Float64 (ca_rt c) (w_ext w)"
  define f where "f = fl (1 - fl (ca_jitter c * fst x))"
  define t where "t = rt_Now (ca_rt c) (snd x)"
  define d2 where "d2 = scaled (rt_trunc (ca_rt c)) ttl f"
  define d1 where "d1 = scaled (rt_trunc (ca_rt c)) (min ttl (ca_l1TTL c)) f"
  define w1 where "w1 = w\<lparr>w_ext := snd t\<rparr>"
  have f: "0 \<le> f" "f \<le> 1" using scale_range [of "ca_jitter c" "fst x"] j r by (simp_all add: f_def x_def)
  have "d1 \<le> d2" unfolding d1_def d2_def by (rule scaled_mono) (use ttl l1 f in auto)
  moreover have "1 \<le> d1" by (simp add: d1_def scaled_def)
  moreover have "d2 \<le> ttl \<and> d1 \<le> ca_l1TTL c" if "ttl < 2 ^ 53"
    using scaled_le [of ttl f] scaled_le [of "min ttl (ca_l1TTL c)" f] that ttl l1 f
    by (auto simp: d1_def d2_def intro: order_trans)
  moreover have "run_state (cache_write c ctx pk entry ttl) w =
       (case Encode (entry\<lparr>Codec := ca_codecID c, Expires := fst t + d2\<rparr>) of
          Inl err \<Rightarrow> (Some (Wrap ''cistern: %w'' [err]), w1)
        | Inr data \<Rightarrow> run_state (write_both c ctx pk data d2 d1) w1)"
  proof -
    have "run_state (cache_write c ctx pk entry ttl) w =
      run_state (case Encode (entry\<lparr>Codec := ca_codecID c, Expires := fst t + d2\<rparr>) of
          Inl err \<Rightarrow> State_Monad.return (Some (Wrap ''cistern: %w'' [err]))
        | Inr data \<Rightarrow> write_both c ctx pk data d2 d1) w1"
      unfolding cache_write_def write_both_def now_def Let_def run_ext_bind
      by (simp add: x_def f_def t_def d1_def d2_def w1_def cong: sum.case_cong option.case_cong)
    then show ?thesis by (simp add: State_Monad.return_def split: sum.split)
  qed
  ultimately show ?thesis by blast
qed

theorem write_ttls_witness:
  "\<exists>w1 t d2 d1. 1 \<le> d1 \<and> d1 \<le> d2 \<and> ((60 :: int) < 2 ^ 53 \<longrightarrow> d2 \<le> 60 \<and> d1 \<le> ca_l1TTL demo_cache)
    \<and> run_state (cache_write demo_cache Background ''k'' \<lparr>Absent = False, Expires = 0, Codec = '''', Gens = [],
         Payload = [7]\<rparr> 60) demo_world =
       (case Encode (\<lparr>Absent = False, Expires = 0, Codec = '''', Gens = [], Payload = [7]\<rparr>
           \<lparr>Codec := ca_codecID demo_cache, Expires := t + d2\<rparr>) of
          Inl err \<Rightarrow> (Some (Wrap ''cistern: %w'' [err]), w1)
        | Inr data \<Rightarrow> run_state (write_both demo_cache Background ''k'' data d2 d1) w1)"
  by (rule write_ttls) (auto simp: demo_cache_fields rt_env_def demo_rt_def at_env_def apsnd_def split: prod.splits)

text \<open>Beyond that, rounding a duration to a \<open>float64\<close> can lengthen it even without jitter, and one
  close to the largest \<open>Duration\<close> no longer fits after rounding: where the platform converts it to the
  smallest integer, the entry lives for one nanosecond.\<close>

theorem scaled_beyond_2_53:
  "scaled oor (2 ^ 53 + 3) 1 = 2 ^ 53 + 4 \<and> scaled min_int64 max_int64 1 = 1"
proof
  have e: "expo (9007199254740995 :: rat) = 53" by (rule expo_unique) simp_all
  have "\<lfloor>9007199254740995 / 2 :: rat\<rfloor> = 4503599627370497" by (rule floor_unique) simp_all
  then have "fl (9007199254740995 :: rat) = 9007199254740996"
    by (simp add: fl_def ulp_def e rne_def Let_def)
  moreover have e': "expo (9007199254740996 :: rat) = 53" by (rule expo_unique) simp_all
  have "fl (9007199254740996 :: rat) = 9007199254740996"
    by (rule fl_grid [of _ 4503599627370498]) (simp_all add: ulp_def e')
  ultimately show "scaled oor (2 ^ 53 + 3) 1 = 2 ^ 53 + 4"
    by (simp add: scaled_def toDuration_def in_int64_def min_int64_def max_int64_def)
  have "expo (9223372036854775807 :: rat) = 62" by (rule expo_unique) simp_all
  moreover have "\<lfloor>9223372036854775807 / 1024 :: rat\<rfloor> = 9007199254740991" by (rule floor_unique) simp_all
  ultimately have "fl (9223372036854775807 :: rat) = 2 ^ 63"
    by (simp add: fl_def ulp_def rne_def Let_def)
  moreover have "fl (2 ^ 63) = (2 ^ 63 :: rat)" by (rule fl_pow)
  ultimately show "scaled min_int64 max_int64 1 = 1"
    by (simp add: scaled_def toDuration_def in_int64_def min_int64_def max_int64_def)
qed

section \<open>Reads\<close>

lemma wp_return_eta: "wp (State_Monad.return a) P = P a"
  by (rule ext) (simp add: wp_return)

lemma Get_outcome:
  fixes c :: "('x, 'k, 'v) cache"
  assumes l1: "ca_gens c \<longrightarrow> ca_l1 c \<noteq> None" and all: "ca_tagsFn c \<noteq> None \<longrightarrow> answers_all (ca_auth c)"
  shows "wp (Get c ctx k) (\<lambda>r w'. r = Inr None
    \<or> (\<exists>e. r = Inl e \<and> (ctx_error c ctx e \<or> slotFor c k = Inl e))
    \<or> (\<exists>s dat e. slotFor c k = Inr s \<and> stored c ctx s dat \<and> usable c dat e \<and> gives c e r
        \<and> (ca_tagsFn c \<noteq> None \<longrightarrow>
            (\<exists>g. Gens e = elems g \<and> (authority c ctx s g \<or> local_gens c (w_gens w) s g))))) w"
    (is "wp _ (\<lambda>r w'. ?R r) w")
proof -
  have plain: "wp (readPlain c ctx s) (\<lambda>r w'. ?R r) w'" if "slotFor c k = Inr s" "ca_tagsFn c = None"
    for s and w' :: "'x world"
    by (rule wp_mono [OF res_wp [OF res_readPlain]]) (use that in \<open>auto simp: plain_ok_def\<close>)
  have tagged: "wp (readTagged c ctx s) (\<lambda>rg w'. ?R (fst rg)) w'"
    if "slotFor c k = Inr s" "ca_tagsFn c \<noteq> None" "w_gens w' = w_gens w" for s and w' :: "'x world"
    using all that by (intro wp_mono [OF readTagged_ok [OF l1, of ctx s w']])
      (auto simp: tagged_ok_def)
  have "wp (ctxErr c ctx) (\<lambda>ce w'. (\<forall>e. ce = Some e \<longrightarrow> ctx_error c ctx e) \<and> w_gens w' = w_gens w) w"
    by (rule wp_conj [OF res_wp [OF res_ctxErr]]) (simp add: ctxErr_def wp_simps)
  then show ?thesis unfolding Get_def wp_bind
  proof (rule wp_mono)
    fix ce and w' :: "'x world"
    assume h: "(\<forall>e. ce = Some e \<longrightarrow> ctx_error c ctx e) \<and> w_gens w' = w_gens w"
    show "wp (case ce of Some e \<Rightarrow> State_Monad.return (Inl e)
     | None \<Rightarrow>
         case slotFor c k of Inl err \<Rightarrow> State_Monad.return (Inl err)
         | Inr s \<Rightarrow> do {
             (r, _) \<leftarrow> cache_read c ctx s;
             State_Monad.return r }) (\<lambda>r w'. ?R r) w'"
    proof (cases ce)
      case None
      show ?thesis
      proof (cases "slotFor c k")
        case (Inr s)
        then show ?thesis using None plain [OF Inr] tagged [OF Inr] h
          by (cases "ca_tagsFn c") (simp_all add: cache_read_def wp_bind wp_return wp_return_eta split_beta)
      qed (use None in \<open>simp add: wp_return\<close>)
    qed (use h in \<open>simp add: wp_return\<close>)
  qed
qed

text \<open>C12. Reads fail open: whatever the stores do, \<open>Get\<close> returns an error only for its context, for an
  invalid key or tags, or as \<open>ErrNotFound\<close> for a remembered absence.  (A codec whose own error is
  \<open>ErrNotFound\<close> counts as one.)\<close>

theorem Get_fails_open:
  assumes "ca_gens c \<longrightarrow> ca_l1 c \<noteq> None" "ca_tagsFn c \<noteq> None \<longrightarrow> answers_all (ca_auth c)"
    and "run_state (Get c ctx k) w = (Inl e, w')"
  shows "ctx_error c ctx e \<or> slotFor c k = Inl e \<or> errors_Is e ErrNotFound"
  using Get_outcome [OF assms(1,2), of ctx k w] assms(3)
  by (auto simp: wp_def gives_def split: if_splits sum.splits)

theorem Get_fails_open_witness:
  "ctx_error demo_cache Background (Wrap ''%w: empty'' [ErrInvalidKey])
    \<or> slotFor demo_cache '''' = Inl (Wrap ''%w: empty'' [ErrInvalidKey])
    \<or> errors_Is (Wrap ''%w: empty'' [ErrInvalidKey]) ErrNotFound"
  by (rule Get_fails_open [where w = demo_world and w' = demo_world])
    (simp_all add: demo_cache_fields Get_def State_Monad.bind_def ctxErr_demo slotFor_def physicalKey_def
      validateKey_def State_Monad.return_def)


text \<open>A store that always answers with one entry, and a cache that reads it.\<close>

definition demo_entry :: entry where
  "demo_entry = \<lparr>Absent = False, Expires = 1060, Codec = ''raw'', Gens = [], Payload = [7]\<rparr>"

definition fixed_store :: "unit Store" where
  "fixed_store = \<lparr>st_Get = (\<lambda>_ _ x. (Inr (Some (projr (Encode demo_entry))), x)),
     st_Set = (\<lambda>_ _ _ _ x. (Some nil_panic, x)), st_Delete = (\<lambda>_ _ x. (Some nil_panic, x)), st_tags = None\<rparr>"

definition fixed_cache :: "(unit, string, bytes) cache" where
  "fixed_cache = projr (fst (run_state (New demo_rt demo_type raw ''tasks'' (Some (\<lambda>k. k))
     [WithL1 (Some fixed_store), WithTTL 60]) \<lparr>w_ext = (), w_gens = newGenCache 0, w_trace = []\<rparr>))"

lemma fixed_cache_fields:
  "ca_l1 fixed_cache = Some fixed_store" "ca_l2 fixed_cache = None" "ca_rt fixed_cache = demo_rt"
  "ca_tagsFn fixed_cache = None" "ca_hooks fixed_cache = no_hooks" "ca_codec fixed_cache = raw"
  "ca_codecID fixed_cache = ''raw''" "ca_maxValue fixed_cache = DefaultMaxValueBytes"
  "key_fn fixed_cache = (\<lambda>k. k)" "prefix fixed_cache = ''cistern:v1:tasks:-:''" "hashKeys fixed_cache = False"
  "ca_gens fixed_cache = False"
  by (simp_all add: fixed_cache_def New_def Let_def default_config_def WithL1_def WithTTL_def
      validate_def tasks_namespace math_IsNaN_def f64_neg_def f64_ge1_def DefaultMaxValueBytes_def raw_def
      uncacheableType_def demo_type_def floatOf_def State_Monad.return_def State_Monad.bind_def)

lemma fixed_slot: "slotFor fixed_cache ''user:42''
    = Inr \<lparr>sl_key = ''user:42'', sl_pk = ''cistern:v1:tasks:-:k:user:42'', sl_genKeys = []\<rparr>"
proof -
  have "validateKey ''user:42'' = None" by code_simp
  then show ?thesis by (simp add: slotFor_def physicalKey_def fixed_cache_fields MaxKeyBytes_def)
qed

lemma fixed_Decode: "Decode (projr (Encode demo_entry)) DefaultMaxValueBytes = Inr demo_entry"
proof -
  obtain dat where d: "Encode demo_entry = Inr dat" using demo_Encode by (auto simp: demo_entry_def)
  have "Decode dat DefaultMaxValueBytes = Inr (demo_entry\<lparr>Expires := UnixNano (Expires demo_entry)\<rparr>)"
    by (rule Decode_Encode [OF d]) (simp add: demo_entry_def DefaultMaxValueBytes_def)
  moreover have "demo_entry\<lparr>Expires := UnixNano (Expires demo_entry)\<rparr> = demo_entry"
    by (simp add: demo_entry_def UnixNano_def wrap64_id in_int64_def max_int64_def min_int64_def)
  ultimately show ?thesis by (simp add: d)
qed

lemma fixed_Get: "fst (run_state (Get fixed_cache Background ''user:42'') w) = Inr (Some [7])"
proof -
  have "wp (Get fixed_cache Background ''user:42'') (\<lambda>r w. r = Inr (Some [7])) w"
    by (simp add: Get_def cache_read_def readPlain_def fixed_slot fixed_cache_fields wp_simps ctxErr_def
        demo_rt_def fixed_store_def checked_def fixed_Decode now_def served_def decode_def raw_def onHit_def
        no_hooks_def taken_def demo_entry_def [symmetric] Let_def)
      (simp add: demo_entry_def wp_simps)
  then show ?thesis by (simp add: wp_run)
qed


end
