(* ===== verification/CacheLoad.thy ===== *)
theory CacheLoad
  imports CacheProps
begin

text \<open>
  Loading and writing, for arbitrary stores, codecs, clocks and loaders: what a load returns and what
  it stores, what is never stored, what \<open>GetOrLoad\<close> and \<open>Set\<close> answer, and which loads are shared.
\<close>

section \<open>What a load makes of its loader's result\<close>

text \<open>\<open>kept c ttl gens r\<close> is the entry and the lifetime to store for the loader's result \<open>r\<close>, if any.\<close>

definition load_payload :: "('x, 'k, 'v) cache \<Rightarrow> 'v result \<Rightarrow> bytes result" where
  "load_payload c r =
     (case r of Inl err \<Rightarrow> Inl err
      | Inr v \<Rightarrow>
          if uncacheable (ca_type c) v then Inl (Wrap ''%w: the loader returned a %T'' [ErrUncacheable])
          else case cd_Marshal (ca_codec c) v of
            Inl err \<Rightarrow> Inl (Wrap ''cistern: encoding value: %w'' [err])
          | Inr payload \<Rightarrow> Inr payload)"

definition kept :: "('x, 'k, 'v) cache \<Rightarrow> bool \<Rightarrow> duration \<Rightarrow> gens \<Rightarrow> 'v result \<Rightarrow> (entry \<times> duration) option" where
  "kept c cacheable ttl gens r =
     (if \<not> cacheable then None
      else case r of
        Inl (Panic _) \<Rightarrow> None
      | Inl err \<Rightarrow>
          if ca_negTTL c > 0 \<and> errors_Is err ErrNotFound
          then Some (\<lparr>Absent = True, Expires = 0, Codec = '''', Gens = elems gens, Payload = []\<rparr>, ca_negTTL c)
          else None
      | Inr v \<Rightarrow>
          case load_payload c r of
            Inl _ \<Rightarrow> None
          | Inr payload \<Rightarrow>
              if int (length payload) \<le> ca_maxValue c
              then Some (\<lparr>Absent = False, Expires = 0, Codec = '''', Gens = elems gens, Payload = payload\<rparr>, ttl)
              else None)"

lemma run_bind: "run_state (m \<bind> f) w = run_state (f (fst (run_state m w))) (snd (run_state m w))"
  by (simp add: State_Monad.bind_def split_beta)

lemma run_return: "run_state (State_Monad.return a) w = (a, w)"
  by (simp add: State_Monad.return_def)

lemma run_ext: "run_state (ext f) w = (fst (f (w_ext w)), w\<lparr>w_ext := snd (f (w_ext w))\<rparr>)"
  by (simp add: ext_def split_beta)

lemma run_hook: "run_state (call_hook hk ctx e) w
    = ((), w\<lparr>w_trace := w_trace w @ (if hk = None then [] else [e])\<rparr>)"
  using wp_call_hook [of hk ctx e "\<lambda>a w'. (a, w') = ((), w\<lparr>w_trace := w_trace w @ (if hk = None then [] else [e])\<rparr>)" w]
  by (simp add: wp_run prod_eq_iff)

lemmas run_simps = run_bind run_return run_ext run_hook

text \<open>The world after the loader and its two clock readings, and the report of the load.\<close>

definition after_load :: "('x, 'k, 'v) cache \<Rightarrow> slot \<Rightarrow> ctx \<Rightarrow> ('x, 'v) Loader \<Rightarrow> 'x world \<Rightarrow> 'v result \<times> 'x world" where
  "after_load c s loadCtx load w =
     (let (start, x) = rt_Now (ca_rt c) (w_ext w);
          (r, x) = load loadCtx x
      in case r of
        Inl (Panic p) \<Rightarrow> (r, w\<lparr>w_ext := x\<rparr>)
      | _ \<Rightarrow>
          let (t, x) = rt_Now (ca_rt c) x
          in (r, snd (run_state (onLoad c loadCtx (sl_key s) (sat64 (t - start))
                 (case r of Inl err \<Rightarrow> Some err | Inr _ \<Rightarrow> None)) (w\<lparr>w_ext := x\<rparr>))))"

lemma runLoad_run:
  fixes w :: "'x world" and load :: "('x, 'v) Loader"
  shows "run_state (runLoad c loadCtx s gens cacheable ttl load) w =
    (let (r, w1) = after_load c s loadCtx load w in
     (load_payload c r,
      case kept c cacheable ttl gens r of None \<Rightarrow> w1
      | Some (e, d) \<Rightarrow> snd (run_state (populate c loadCtx s e d) w1)))"
proof -
  obtain start x where s: "rt_Now (ca_rt c) (w_ext w) = (start, x)" by fastforce
  obtain r y where r: "load loadCtx x = (r, y)" by fastforce
  obtain t z where t: "rt_Now (ca_rt c) y = (t, z)" by fastforce
  show ?thesis
  proof (cases r)
    case (Inr v)
    then show ?thesis
      by (cases "OnLoad (ca_hooks c)"; cases "cd_Marshal (ca_codec c) v")
        (simp_all add: runLoad_def after_load_def run_simps s r t kept_def load_payload_def onLoad_def split_beta)
  next
    case (Inl err)
    then show ?thesis
      by (cases "OnLoad (ca_hooks c)"; cases err; cases "errors_Is err ErrNotFound")
        (simp_all add: runLoad_def after_load_def run_simps s r t kept_def load_payload_def onLoad_def
          split_beta ErrNotFound_def)
  qed
qed


section \<open>GetOrLoad\<close>

text \<open>What the error of a step can be, and the answers of \<open>GetOrLoad\<close> by where they come from.\<close>

definition refused :: "('x, 'k, 'v) cache \<Rightarrow> ctx \<Rightarrow> 'k \<Rightarrow> EntryOption list \<Rightarrow> error \<Rightarrow> bool" where
  "refused c ctx k opts e \<longleftrightarrow>
     ctx_error c ctx e \<or> entryOptions (ca_ttl c) opts = Inl e \<or> slotFor c k = Inl e"

definition read_answer :: "('x, 'k, 'v) cache \<Rightarrow> ctx \<Rightarrow> slot \<Rightarrow> 'v option result \<Rightarrow> bool" where
  "read_answer c ctx s r \<longleftrightarrow>
     r = Inr None \<or> (\<exists>e. r = Inl e \<and> ctx_error c ctx e)
     \<or> (\<exists>dat e. stored c ctx s dat \<and> usable c dat e \<and> gives c e r)"

definition loaded :: "('x, 'k, 'v) cache \<Rightarrow> ('x, 'v) Loader \<Rightarrow> 'v result \<Rightarrow> bool" where
  "loaded c load r \<longleftrightarrow> (\<exists>loadCtx x. r = loadResult c (load_payload c (fst (load loadCtx x))))"

definition flight_of :: "('x, 'k, 'v) cache \<Rightarrow> ctx \<Rightarrow> slot \<Rightarrow> flight \<Rightarrow> bool" where
  "flight_of c ctx s how \<longleftrightarrow> (\<exists>gens x. fst (rt_flight (ca_rt c) ctx
     (flightKey (sl_pk s) (ca_tagsFn c \<noteq> None) (sl_genKeys s) gens) (ca_loadTimeout c) x) = how)"

lemma after_load_fst: "\<exists>x. fst (after_load c s loadCtx load w) = fst (load loadCtx x)"
  by (rule exI [of _ "snd (rt_Now (ca_rt c) (w_ext w))"])
    (auto simp: after_load_def split_beta Let_def split: sum.split error.split)

lemma res_runLoad: "res (runLoad c loadCtx s gens cacheable ttl load)
    (\<lambda>p. \<exists>x. p = load_payload c (fst (load loadCtx x)))"
  unfolding res_def runLoad_run split_beta Let_def using after_load_fst by (metis fst_conv)

lemma res_cache_read:
  assumes l1: "ca_gens c \<longrightarrow> ca_l1 c \<noteq> None" and all: "ca_tagsFn c \<noteq> None \<longrightarrow> answers_all (ca_auth c)"
  shows "res (cache_read c ctx s) (\<lambda>rg. read_answer c ctx s (fst rg))"
proof (cases "ca_tagsFn c = None")
  case True
  then show ?thesis
    by (auto simp: cache_read_def read_answer_def plain_ok_def intro!: res_bind [OF res_readPlain] res_return)
next
  case False
  then have "wp (readTagged c ctx s) (\<lambda>rg w'. read_answer c ctx s (fst rg)) w" for w
    using all by (intro wp_mono [OF readTagged_ok [OF l1, of ctx s w]]) (auto simp: tagged_ok_def read_answer_def)
  then show ?thesis using False by (simp add: cache_read_def res_def wp_run)
qed

definition load_answer :: "('x, 'k, 'v) cache \<Rightarrow> ctx \<Rightarrow> 'k \<Rightarrow> ('x, 'v) Loader option \<Rightarrow> EntryOption list
    \<Rightarrow> 'v result \<Rightarrow> bool" where
  "load_answer c ctx k load opts r \<longleftrightarrow>
     (\<exists>e. r = Inl e \<and> (refused c ctx k opts e \<or> load = None \<and> errors_Is e ErrInvalidConfig))
     \<or> (\<exists>s. slotFor c k = Inr s \<and>
          ((\<exists>dat e. stored c ctx s dat \<and> usable c dat e \<and> gives c e (map_sum id Some r))
           \<or> (\<exists>l. load = Some l \<and> flight_of c ctx s Lead \<and> loaded c l r)
           \<or> (\<exists>e started. flight_of c ctx s (Abandon e started) \<and> r = Inl e)
           \<or> (\<exists>p. flight_of c ctx s (Join p) \<and> r = loadResult c p)))"

lemma res_GetOrLoad:
  fixes c :: "('x, 'k, 'v) cache"
  assumes l1: "ca_gens c \<longrightarrow> ca_l1 c \<noteq> None" and all: "ca_tagsFn c \<noteq> None \<longrightarrow> answers_all (ca_auth c)"
  shows "res (GetOrLoad c ctx k load opts) (load_answer c ctx k load opts)"
  unfolding GetOrLoad_def ctxErr_def
proof (rule res_bind [OF res_ext], intro res_option res_sum)
  fix ce e assume "\<exists>x. fst (rt_Err (ca_rt c) ctx x) = ce" "ce = Some e"
  then show "res (State_Monad.return (Inl e)) (load_answer c ctx k load opts)"
    by (intro res_return) (auto simp: load_answer_def refused_def ctx_error_def)
next
  fix ce l e s assume l: "load = Some l" and s: "slotFor c k = Inr s"
  let ?R = "load_answer c ctx k load opts"
  have lead: "?R (loadResult c p)" if "flight_of c ctx s Lead" "\<exists>x. p = load_payload c (fst (l loadCtx x))" for p loadCtx
    using that l s by (auto simp: load_answer_def loaded_def)
  have abandon: "?R (Inl er)" if "flight_of c ctx s (Abandon er st)" for er st
    using that s by (auto simp: load_answer_def)
  have join: "?R (loadResult c p)" if "flight_of c ctx s (Join p)" for p
    using that s by (auto simp: load_answer_def)
  have read: "?R r" if "read_answer c ctx s (map_sum id Some r)" for r
    using that s by (cases r) (auto simp: load_answer_def read_answer_def refused_def)
  show "res (do {
         (r, gens) \<leftarrow> cache_read c ctx s;
         case r of
           Inl err \<Rightarrow> State_Monad.return (Inl err)
         | Inr (Some v) \<Rightarrow> State_Monad.return (Inr v)
         | Inr None \<Rightarrow> do {
             let cacheable = (ca_tagsFn c = None \<or> gens \<noteq> None);
             let fn = runLoad c (WithTimeout (WithoutCancel ctx) (ca_loadTimeout c)) s gens cacheable (ec_ttl e) l;
             how \<leftarrow> ext (rt_flight (ca_rt c) ctx
               (flightKey (sl_pk s) (ca_tagsFn c \<noteq> None) (sl_genKeys s) gens) (ca_loadTimeout c));
             case how of
               Lead \<Rightarrow> do { p \<leftarrow> fn; State_Monad.return (loadResult c p) }
             | Abandon err started \<Rightarrow> do {
                 _ \<leftarrow> (if started then State_Monad.return () else onCoalesced c ctx (sl_key s));
                 _ \<leftarrow> fn;
                 State_Monad.return (Inl err) }
             | Join (Inl (Panic p)) \<Rightarrow> State_Monad.return (Inl (Panic p))
             | Join p \<Rightarrow> do {
                 _ \<leftarrow> onCoalesced c ctx (sl_key s);
                 State_Monad.return (loadResult c p) } } }) ?R"
  proof (rule res_bind [OF res_cache_read [OF l1 all]], simp only: split_beta, intro res_sum res_option res_let)
    fix rg :: "'v option result \<times> gens" and er
    assume "read_answer c ctx s (fst rg)" "fst rg = Inl er"
    then show "res (State_Monad.return (Inl er)) ?R" using read [of "Inl er"] by (intro res_return) simp
  next
    fix rg :: "'v option result \<times> gens" and got v
    assume "read_answer c ctx s (fst rg)" "fst rg = Inr got" "got = Some v"
    then show "res (State_Monad.return (Inr v)) ?R" using read [of "Inr v"] by (intro res_return) simp
  next
    fix rg :: "'v option result \<times> gens" and got
    let ?fn = "runLoad c (WithTimeout (WithoutCancel ctx) (ca_loadTimeout c)) s (snd rg)
      (ca_tagsFn c = None \<or> snd rg \<noteq> None) (ec_ttl e) l"
    show "res (do {
             how \<leftarrow> ext (rt_flight (ca_rt c) ctx
               (flightKey (sl_pk s) (ca_tagsFn c \<noteq> None) (sl_genKeys s) (snd rg)) (ca_loadTimeout c));
             case how of
               Lead \<Rightarrow> do { p \<leftarrow> ?fn; State_Monad.return (loadResult c p) }
             | Abandon err started \<Rightarrow> do {
                 _ \<leftarrow> (if started then State_Monad.return () else onCoalesced c ctx (sl_key s));
                 _ \<leftarrow> ?fn;
                 State_Monad.return (Inl err) }
             | Join (Inl (Panic p)) \<Rightarrow> State_Monad.return (Inl (Panic p))
             | Join p \<Rightarrow> do {
                 _ \<leftarrow> onCoalesced c ctx (sl_key s);
                 State_Monad.return (loadResult c p) } }) ?R"
    proof (rule res_bind [OF res_ext])
      fix how assume "\<exists>x. fst (rt_flight (ca_rt c) ctx
        (flightKey (sl_pk s) (ca_tagsFn c \<noteq> None) (sl_genKeys s) (snd rg)) (ca_loadTimeout c) x) = how"
      then have how: "flight_of c ctx s how" by (auto simp: flight_of_def)
      show "res (case how of
               Lead \<Rightarrow> do { p \<leftarrow> ?fn; State_Monad.return (loadResult c p) }
             | Abandon err started \<Rightarrow> do {
                 _ \<leftarrow> (if started then State_Monad.return () else onCoalesced c ctx (sl_key s));
                 _ \<leftarrow> ?fn;
                 State_Monad.return (Inl err) }
             | Join (Inl (Panic p)) \<Rightarrow> State_Monad.return (Inl (Panic p))
             | Join p \<Rightarrow> do {
                 _ \<leftarrow> onCoalesced c ctx (sl_key s);
                 State_Monad.return (loadResult c p) }) ?R"
      proof (cases how)
        case Lead
        then show ?thesis using how lead by (auto intro!: res_bind [OF res_runLoad] res_return)
      next
        case (Abandon err started)
        then show ?thesis using how abandon by (auto intro!: res_any res_return)
      next
        case (Join p)
        then have "?R (loadResult c p)" using how join by simp
        then show ?thesis using Join
          by (auto simp: loadResult_def split: sum.split error.split intro!: res_any res_return)
      qed
    qed
  qed
qed (auto simp: load_answer_def refused_def intro!: res_return)



text \<open>C22. An outage of every store costs only the load: when the context lives, key and options are valid
  and the caller leads, \<open>GetOrLoad\<close> returns the loader's value, unless a level held a usable entry.\<close>

theorem GetOrLoad_survives_outage:
  assumes l1: "ca_gens c \<longrightarrow> ca_l1 c \<noteq> None" and all: "ca_tagsFn c \<noteq> None \<longrightarrow> answers_all (ca_auth c)"
    and ctx: "\<And>x. fst (rt_Err (ca_rt c) ctx x) = None"
    and e: "entryOptions (ca_ttl c) opts = Inr e" and s: "slotFor c k = Inr s"
    and lead: "\<And>fk x. fst (rt_flight (ca_rt c) ctx fk (ca_loadTimeout c) x) = Lead"
    and v: "\<And>lc x. fst (load lc x) = Inr v" "\<not> uncacheable (ca_type c) v"
      "cd_Marshal (ca_codec c) v = Inr p" "cd_Unmarshal (ca_codec c) p = Inr v"
    and run: "run_state (GetOrLoad c ctx k (Some load) opts) w = (r, w')"
  shows "r = Inr v \<or> (\<exists>dat e. stored c ctx s dat \<and> usable c dat e \<and> gives c e (map_sum id Some r))"
proof -
  have "load_answer c ctx k (Some load) opts r" by (rule res_run [OF res_GetOrLoad [OF l1 all] run])
  then show ?thesis
    using ctx e s lead v by (auto simp: load_answer_def refused_def ctx_error_def flight_of_def loaded_def
        load_payload_def loadResult_def decode_def)
qed

text \<open>A cache whose only level fails every call.\<close>

definition outage_store :: "unit Store" where
  "outage_store = \<lparr>st_Get = (\<lambda>_ _ x. (Inl nil_panic, x)), st_Set = (\<lambda>_ _ _ _ x. (Some nil_panic, x)),
     st_Delete = (\<lambda>_ _ x. (Some nil_panic, x)), st_tags = None\<rparr>"

definition outage_cache :: "(unit, string, bytes) cache" where
  "outage_cache = fixed_cache\<lparr>ca_l1 := Some outage_store\<rparr>"

lemma outage_fields:
  "ca_l1 outage_cache = Some outage_store" "ca_l2 outage_cache = None" "ca_rt outage_cache = demo_rt"
  "ca_tagsFn outage_cache = None" "ca_gens outage_cache = False" "ca_codec outage_cache = raw"
  "ca_type outage_cache = demo_type" "ca_ttl outage_cache = 60" "ca_auth outage_cache = no_auth"
  by (simp_all add: outage_cache_def fixed_cache_fields)
    (simp_all add: fixed_cache_def New_def Let_def default_config_def WithL1_def WithTTL_def
      validate_def tasks_namespace math_IsNaN_def f64_neg_def f64_ge1_def DefaultMaxValueBytes_def raw_def
      uncacheableType_def demo_type_def floatOf_def State_Monad.return_def State_Monad.bind_def)

lemma slotFor_same:
  assumes "ca_tagsFn c = None" "ca_tagsFn d = None" "key_fn c = key_fn d" "prefix c = prefix d" "hashKeys c = hashKeys d"
  shows "slotFor c k = slotFor d k"
proof -
  have "physicalKey c k = physicalKey d k" by (simp only: physicalKey_def assms)
  then show ?thesis by (simp add: slotFor_def assms split: sum.split)
qed

lemma outage_slot: "slotFor outage_cache k = slotFor fixed_cache k"
  by (rule slotFor_same) (simp_all add: outage_cache_def fixed_cache_fields)


theorem GetOrLoad_survives_outage_witness:
  "fst (run_state (GetOrLoad outage_cache Background ''user:42'' (Some (\<lambda>_ x. (Inr [9], x))) [])
     \<lparr>w_ext = (), w_gens = newGenCache 0, w_trace = []\<rparr>) = Inr [9]"
proof -
  have "\<not> stored outage_cache Background s dat" for s dat
    by (simp add: stored_def outage_fields outage_store_def no_auth_def)
  then show ?thesis
    using GetOrLoad_survives_outage [OF _ _ _ _ _ _ _ _ _ _ prod.collapse [symmetric], where c = outage_cache
        and ctx = Background and opts = "[]" and k = "''user:42''" and load = "\<lambda>_ x. (Inr [9], x)"
        and v = "[9]" and w = "\<lparr>w_ext = (), w_gens = newGenCache 0, w_trace = []\<rparr>"]
    by (simp add: outage_fields outage_slot fixed_slot entryOptions_def demo_rt_def uncacheable_def
        demo_type_def raw_def)
qed

section \<open>Set\<close>

text \<open>\<open>Set\<close> refuses a value that implements \<open>NoCache\<close>, does not encode, or is too large, before any
  store is called: the only thing that moves is the reading of the context.\<close>

theorem Set_refuses:
  assumes "uncacheable (ca_type c) v \<or> (\<exists>e. cd_Marshal (ca_codec c) v = Inl e)
    \<or> (\<exists>p. cd_Marshal (ca_codec c) v = Inr p \<and> int (length p) > ca_maxValue c)"
  shows "\<exists>e. run_state (cache_Set c ctx k v opts) w = (Some e, w\<lparr>w_ext := snd (rt_Err (ca_rt c) ctx (w_ext w))\<rparr>)
    \<and> (refused c ctx k opts e
       \<or> (if uncacheable (ca_type c) v then errors_Is e ErrUncacheable
          else (\<exists>er. cd_Marshal (ca_codec c) v = Inl er \<and> errors_Is e er) \<or> errors_Is e ErrValueTooLarge))"
proof -
  have ctx: "ctx_error c ctx e" if "fst (rt_Err (ca_rt c) ctx (w_ext w)) = Some e" for e
    using that by (auto simp: ctx_error_def)
  show ?thesis
  proof (cases "uncacheable (ca_type c) v")
    case True
    then show ?thesis using ctx
      by (auto simp: cache_Set_def run_simps ctxErr_def refused_def split: option.split sum.split)
  next
    case no: False
    show ?thesis
    proof (cases "cd_Marshal (ca_codec c) v")
      case (Inl er)
      then show ?thesis using ctx no
        by (auto simp: cache_Set_def run_simps ctxErr_def refused_def split: option.split sum.split)
    next
      case (Inr p)
      then have "int (length p) > ca_maxValue c" using assms no by auto
      then show ?thesis using ctx no Inr
        by (auto simp: cache_Set_def run_simps ctxErr_def refused_def split: option.split sum.split)
    qed
  qed
qed

theorem Set_refuses_witness:
  "\<exists>e. run_state (cache_Set outage_cache Background ''user:42'' [0] [])
      \<lparr>w_ext = (), w_gens = newGenCache 0, w_trace = []\<rparr> = (Some e,
        \<lparr>w_ext = (), w_gens = newGenCache 0, w_trace = []\<rparr>) \<and> errors_Is e ErrUncacheable"
proof -
  have u: "uncacheable (ca_type outage_cache) [0]" by (simp add: outage_fields uncacheable_def demo_type_def)
  have "\<not> refused outage_cache Background ''user:42'' [] e" for e
    by (simp add: refused_def ctx_error_def outage_fields demo_rt_def outage_slot fixed_slot entryOptions_def)
  then show ?thesis
    using Set_refuses [of outage_cache "[0]" Background "''user:42''" "[]"
        "\<lparr>w_ext = (), w_gens = newGenCache 0, w_trace = []\<rparr>"] u
    by simp
qed

section \<open>Flight keys\<close>

definition digit :: "char \<Rightarrow> bool" where
  "digit ch \<longleftrightarrow> 48 \<le> (of_char ch :: nat) \<and> (of_char ch :: nat) < 58"

definition read_decimal :: "string \<Rightarrow> nat" where
  "read_decimal s = foldl (\<lambda>n ch. 10 * n + (of_char ch - 48)) 0 s"

lemma of_char_digit: "n < 10 \<Longrightarrow> of_char (char_of (48 + n :: nat) :: char) = 48 + n"
  by (simp add: of_char_of take_bit_eq_mod)

lemma decimal_digits: "decimal n \<noteq> [] \<and> (\<forall>ch \<in> set (decimal n). digit ch) \<and> read_decimal (decimal n) = n"
proof (induction n rule: decimal.induct)
  case (1 n)
  show ?case
  proof (cases "n < 10")
    case True
    then show ?thesis by (subst (1 2 3) decimal.simps) (simp add: digit_def read_decimal_def of_char_digit)
  next
    case False
    have "n mod 10 < 10" by simp
    then show ?thesis using False 1 [OF False]
      by (subst (1 2 3) decimal.simps) (auto simp: digit_def read_decimal_def of_char_digit)
  qed
qed

lemma FormatUint_inj: "FormatUint g = FormatUint h \<Longrightarrow> g = h"
  by (metis FormatUint_def decimal_digits word_unat_eq_iff)

lemma FormatUint_plain: "FormatUint g \<noteq> [] \<and> CHR ''.'' \<notin> set (FormatUint g) \<and> CHR ''?'' \<notin> set (FormatUint g)"
  using decimal_digits [of "unat g"] by (auto simp: FormatUint_def digit_def)

lemma join_set: "set (join sep ss) \<subseteq> set sep \<union> (\<Union> (set ` set ss))"
  by (induction sep ss rule: join.induct) auto

lemma join_Cons: "ss \<noteq> [] \<Longrightarrow> join sep (s # ss) = s @ sep @ join sep ss"
  by (cases ss) simp_all

lemma split_at: "x \<notin> set a \<Longrightarrow> x \<notin> set b \<Longrightarrow> a @ x # c = b @ x # d \<longleftrightarrow> a = b \<and> c = d"
proof (induction a arbitrary: b)
  case Nil
  then show ?case by (cases b) auto
next
  case (Cons y a)
  then show ?case by (cases b) auto
qed

lemma join_inj:
  assumes "\<forall>s \<in> set xs \<union> set ys. s \<noteq> [] \<and> ch \<notin> set s" "join [ch] xs = join [ch] ys"
  shows "xs = ys"
  using assms
proof (induction xs arbitrary: ys)
  case Nil
  then show ?case by (cases ys rule: list.exhaust; cases "tl ys = []") (auto simp: join_Cons)
next
  case (Cons x xs)
  then obtain y ys' where ys: "ys = y # ys'" by (cases ys; cases "xs = []") (auto simp: join_Cons)
  show ?case
  proof (cases "xs = []"; cases "ys' = []")
    assume "xs \<noteq> []" "ys' \<noteq> []"
    then have "x @ ch # join [ch] xs = y @ ch # join [ch] ys'"
      using Cons.prems(2) by (simp add: ys join_Cons)
    then have "x = y \<and> join [ch] xs = join [ch] ys'"
      using Cons.prems(1) ys by (simp add: split_at)
    then show ?thesis using Cons.IH [of ys'] Cons.prems(1) ys by simp
  next
    assume "xs = []" "ys' \<noteq> []"
    then have "ch \<in> set x" using Cons.prems(2) by (simp add: ys join_Cons)
    then show ?thesis using Cons.prems(1) by simp
  next
    assume "xs \<noteq> []" "ys' = []"
    then have "ch \<in> set y" using Cons.prems(2) by (simp add: ys join_Cons) (metis in_set_conv_decomp)
    then show ?thesis using Cons.prems(1) ys by simp
  qed (use Cons.prems ys in simp)
qed

lemma NUL_not_printable: "printable s \<Longrightarrow> NUL \<notin> set s"
  by (auto simp: printable_def NUL_def)

text \<open>The keys of a slot are printable, so \<open>NUL\<close> separates the parts of a flight key.\<close>

lemma genKeys_of_printable:
  "keyspace_ok c \<Longrightarrow> genKeys_of c tags = Inr gks \<Longrightarrow> \<forall>gk \<in> set gks. gk \<noteq> [] \<and> printable gk"
proof (induction tags arbitrary: gks)
  case (Cons t tags)
  then obtain g gs where g: "genKey c t = Inr g" "genKeys_of c tags = Inr gs" "gks = g # gs"
    by (auto split: sum.splits)
  have "g \<noteq> []" using genKey_Inr [OF g(1)] Cons.prems(1)
    by (simp add: keyspace_ok_def counter_prefix_def)
  then show ?case using Cons.IH [OF Cons.prems(1) g(2)] printable_keys(2) [OF Cons.prems(1) g(1)] g(3) by simp
qed simp

lemma slot_printable:
  assumes "keyspace_ok c" "slotFor c k = Inr s"
  shows "printable (sl_pk s)" "\<forall>gk \<in> set (sl_genKeys s). gk \<noteq> [] \<and> printable gk"
proof -
  have gks: "sl_genKeys s = [] \<or> (\<exists>tags. genKeys_of c tags = Inr (sl_genKeys s))"
    "physicalKey c k = Inr (sl_pk s)"
    using assms(2) by (auto simp: slotFor_def Let_def split: sum.splits option.splits if_splits)
  then show "printable (sl_pk s)" using printable_keys(1) [OF assms(1)] by blast
  show "\<forall>gk \<in> set (sl_genKeys s). gk \<noteq> [] \<and> printable gk"
    using gks genKeys_of_printable [OF assms(1)] by (metis empty_iff empty_set)
qed

lemma flightKey_inj:
  assumes ok: "keyspace_ok c" and s: "slotFor c k = Inr s" and t: "slotFor c l = Inr t"
    and key: "flightKey (sl_pk s) tagged (sl_genKeys s) g = flightKey (sl_pk t) tagged (sl_genKeys t) h"
  shows "sl_pk s = sl_pk t \<and> (if tagged then g = h \<and> (g = None \<longrightarrow> sl_genKeys s = sl_genKeys t) else True)"
proof (cases tagged)
  case False
  then show ?thesis using key by (simp add: flightKey_def)
next
  case True
  define tail where "tail gks gens = (case gens of None \<Rightarrow> CHR ''?'' # NUL # join [NUL] gks
      | Some gs \<Rightarrow> join ''.'' (map FormatUint gs))" for gks :: "string list" and gens :: gens
  have split: "flightKey pk True gks gens = pk @ NUL # tail gks gens" for pk gks gens
    by (simp add: flightKey_def tail_def split: option.split)
  have n: "NUL \<notin> set (sl_pk s)" "NUL \<notin> set (sl_pk t)"
    "\<forall>gk \<in> set (sl_genKeys s) \<union> set (sl_genKeys t). gk \<noteq> [] \<and> NUL \<notin> set gk"
    using slot_printable [OF ok s] slot_printable [OF ok t] NUL_not_printable by auto
  have eq: "sl_pk s = sl_pk t" "tail (sl_genKeys s) g = tail (sl_genKeys t) h"
    using key True n(1,2) by (simp_all add: split split_at)
  have q: "CHR ''?'' \<notin> set (join ''.'' (map FormatUint gs))" for gs
    using join_set [of "''.''" "map FormatUint gs"] FormatUint_plain by auto
  have "g = h \<and> (g = None \<longrightarrow> sl_genKeys s = sl_genKeys t)"
  proof (cases g; cases h)
    fix gs hs assume gh: "g = Some gs" "h = Some hs"
    then have "map FormatUint gs = map FormatUint hs"
      using eq(2) FormatUint_plain by (intro join_inj [of _ _ "CHR ''.''"]) (auto simp: tail_def)
    then show ?thesis using gh by (auto dest: map_injective intro: injI FormatUint_inj)
  next
    assume "g = None" "h = None"
    then show ?thesis using eq(2) join_inj [of "sl_genKeys s" "sl_genKeys t" NUL] n(3) by (simp add: tail_def)
  next
    fix gs assume "g = Some gs" "h = None"
    then show ?thesis using eq(2) q [of gs] by (metis tail_def option.case list.set_intros(1))
  next
    fix hs assume "g = None" "h = Some hs"
    then show ?thesis using eq(2) q [of hs] by (metis tail_def option.case list.set_intros(1))
  qed
  then show ?thesis using eq(1) True by simp
qed

text \<open>C25. Two loads of a cache share a flight only when they are of the same physical key and, in a tagged
  cache, read the same generations before loading (or both failed to, for the same tags): a load that
  began before an invalidation never serves a caller that arrived after it.\<close>

theorem flightKey_separates:
  assumes ok: "keyspace_ok c" and s: "slotFor c k = Inr s" and t: "slotFor c l = Inr t"
    and key: "flightKey (sl_pk s) tagged (sl_genKeys s) g = flightKey (sl_pk t) tagged (sl_genKeys t) h"
  shows "sl_pk s = sl_pk t \<and> (if tagged then g = h \<and> (g = None \<longrightarrow> sl_genKeys s = sl_genKeys t) else True)"
  by (rule flightKey_inj [OF assms])

lemma outage_keyspace: "keyspace_ok outage_cache"
proof -
  have "namespace fixed_cache = ''tasks''" "genPrefix fixed_cache = ''cistern:v1:tasks:g:''"
    by (simp_all add: fixed_cache_def New_def Let_def default_config_def WithL1_def WithTTL_def
      validate_def tasks_namespace math_IsNaN_def f64_neg_def f64_ge1_def DefaultMaxValueBytes_def raw_def
      uncacheableType_def demo_type_def floatOf_def State_Monad.return_def State_Monad.bind_def)
  then show ?thesis
    by (simp add: keyspace_ok_def outage_cache_def fixed_cache_fields tasks_namespace entry_prefix_def counter_prefix_def)
qed

theorem flightKey_separates_witness:
  "flightKey ''cistern:v1:tasks:-:k:user:42'' True [] (Some [7]) = flightKey ''cistern:v1:tasks:-:k:user:42'' True [] (Some [7])
    \<and> ''cistern:v1:tasks:-:k:user:42'' = sl_pk (projr (slotFor outage_cache ''user:42''))"
proof -
  have s: "slotFor outage_cache ''user:42'' = Inr (projr (slotFor outage_cache ''user:42''))"
    by (simp add: outage_slot fixed_slot)
  show ?thesis using flightKey_separates [OF outage_keyspace s s, of True "Some [7]" "Some [7]"]
    by (simp add: outage_slot fixed_slot)
qed

end
