(* ===== verification/RedisCounters.thy ===== *)
theory RedisCounters
  imports RedisCache CacheLoad
begin

text \<open>
  The tag counters of the Redis store, over a server that runs a pipeline as Redis documents its commands:
  in order, on the keys it holds, any of which may have expired before.  What \<open>Bump\<close> does to the counters,
  and what \<open>GetTagged\<close> reads of them.
\<close>

section \<open>What Redis documents of a pipeline\<close>

text \<open>The effect of the commands on the keys, and the last reply; \<open>None\<close> where a command would not be
  applied to a decimal number in range, of which nothing is said here.\<close>

fun cmd_run :: "rcmd list \<Rightarrow> (string \<rightharpoonup> string) \<Rightarrow> string option list \<Rightarrow> ((string \<rightharpoonup> string) \<times> string option list) option" where
  "cmd_run [] V r = Some (V, r)"
| "cmd_run (SetNX k v d # cs) V r = (if d \<le> 0 then None else cmd_run cs (if V k = None then V(k \<mapsto> v) else V) [])"
| "cmd_run (Incr k # cs) V r =
     (case V k of None \<Rightarrow> cmd_run cs (V(k \<mapsto> ''1'')) []
      | Some v \<Rightarrow> if is_decimal v \<and> decimal_value v < 2 ^ 63 - 1
          then cmd_run cs (V(k \<mapsto> decimal (decimal_value v + 1))) [] else None)"
| "cmd_run (PExpire k d # cs) V r = cmd_run cs (if d \<le> 0 then V(k := None) else V) []"
| "cmd_run (MGet ks # cs) V r = cmd_run cs V (map V ks)"

lemma cmd_run_append:
  "cmd_run (cs @ ds) V r = (case cmd_run cs V r of None \<Rightarrow> None | Some (V', r') \<Rightarrow> cmd_run ds V' r')"
proof (induction cs arbitrary: V r)
  case (Cons c cs)
  then show ?case by (cases c) (simp_all split: option.split del: fun_upd_apply)
qed simp

lemma decimal_ok [simp]: "is_decimal (decimal n)" "decimal_value (decimal n) = n"
  using decimal_digits [of n] by (auto simp: is_decimal_def decimal_value_def read_decimal_def digit_def)

definition "counter_ok n v \<longleftrightarrow> is_decimal v \<and> decimal_value v + n < 2 ^ 63" for n :: nat

text \<open>\<open>SET NX\<close> for every counter, and the three commands of a bump for every counter.\<close>

lemma run_creates:
  assumes "length fresh = length gks" "0 < d"
  shows "\<exists>V'. cmd_run (map2 (\<lambda>gk f. SetNX gk f d) gks fresh) V r = Some (V', if gks = [] then r else [])
    \<and> V \<subseteq>\<^sub>m V' \<and> (\<forall>k. V' k \<noteq> V k \<longrightarrow> k \<in> set gks \<and> (\<exists>f \<in> set fresh. V' k = Some f))
    \<and> set gks \<subseteq> dom V'"
  using assms(1)
proof (induction fresh gks arbitrary: V r rule: list_induct2)
  case (Cons f fs gk gks)
  let ?V = "if V gk = None then V(gk \<mapsto> f) else V"
  obtain V' where V': "cmd_run (map2 (\<lambda>gk f. SetNX gk f d) gks fs) ?V [] = Some (V', [])" "?V \<subseteq>\<^sub>m V'"
    "\<forall>k. V' k \<noteq> ?V k \<longrightarrow> k \<in> set gks \<and> (\<exists>f \<in> set fs. V' k = Some f)" "set gks \<subseteq> dom V'"
    using Cons.IH [of ?V "[]"] unfolding if_cancel by blast
  have "V \<subseteq>\<^sub>m ?V" "gk \<in> dom ?V" by (auto simp: map_le_def)
  then have "V \<subseteq>\<^sub>m V'" "gk \<in> dom V'"
    using V'(2) map_le_trans [of V ?V V'] map_le_implies_dom_le [of ?V V'] by blast+
  moreover have "k = gk \<and> V' k = Some f \<or> k \<in> set gks \<and> (\<exists>f \<in> set fs. V' k = Some f)" if "V' k \<noteq> V k" for k
    using that V'(2,3) by (cases "V' k = ?V k") (auto simp: map_le_def split: if_splits)
  ultimately show ?case using V'(1,4) assms(2) by auto
qed auto

lemma run_bumps:
  assumes "length fresh = length gks" "0 < d" "\<And>k v. V k = Some v \<Longrightarrow> k \<in> set gks \<Longrightarrow> counter_ok (length gks) v"
    and "\<And>f. f \<in> set fresh \<Longrightarrow> counter_ok (length gks) f"
  shows "\<exists>V' r'. cmd_run (concat (map2 (\<lambda>gk f. [SetNX gk f d, Incr gk, PExpire gk d]) gks fresh)) V r = Some (V', r')
    \<and> (\<forall>k. k \<notin> set gks \<longrightarrow> V' k = V k)
    \<and> (\<forall>k \<in> set gks. \<exists>v v'. (V k = Some v \<or> V k = None \<and> v \<in> set fresh) \<and> V' k = Some v'
        \<and> is_decimal v' \<and> decimal_value v' = decimal_value v + count_list gks k)"
  using assms(1,3-)
proof (induction fresh gks arbitrary: V r rule: list_induct2)
  case (Cons f fs gk gks)
  obtain v where v: "V gk = Some v \<or> V gk = None \<and> v = f" by (cases "V gk") auto
  let ?W = "V(gk \<mapsto> decimal (decimal_value v + 1))"
  have ok: "counter_ok (Suc (length gks)) v" using v Cons.prems(1) [of gk v] Cons.prems(2) [of f] by auto
  then have step: "cmd_run (concat (map2 (\<lambda>gk f. [SetNX gk f d, Incr gk, PExpire gk d]) (gk # gks) (f # fs))) V r
    = cmd_run (concat (map2 (\<lambda>gk f. [SetNX gk f d, Incr gk, PExpire gk d]) gks fs)) ?W []"
    using v assms(2) by (auto simp: counter_ok_def)
  have "counter_ok (length gks) u" if "?W k = Some u" "k \<in> set gks" for k u
    using that ok Cons.prems(1) [of k u] by (auto simp: counter_ok_def split: if_splits)
  moreover have "counter_ok (length gks) g" if "g \<in> set fs" for g
    using that Cons.prems(2) [of g] by (auto simp: counter_ok_def)
  ultimately obtain V' r' where V': "cmd_run (concat (map2 (\<lambda>gk f. [SetNX gk f d, Incr gk, PExpire gk d]) gks fs)) ?W []
      = Some (V', r')" "\<forall>k. k \<notin> set gks \<longrightarrow> V' k = ?W k"
    and each: "\<forall>k \<in> set gks. \<exists>v v'. (?W k = Some v \<or> ?W k = None \<and> v \<in> set fs) \<and> V' k = Some v'
        \<and> is_decimal v' \<and> decimal_value v' = decimal_value v + count_list gks k"
    using Cons.IH [of ?W "[]"] by blast
  have "\<exists>v v'. (V k = Some v \<or> V k = None \<and> v \<in> set (f # fs)) \<and> V' k = Some v'
        \<and> is_decimal v' \<and> decimal_value v' = decimal_value v + count_list (gk # gks) k" if "k \<in> set (gk # gks)" for k
  proof (cases "k = gk")
    case True
    then have "\<exists>v'. V' gk = Some v' \<and> is_decimal v' \<and> decimal_value v' = decimal_value v + 1 + count_list gks gk"
      using each V'(2) by (cases "gk \<in> set gks") (force simp: count_notin)+
    then show ?thesis using True v by auto
  next
    case False
    then show ?thesis using that each by force
  qed
  then show ?case using step V' by (intro exI [of _ V'] exI [of _ r']) auto
qed simp

section \<open>What the code reads of a reply\<close>

text \<open>The generations the store can draw in the states \<open>ok\<close>.\<close>

definition drawn :: "('x \<Rightarrow> bytes option \<times> 'x) \<Rightarrow> ('x \<Rightarrow> bool) \<Rightarrow> u64 \<Rightarrow> bool" where
  "drawn rnd ok g \<longleftrightarrow> (\<exists>x. ok x \<and> NewGeneration (fst (rnd x)) = Inr g)"

lemma ParseUint_value: "ParseUint s = (g, None) \<Longrightarrow> is_decimal s \<and> decimal_value s = unat g"
  by (auto simp: ParseUint_def unat_of_nat take_bit_nat_eq_self split: if_splits)

lemma ParseUint_FormatUint: "ParseUint (FormatUint g) = (g, None)"
proof -
  have "unat g < 2 ^ 64" using unsigned_less [of g] by simp
  then show ?thesis by (simp add: ParseUint_def FormatUint_def)
qed

lemma drawn_counter: "drawn rnd ok g \<Longrightarrow> n < 2 ^ 62 \<Longrightarrow> counter_ok n (FormatUint g)"
  using NewGeneration_range by (fastforce simp: drawn_def counter_ok_def FormatUint_def)

lemma read_gens_values:
  "read_gens n vs i gens = (None, gens') \<Longrightarrow> length gens = n \<Longrightarrow>
   (\<forall>j < i. j < n \<longrightarrow> gens' ! j = gens ! j) \<and>
   (\<forall>j < length vs. i + j < n \<and> (\<exists>str. vs ! j = Some str \<and> ParseUint str = (gens' ! (i + j), None)))"
proof (induction n vs i gens rule: read_gens.induct)
  case (2 n v vs i gens)
  obtain str g where v: "v = Some str" "ParseUint str = (g, None)" "i < n" "read_gens n vs (Suc i) (gens[i := g]) = (None, gens')"
    using "2.prems"(1) by (auto split: if_splits option.splits prod.splits)
  have IH: "(\<forall>j < Suc i. j < n \<longrightarrow> gens' ! j = gens[i := g] ! j) \<and>
      (\<forall>j < length vs. Suc i + j < n \<and> (\<exists>str. vs ! j = Some str \<and> ParseUint str = (gens' ! (Suc i + j), None)))"
    using "2.IH" [OF _ v(1) v(2) [symmetric] refl v(4)] v(3) "2.prems"(2) by simp
  have "gens' ! i = g" using IH v(3) "2.prems"(2) by auto
  then have "i + j < n \<and> (\<exists>str. (v # vs) ! j = Some str \<and> ParseUint str = (gens' ! (i + j), None))"
    if "j < length (v # vs)" for j
    using that IH v by (cases j) auto
  moreover have "\<forall>j < i. j < n \<longrightarrow> gens' ! j = gens ! j" using IH by auto
  ultimately show ?case by blast
qed simp

lemma tagged_reply_values:
  assumes "tagged_reply (length gks) (map V (key # gks)) nothing = (None, cv)"
  shows "cv_value cv = map_option bytes_of (V key)"
    and "\<exists>gs. cv_gens cv = Some gs \<and> (\<forall>i < length gks. \<exists>str. V (gks ! i) = Some str \<and> ParseUint str = (gs ! i, None))"
proof -
  obtain gs where r: "read_gens (length gks) (map V gks) 0 (replicate (length gks) 0) = (None, gs)"
    "cv = (case V key of None \<Rightarrow> nothing | Some str \<Rightarrow> nothing\<lparr>cv_value := Some (bytes_of str)\<rparr>)\<lparr>cv_gens := Some gs\<rparr>"
    using assms by (auto simp: tagged_reply_def Let_def split: prod.splits)
  show "cv_value cv = map_option bytes_of (V key)" by (simp add: r(2) nothing_def split: option.split)
  show "\<exists>gs. cv_gens cv = Some gs \<and> (\<forall>i < length gks. \<exists>str. V (gks ! i) = Some str \<and> ParseUint str = (gs ! i, None))"
    using read_gens_values [OF r(1)] r(2) by simp
qed

lemma newGenerations_drawn:
  assumes "\<And>x. ok x \<Longrightarrow> ok (snd (rnd x)) \<and> view (snd (rnd x)) \<subseteq>\<^sub>m view x"
  shows "newGenerations rnd n x = (r, x') \<Longrightarrow> ok x \<Longrightarrow> ok x' \<and> view x' \<subseteq>\<^sub>m view x \<and>
    (\<forall>fs. r = Inr fs \<longrightarrow> length fs = n \<and> (\<forall>f \<in> set fs. \<exists>g. drawn rnd ok g \<and> f = FormatUint g))"
proof (induction n arbitrary: x r x')
  case (Suc n)
  obtain d x1 where d: "rnd x = (d, x1)" by fastforce
  then have le: "ok x1" "view x1 \<subseteq>\<^sub>m view x" using assms [of x] Suc.prems(2) by simp_all
  show ?case
  proof (cases "NewGeneration d")
    case (Inl e)
    then show ?thesis using Suc.prems d le by auto
  next
    case (Inr g)
    obtain r' where r: "newGenerations rnd n x1 = (r', x')" "r = map_sum id (\<lambda>gs. FormatUint g # gs) r'"
      using Suc.prems d Inr by (cases "newGenerations rnd n x1") auto
    have "drawn rnd ok g" using Inr d Suc.prems(2) by (force simp: drawn_def intro!: exI [of _ x])
    then show ?thesis using Suc.IH [OF r(1) le(1)] le(2) r(2) by (cases r') (auto intro: map_le_trans)
  qed
qed simp

lemma max_ttl: "0 < max ttl Millisecond"
  by (simp add: Millisecond_def)

section \<open>The store over such a server\<close>

locale redis_counters =
  fixes C :: "'x client" and view :: "'x \<Rightarrow> string \<rightharpoonup> string" and G :: "'x Guard"
    and s :: "'x rstore" and rnd :: "'x \<Rightarrow> bytes option \<times> 'x" and ok :: "'x \<Rightarrow> bool"
  assumes client: "rs_client s = Some C" and rs_guard: "rs_guard s = Some G"
    and EXEC: "rc_Exec C ctx cs x = ((err, vals), x') \<Longrightarrow> err = None \<or> errors_Is (the err) redis_Nil \<Longrightarrow>
      \<exists>V. V \<subseteq>\<^sub>m view x \<and> (\<forall>V' r. cmd_run cs V [] = Some (V', r) \<longrightarrow> vals = r \<and> view x' \<subseteq>\<^sub>m V')"
    and EXEC_ok: "ok x \<Longrightarrow> ok (snd (rc_Exec C ctx cs x))"
    and guard: "guard_laws (\<lambda>x y. (ok x \<longrightarrow> ok y) \<and> view y \<subseteq>\<^sub>m view x) G"
    and draws: "ok x \<Longrightarrow> ok (snd (rnd x)) \<and> view (snd (rnd x)) \<subseteq>\<^sub>m view x"
begin

text \<open>What a call through the guard keeps, whatever comes of it.\<close>

lemma call_keeps:
  assumes "P x" and own: "\<And>x y. P x \<Longrightarrow> (ok x \<longrightarrow> ok y) \<and> view y \<subseteq>\<^sub>m view x \<Longrightarrow> P y" "\<And>x y. Q x \<Longrightarrow> (ok x \<longrightarrow> ok y) \<and> view y \<subseteq>\<^sub>m view x \<Longrightarrow> Q y"
    and "\<And>x. P x \<Longrightarrow> Q x" and op: "\<And>ctx x. P x \<Longrightarrow> Q (fst (snd (op C ctx (x, cv))))"
  shows "Q (fst (snd (rs_call s ctx (on_client s op) (x, cv))))"
proof -
  obtain r where r: "G ctx (\<lambda>ctx. on_client s op (WithTimeout ctx (rs_timeout s))) (x, cv) = r" by blast
  have "Q (fst (snd r))"
    using guard r
  proof (cases rule: guard_cases)
    case (refused x1 e)
    then show ?thesis using own(1) [OF assms(1)] assms(4) by simp
  next
    case (ran x1 ctx' e x2 cv2 x3 err')
    then have "op C (WithTimeout ctx' (rs_timeout s)) (x1, cv) = (e, x2, cv2)" by (simp add: on_client_def client)
    then have "Q x2" using op [OF own(1) [OF assms(1) ran(1)], of "WithTimeout ctx' (rs_timeout s)"] by simp
    from own(2) [OF this ran(3)] show ?thesis using ran(4) by simp
  qed
  then show ?thesis using r by (simp add: rs_call_def rs_guard)
qed

lemma call_ok: "ok x \<Longrightarrow> (\<And>ctx x. ok x \<Longrightarrow> ok (fst (snd (op C ctx (x, cv))))) \<Longrightarrow> ok (fst (snd (rs_call s ctx (on_client s op) (x, cv))))"
  by (rule call_keeps [of ok]) simp_all

lemma counters_ok:
  assumes "ok x"
  shows "ok (snd (rs_Bump rnd s ctx gks ttl x))" "ok (snd (rs_GetTagged rnd s ctx key gks ttl x))"
proof -
  obtain r x0 where f: "newGenerations rnd (length gks) x = (r, x0)" by fastforce
  have x0: "ok x0" using newGenerations_drawn [of ok rnd view, OF draws f assms] by blast
  show "ok (snd (rs_Bump rnd s ctx gks ttl x))"
    using f x0 assms by (auto simp: rs_Bump_def Let_def split_beta EXEC_ok intro!: call_ok split: sum.split)
  show "ok (snd (rs_GetTagged rnd s ctx key gks ttl x))"
    using f x0 assms by (auto simp: rs_GetTagged_def Let_def split_beta EXEC_ok intro!: call_ok split: sum.split option.split)
qed

lemma call:
  assumes "rs_call s ctx (on_client s op) (x, nothing) = (None, x', cv')" "ok x"
  obtains ctx' x1 x2 where "ok x1" "view x1 \<subseteq>\<^sub>m view x" "op C ctx' (x1, nothing) = (None, x2, cv')" "view x' \<subseteq>\<^sub>m view x2"
proof -
  have "G ctx (\<lambda>ctx. on_client s op (WithTimeout ctx (rs_timeout s))) (x, nothing) = (None, x', cv')"
    using assms(1) by (simp add: rs_call_def rs_guard)
  with guard show thesis
  proof (cases rule: guard_cases)
    case (ran x1 ctx' err x2 cv2 x3 err')
    then show thesis using that [of x1 "WithTimeout ctx' (rs_timeout s)" x2] assms(2) by (auto simp: on_client_def client)
  qed simp
qed

lemma Bump_law:
  assumes b: "rs_Bump rnd s ctx gks ttl x = (None, x')" and okx: "ok x" and n: "length gks < 2 ^ 62"
    and ok: "\<And>gk v. gk \<in> set gks \<Longrightarrow> view x gk = Some v \<Longrightarrow> counter_ok (length gks) v"
    and v': "view x' k = Some v'"
  shows "if k \<in> set gks then is_decimal v' \<and> (\<exists>v. (view x k = Some v \<or> (\<exists>g. drawn rnd ok g \<and> v = FormatUint g))
      \<and> decimal_value v' = decimal_value v + count_list gks k) else view x k = Some v'"
proof -
  obtain fresh x0 where f: "newGenerations rnd (length gks) x = (Inr fresh, x0)" "\<not> ttl \<le> 0"
    using b by (auto simp: rs_Bump_def split: if_splits prod.splits sum.splits)
  have fresh: "ok x0" "view x0 \<subseteq>\<^sub>m view x" "length fresh = length gks" "\<forall>f \<in> set fresh. \<exists>g. drawn rnd ok g \<and> f = FormatUint g"
    using newGenerations_drawn [of ok rnd view, OF draws f(1) okx] by auto
  define pipe where "pipe = concat (map2 (\<lambda>gk f. [SetNX gk f (max ttl Millisecond), Incr gk, PExpire gk (max ttl Millisecond)]) gks fresh)"
  obtain cv where c: "rs_call s ctx (on_client s (\<lambda>cl ctx (x, cv).
      let ((execErr, _), x) = rc_Exec cl ctx pipe x in (execErr, x, cv))) (x0, nothing) = (None, x', cv)"
    using b f by (auto simp: rs_Bump_def pipe_def Let_def split: prod.splits)
  obtain ctx' x1 x2 vals where e: "view x1 \<subseteq>\<^sub>m view x0" "rc_Exec C ctx' pipe x1 = ((None, vals), x2)" "view x' \<subseteq>\<^sub>m view x2"
    by (rule call [OF c fresh(1)]) (auto split: prod.splits)
  obtain V where V: "V \<subseteq>\<^sub>m view x1" "\<And>V' r. cmd_run pipe V [] = Some (V', r) \<Longrightarrow> view x2 \<subseteq>\<^sub>m V'"
    using EXEC [OF e(2)] by auto
  have le: "V k = Some v \<Longrightarrow> view x k = Some v" for k v
    using map_le_trans [OF V(1) map_le_trans [OF e(1) fresh(2)]] by (auto simp: map_le_def dom_def)
  have "counter_ok (length gks) f" if "f \<in> set fresh" for f using that fresh(4) drawn_counter [of rnd ok, OF _ n] by auto
  moreover have "counter_ok (length gks) v" if "V k = Some v" "k \<in> set gks" for k v using ok le that by blast
  ultimately obtain V' r' where V': "cmd_run pipe V [] = Some (V', r')" "\<forall>k. k \<notin> set gks \<longrightarrow> V' k = V k"
    "\<forall>k \<in> set gks. \<exists>v v'. (V k = Some v \<or> V k = None \<and> v \<in> set fresh) \<and> V' k = Some v'
        \<and> is_decimal v' \<and> decimal_value v' = decimal_value v + count_list gks k"
    using run_bumps [OF fresh(3) max_ttl, where V = V and r = "[]"] unfolding pipe_def by blast
  have "V' k = Some v'" using v' map_le_trans [OF e(3) V(2) [OF V'(1)]] by (auto simp: map_le_def dom_def)
  then show ?thesis using V'(2,3) le fresh(4) by (cases "k \<in> set gks") fastforce+
qed

lemma GetTagged_law:
  assumes b: "rs_GetTagged rnd s ctx key gks ttl x = (Inr (v, gs), x')" and okx: "ok x"
  obtains V where "view x' \<subseteq>\<^sub>m V" "v = map_option bytes_of (V key)"
    "\<And>k u. V k = Some u \<Longrightarrow> view x k = Some u \<or> k \<in> set gks \<and> (\<exists>g. drawn rnd ok g \<and> u = FormatUint g)"
    "\<And>i. i < length gks \<Longrightarrow> \<exists>str. V (gks ! i) = Some str \<and> ParseUint str = (elems gs ! i, None)"
proof -
  obtain fresh x0 where f: "newGenerations rnd (length gks) x = (Inr fresh, x0)" "\<not> ttl \<le> 0"
    using b by (auto simp: rs_GetTagged_def split: if_splits prod.splits sum.splits)
  have fresh: "ok x0" "view x0 \<subseteq>\<^sub>m view x" "length fresh = length gks" "\<forall>f \<in> set fresh. \<exists>g. drawn rnd ok g \<and> f = FormatUint g"
    using newGenerations_drawn [of ok rnd view, OF draws f(1) okx] by auto
  define pipe where "pipe = map2 (\<lambda>gk f. SetNX gk f (max ttl Millisecond)) gks fresh @ [MGet (key # gks)]"
  obtain cv where c: "rs_call s ctx (on_client s (\<lambda>cl ctx (x, cv). let ((execErr, vals), x) = rc_Exec cl ctx pipe x in
      if execErr \<noteq> None \<and> \<not> errors_Is (the execErr) redis_Nil then (execErr, x, cv)
      else case tagged_reply (length gks) vals cv of (err, cv) \<Rightarrow> (err, x, cv))) (x0, nothing) = (None, x', cv)"
    "v = cv_value cv" "gs = cv_gens cv"
    using b f by (auto simp: rs_GetTagged_def pipe_def Let_def split: prod.splits option.splits)
  obtain ctx' x1 x2 err vals where e: "view x1 \<subseteq>\<^sub>m view x0" "rc_Exec C ctx' pipe x1 = ((err, vals), x2)"
    "err = None \<or> errors_Is (the err) redis_Nil" "tagged_reply (length gks) vals nothing = (None, cv)" "view x' \<subseteq>\<^sub>m view x2"
    by (rule call [OF c(1) fresh(1)]) (auto split: prod.splits if_splits)
  obtain V where V: "V \<subseteq>\<^sub>m view x1" "\<And>V' r. cmd_run pipe V [] = Some (V', r) \<Longrightarrow> vals = r \<and> view x2 \<subseteq>\<^sub>m V'"
    using EXEC [OF e(2,3)] by auto
  have le: "V k = Some v \<Longrightarrow> view x k = Some v" for k v
    using map_le_trans [OF V(1) map_le_trans [OF e(1) fresh(2)]] by (auto simp: map_le_def dom_def)
  obtain V' where V': "cmd_run (map2 (\<lambda>gk f. SetNX gk f (max ttl Millisecond)) gks fresh) V [] = Some (V', [])"
    "\<forall>k. V' k \<noteq> V k \<longrightarrow> k \<in> set gks \<and> (\<exists>f \<in> set fresh. V' k = Some f)"
    using run_creates [OF fresh(3) max_ttl [of ttl], of V "[]"] unfolding if_cancel by blast
  then have r: "vals = map V' (key # gks)" "view x2 \<subseteq>\<^sub>m V'"
    using V(2) [of V' "map V' (key # gks)"] by (simp_all add: pipe_def cmd_run_append)
  note t = tagged_reply_values [of gks V' key cv] e(4) [unfolded r(1)]
  show thesis
  proof (rule that [of V'])
    show "view x' \<subseteq>\<^sub>m V'" by (rule map_le_trans [OF e(5) r(2)])
    show "v = map_option bytes_of (V' key)" using t c(2) by simp
    show "\<exists>str. V' (gks ! i) = Some str \<and> ParseUint str = (elems gs ! i, None)" if "i < length gks" for i
      using t that c(3) by (auto simp: elems_def)
    show "view x k = Some u \<or> k \<in> set gks \<and> (\<exists>g. drawn rnd ok g \<and> u = FormatUint g)" if "V' k = Some u" for k u
      using that V'(2) le [of k u] fresh(4) by (cases "V' k = V k") fastforce+
  qed
qed

end

section \<open>The server of \<open>RedisServer\<close>\<close>

lemma rd_live_put: "rd_live (rd_put k v (Some t) r) = (if rd_now r < t then (rd_live r)(k \<mapsto> v) else (rd_live r)(k := None))"
  "rd_live (rd_put k v None r) = (rd_live r)(k \<mapsto> v)"
  by (auto simp: rd_live_def rd_put_def fun_eq_iff update_conv' split: option.split)

lemma rd_live_keep: "rd_live r k = Some v \<Longrightarrow>
    rd_live (rd_put k u (snd (the (map_of (rd_keys r) k))) r) = (rd_live r)(k \<mapsto> u)"
  by (auto simp: rd_live_def rd_put_def fun_eq_iff update_conv' split: option.splits if_splits)

lemma rd_live_delete: "rd_live (r\<lparr>rd_keys := AList.delete k (rd_keys r)\<rparr>) = (rd_live r)(k := None)"
  by (auto simp: rd_live_def fun_eq_iff delete_conv' split: option.split)

lemma rd_live_tick: "rd_live (rd_tick r) \<subseteq>\<^sub>m rd_live r"
  by (auto simp: map_le_def rd_live_def rd_tick_def split: option.splits if_splits)

lemma rd_pipe_error: "fst (fst (rd_pipe cs (Some e, vals) r)) = Some e"
  by (induction cs arbitrary: vals r) (auto split: prod.splits)

lemma rd_pipe_run:
  "rd_pipe cs (None, vals) r = ((None, vals'), r') \<Longrightarrow> cmd_run cs (rd_live r) vals = Some (V', w) \<Longrightarrow>
   vals' = w \<and> rd_live r' = V'"
proof (induction cs arbitrary: vals r)
  case (Cons c cs)
  obtain err u r1 where c: "rd_cmd c r = ((err, u), r1)" by (metis prod.exhaust)
  have "err = None"
  proof (cases err)
    case (Some e)
    then show ?thesis using Cons.prems(1) c rd_pipe_error [of cs e u r1] by simp
  qed simp
  then have p: "rd_pipe cs (None, u) r1 = ((None, vals'), r')" using Cons.prems(1) c by simp
  have "cmd_run cs (rd_live r1) u = Some (V', w)"
    using c \<open>err = None\<close> Cons.prems(2)
    by (cases c) (auto simp: rd_live_put rd_live_keep rd_live_delete fun_upd_idem simp del: fun_upd_apply split: option.splits if_splits)
  then show ?case by (rule Cons.IH [OF p])
qed auto

lemma rd_cmd_errors: "fst (fst (rd_cmd c r)) = Some e \<Longrightarrow> \<not> errors_Is e redis_Nil"
  by (cases c) (auto simp: errors_New_def redis_Nil_def split: option.splits if_splits)

lemma rd_pipe_errors: "fst (fst (rd_pipe cs (None, vals) r)) = Some e \<Longrightarrow> \<not> errors_Is e redis_Nil"
proof (induction cs arbitrary: vals r)
  case (Cons c cs)
  obtain err u r1 where c: "rd_cmd c r = ((err, u), r1)" by (metis prod.exhaust)
  show ?case
  proof (cases err)
    case None
    then show ?thesis using Cons c by auto
  next
    case (Some e')
    then show ?thesis using Cons.prems c rd_pipe_error [of cs e' u r1] rd_cmd_errors [of c r e'] by simp
  qed
qed simp

interpretation rdc: redis_counters rd_client rd_live passGuard_Do demo_redis rd_rnd "\<lambda>_. True"
proof unfold_locales
  fix ctx cs x err vals x'
  assume run: "rc_Exec rd_client ctx cs x = ((err, vals), x')" and ok: "err = None \<or> errors_Is (the err) redis_Nil"
  have up: "rd_up x" using run ok by (auto simp: rd_client_def connection_refused_def errors_New_def redis_Nil_def split: if_splits)
  then obtain r' where r: "rd_pipe cs (None, []) x = ((err, vals), r')" "x' = rd_tick r'"
    using run by (auto simp: rd_client_def apsnd_def map_prod_def split: prod.splits)
  have "err = None" using rd_pipe_errors [of cs "[]" x] r ok by (cases err) auto
  then show "\<exists>V. V \<subseteq>\<^sub>m rd_live x \<and> (\<forall>V' w. cmd_run cs V [] = Some (V', w) \<longrightarrow> vals = w \<and> rd_live x' \<subseteq>\<^sub>m V')"
    using rd_pipe_run [of cs "[]" x vals r'] r rd_live_tick [of r'] by (intro exI [of _ "rd_live x"]) auto
qed (simp_all add: guard_laws_pass rd_rnd_def rd_live_tick)

section \<open>Properties\<close>

lemma ParseUint_sum:
  assumes "ParseUint s = (g, None)" "ParseUint t = (h, None)" "decimal_value t = decimal_value s + n"
  shows "h = g + of_nat n"
proof -
  have "unat h = unat g + n" using assms ParseUint_value by metis
  then have "(word_of_nat (unat h) :: u64) = word_of_nat (unat g + n)" by simp
  then show ?thesis by simp
qed

text \<open>A bump of a tag counter in Redis moves the generation that every later read is given: by the number
  of times the counter was named, and not at all when it was not.  The one exception is a counter that
  Redis lost in between, which starts again from a new random draw.\<close>

theorem redis_Bump_moves_generation:
  assumes R: "redis_counters C view G s rnd ok" and x: "ok x"
    and reads: "rs_GetTagged rnd s ctx key gks ttl x = (Inr (v, gs), x1)"
      "rs_Bump rnd s ctx' bks ttl' x1 = (None, x2)"
      "rs_GetTagged rnd s ctx'' key' hks ttl'' x2 = (Inr (v', gs'), x3)"
    and i: "i < length gks" "j < length hks" "gks ! i = hks ! j"
    and range: "length bks < 2 ^ 62" "\<And>gk u. gk \<in> set bks \<Longrightarrow> view x1 gk = Some u \<Longrightarrow> counter_ok (length bks) u"
  shows "elems gs' ! j = elems gs ! i + of_nat (count_list bks (gks ! i))
    \<or> (\<exists>g. drawn rnd ok g \<and> elems gs' ! j \<in> {g, g + of_nat (count_list bks (gks ! i))})"
proof -
  have xs: "ok x1" "ok x2"
    using redis_counters.counters_ok [OF R x] redis_counters.counters_ok [OF R, of x1] reads by (metis snd_conv)+
  obtain V where V: "view x1 \<subseteq>\<^sub>m V" "\<exists>str. V (gks ! i) = Some str \<and> ParseUint str = (elems gs ! i, None)"
    by (rule redis_counters.GetTagged_law [OF R reads(1) x]) (use i in blast)
  obtain W where W: "\<And>k u. W k = Some u \<Longrightarrow> view x2 k = Some u \<or> k \<in> set hks \<and> (\<exists>g. drawn rnd ok g \<and> u = FormatUint g)"
    "\<exists>str. W (hks ! j) = Some str \<and> ParseUint str = (elems gs' ! j, None)"
    by (rule redis_counters.GetTagged_law [OF R reads(3) xs(2)]) (use i in blast)
  obtain old new where old: "V (gks ! i) = Some old" "ParseUint old = (elems gs ! i, None)"
    and new: "W (gks ! i) = Some new" "ParseUint new = (elems gs' ! j, None)" using V(2) W(2) i(3) by auto
  have kept: "u = old" if "view x1 (gks ! i) = Some u" for u using that V(1) old(1) by (auto simp: map_le_def dom_def)
  show ?thesis
  proof (cases "view x2 (gks ! i) = Some new")
    case False
    then obtain g where "drawn rnd ok g" "new = FormatUint g" using W(1) [OF new(1)] by blast
    then show ?thesis using new(2) ParseUint_FormatUint [of g] by auto
  next
    case True
    have B: "if gks ! i \<in> set bks then is_decimal new \<and> (\<exists>u. (view x1 (gks ! i) = Some u \<or> (\<exists>g. drawn rnd ok g \<and> u = FormatUint g))
        \<and> decimal_value new = decimal_value u + count_list bks (gks ! i)) else view x1 (gks ! i) = Some new"
      by (rule redis_counters.Bump_law [OF R reads(2) xs(1) range(1) _ True]) (rule range(2))
    show ?thesis
    proof (cases "gks ! i \<in> set bks")
      case True
      then obtain u where u: "view x1 (gks ! i) = Some u \<or> (\<exists>g. drawn rnd ok g \<and> u = FormatUint g)"
        "decimal_value new = decimal_value u + count_list bks (gks ! i)" using B by auto
      from u(1) show ?thesis
      proof
        assume "view x1 (gks ! i) = Some u"
        then show ?thesis using kept u(2) ParseUint_sum [OF old(2) new(2)] by auto
      next
        assume "\<exists>g. drawn rnd ok g \<and> u = FormatUint g"
        then show ?thesis using u(2) ParseUint_sum [OF ParseUint_FormatUint new(2)] by blast
      qed
    next
      case False
      then show ?thesis using B kept old(2) new(2) by (auto simp: count_notin)
    qed
  qed
qed

text \<open>A read, a bump and a read on the small server.\<close>

definition read_1 :: "(bytes option \<times> gens) result \<times> redis" where
  "read_1 = rs_GetTagged rd_rnd demo_redis Background ''k'' [''t''] 1000000 \<lparr>rd_keys = [], rd_now = 1, rd_up = True\<rparr>"

definition bump_2 :: "error option \<times> redis" where
  "bump_2 = rs_Bump rd_rnd demo_redis Background [''t''] 1000000 (snd read_1)"

definition read_3 :: "(bytes option \<times> gens) result \<times> redis" where
  "read_3 = rs_GetTagged rd_rnd demo_redis Background ''k'' [''t''] 1000000 (snd bump_2)"

lemma decimal_42: "decimal 42 = ''42''" "decimal 43 = ''43''"
  by code_simp+

lemma draw_42: "newGenerations rd_rnd (Suc 0) r = (Inr [''42''], rd_tick r)"
  by (simp add: rd_rnd_def NewGeneration_def FormatUint_def decimal_42)

lemma parse_42: "ParseUint ''42'' = (42, None)" "ParseUint ''43'' = (43, None)"
  by (simp_all add: ParseUint_def is_decimal_def decimal_value_def)

lemma read_1: "read_1 = (Inr (None, Some [42]), \<lparr>rd_keys = [(''t'', ''42'', Some 1000002)], rd_now = 3, rd_up = True\<rparr>)"
  by (simp add: read_1_def rs_GetTagged_def draw_42 rs_call_def on_client_def passGuard_Do_def rd_client_def
      Millisecond_def rd_live_def rd_put_def rd_tick_def tagged_reply_def parse_42 nothing_def
      del: newGenerations.simps)

lemma bump_2: "bump_2 = (None, \<lparr>rd_keys = [(''t'', ''43'', Some 1000004)], rd_now = 5, rd_up = True\<rparr>)"
  by (simp add: bump_2_def read_1 rs_Bump_def draw_42 rs_call_def on_client_def passGuard_Do_def rd_client_def
      Millisecond_def rd_live_def rd_put_def rd_tick_def nothing_def is_decimal_def decimal_value_def decimal_42
      del: newGenerations.simps)

lemma read_3: "read_3 = (Inr (None, Some [43]), \<lparr>rd_keys = [(''t'', ''43'', Some 1000004)], rd_now = 7, rd_up = True\<rparr>)"
  by (simp add: read_3_def bump_2 rs_GetTagged_def draw_42 rs_call_def on_client_def passGuard_Do_def rd_client_def
      Millisecond_def rd_live_def rd_put_def rd_tick_def tagged_reply_def parse_42 nothing_def
      del: newGenerations.simps)

theorem redis_Bump_moves_generation_witness:
  "fst read_1 = Inr (None, Some [42]) \<and> fst read_3 = Inr (None, Some [43])
    \<and> ((43 :: u64) = 42 + of_nat (count_list [''t''] ''t'') \<or> (\<exists>g. drawn rd_rnd (\<lambda>_. True) g \<and> 43 \<in> {g, g + of_nat (count_list [''t''] ''t'')}))"
proof -
  have u: "u = ''42''" if "rd_live (snd read_1) ''t'' = Some u" for u
    using that by (simp add: read_1 rd_live_def)
  have ok: "counter_ok 1 ''42''" by (simp add: counter_ok_def is_decimal_def decimal_value_def)
  have "elems (Some [43 :: u64]) ! 0 = elems (Some [42]) ! 0 + of_nat (count_list [''t''] ([''t''] ! 0))
    \<or> (\<exists>g. drawn rd_rnd (\<lambda>_. True) g \<and> elems (Some [43]) ! 0 \<in> {g, g + of_nat (count_list [''t''] ([''t''] ! 0))})"
    by (rule redis_Bump_moves_generation [OF rdc.redis_counters_axioms TrueI read_1 [unfolded read_1_def]
          bump_2 [unfolded bump_2_def read_1 snd_conv] read_3 [unfolded read_3_def bump_2 snd_conv]])
      (use u [unfolded read_1 snd_conv] ok in auto)
  then show ?thesis by (simp add: read_1 read_3 elems_def)
qed

end
