(* ===== verification/CacheEvents.thy ===== *)
theory CacheEvents
  imports CacheLoad
begin

text \<open>
  What \<open>New\<close> guarantees of the cache it builds, what a bus event may do to one, and what reads see after
  a tag is invalidated; for arbitrary stores, codecs, clocks and buses.
\<close>

section \<open>Building a cache\<close>

lemma run_gens: "run_state (put_gens g) w = ((), w\<lparr>w_gens := g\<rparr>)" "run_state get_gens w = (w_gens w, w)"
  by (simp_all add: put_gens_def get_gens_def)

lemma jitter_range: "\<not> math_IsNaN f \<Longrightarrow> \<not> f64_neg f \<Longrightarrow> \<not> f64_ge1 f \<Longrightarrow> 0 \<le> floatOf f \<and> floatOf f < 1"
  by (cases f) (auto simp: math_IsNaN_def f64_neg_def f64_ge1_def floatOf_def)

lemma if_Some_None: "(if b then Some x else m) = None \<longleftrightarrow> \<not> b \<and> m = None"
  by simp

lemma validate_None:
  assumes "validate ns hasKey cfg = None"
  shows "namespacePattern ns" "cf_l1 cfg \<noteq> None \<or> cf_l2 cfg \<noteq> None" "0 < cf_ttl cfg"
    "cf_l1TTLSet cfg \<longrightarrow> 0 < cf_l1TTL cfg \<and> cf_l1TTL cfg \<le> cf_ttl cfg"
    "0 \<le> floatOf (cf_jitter cfg) \<and> floatOf (cf_jitter cfg) < 1" "0 < cf_maxValue cfg"
    "cf_codec cfg \<noteq> None" "1 \<le> length (cd_ID (the (cf_codec cfg))) \<and> length (cd_ID (the (cf_codec cfg))) \<le> maxCodecID"
proof -
  note v = assms [unfolded validate_def if_Some_None]
  show "namespacePattern ns" "0 < cf_ttl cfg" "0 < cf_maxValue cfg"
    "cf_l1TTLSet cfg \<longrightarrow> 0 < cf_l1TTL cfg \<and> cf_l1TTL cfg \<le> cf_ttl cfg"
    using v by (simp_all add: not_le not_less)
  have "cf_l1Set cfg \<or> cf_l2Set cfg" "cf_l1Set cfg \<longrightarrow> cf_l1 cfg \<noteq> None" "cf_l2Set cfg \<longrightarrow> cf_l2 cfg \<noteq> None"
    using v by simp_all
  then show "cf_l1 cfg \<noteq> None \<or> cf_l2 cfg \<noteq> None" by blast
  show "0 \<le> floatOf (cf_jitter cfg) \<and> floatOf (cf_jitter cfg) < 1" using v by (intro jitter_range) simp_all
  have c: "(case cf_codec cfg of None \<Rightarrow> Some (errors_New ''codec is nil'')
        | Some cd \<Rightarrow>
            if length (cd_ID cd) < 1 \<or> length (cd_ID cd) > 32
            then Some (errors_New ''codec id must be 1 to 32 bytes'') else None) = None"
    using v by blast
  then show "cf_codec cfg \<noteq> None" by (auto split: option.splits)
  then obtain cd where cd: "cf_codec cfg = Some cd" by blast
  from c show "1 \<le> length (cd_ID (the (cf_codec cfg))) \<and> length (cd_ID (the (cf_codec cfg))) \<le> maxCodecID"
    unfolding cd option.case if_Some_None maxCodecID_def by (simp add: Suc_le_eq)
qed

lemma tagging_auth: "tagging cfg = Inr (fn, auth) \<Longrightarrow>
    (case cf_l2 cfg of Some s \<Rightarrow> st_tags s = Some auth | None \<Rightarrow> \<exists>s. cf_l1 cfg = Some s \<and> st_tags s = Some auth)"
  by (auto simp: tagging_def Let_def split: tags_any.splits option.splits if_splits bind_splits)

text \<open>What every other property may assume of a cache: its key space, levels, lifetimes, limits, and
  where its tag generations are kept.\<close>

definition built :: "('x, 'k, 'v) cache \<Rightarrow> bool" where
  "built c \<longleftrightarrow> keyspace_ok c \<and> (ca_l1 c \<noteq> None \<or> ca_l2 c \<noteq> None)
     \<and> 0 < ca_ttl c \<and> 0 < ca_l1TTL c \<and> ca_l1TTL c \<le> ca_ttl c \<and> 0 \<le> ca_jitter c \<and> ca_jitter c < 1
     \<and> 0 < ca_maxValue c \<and> 1 \<le> length (ca_codecID c) \<and> length (ca_codecID c) \<le> maxCodecID
     \<and> \<not> uncacheableType (ca_type c)
     \<and> (ca_gens c \<longleftrightarrow> ca_tagsFn c \<noteq> None \<and> ca_l1 c \<noteq> None \<and> ca_l2 c \<noteq> None)
     \<and> (ca_tagsFn c \<noteq> None \<longrightarrow> (case ca_l2 c of Some s \<Rightarrow> st_tags s = Some (ca_auth c)
         | None \<Rightarrow> \<exists>s. ca_l1 c = Some s \<and> st_tags s = Some (ca_auth c)))
     \<and> (ca_bus c \<noteq> None \<longleftrightarrow> ca_unsubscribe c \<noteq> None)"

text \<open>The cache that \<open>New\<close> makes of a configuration, before it subscribes to the bus.\<close>

definition New_cache :: "'x runtime \<Rightarrow> 'v gotype \<Rightarrow> string \<Rightarrow> ('k \<Rightarrow> string) option \<Rightarrow> ('x, 'k, 'v) config
    \<Rightarrow> ('k \<Rightarrow> string list) option \<Rightarrow> 'x TagStore \<Rightarrow> ('x, 'k, 'v) cache" where
  "New_cache rt ty ns key cfg fn auth = \<lparr>namespace = ns, key_fn = the key, prefix = ''cistern:v1:'' @ ns @ '':-:'',
      genPrefix = ''cistern:v1:'' @ ns @ '':g:'', hashKeys = cf_hashKeys cfg,
      ca_l1 = cf_l1 cfg, ca_l2 = cf_l2 cfg, ca_ttl = cf_ttl cfg,
      ca_l1TTL = (if cf_l1TTLSet cfg then cf_l1TTL cfg else cf_ttl cfg),
      ca_negTTL = cf_negTTL cfg, ca_jitter = floatOf (cf_jitter cfg),
      ca_loadTimeout = cf_loadTimeout cfg, ca_maxValue = cf_maxValue cfg,
      ca_codec = the (cf_codec cfg), ca_codecID = cd_ID (the (cf_codec cfg)), ca_rt = rt,
      ca_type = ty, ca_hooks = cf_hooks cfg, ca_hookKeys = cf_hookKeys cfg,
      ca_tagsFn = fn, ca_auth = auth, ca_gens = (fn \<noteq> None \<and> cf_l1 cfg \<noteq> None \<and> cf_l2 cfg \<noteq> None),
      ca_genTTL = wrap64 (2 * cf_ttl cfg), ca_bus = cf_bus cfg, ca_unsubscribe = None\<rparr>"

lemma New_shape:
  assumes run: "run_state (New rt ty json ns key opts) w = (Inr c, w')"
  defines "cfg \<equiv> fold (\<lambda>opt c. opt c) opts (default_config json)"
  obtains fn auth u where "validate ns (key \<noteq> None) cfg = None" "\<not> uncacheableType ty"
    "(if cf_tagsSet cfg then map_sum id (\<lambda>(fn, auth). (Some fn, auth)) (tagging cfg) else Inr (None, no_auth)) = Inr (fn, auth)"
    "c = (New_cache rt ty ns key cfg fn auth)\<lparr>ca_unsubscribe := u\<rparr>" "u \<noteq> None \<longleftrightarrow> cf_bus cfg \<noteq> None"
proof -
  note cfg = cfg_def [symmetric]
  have v: "validate ns (key \<noteq> None) cfg = None"
    using run by (cases "validate ns (key \<noteq> None) cfg") (simp_all add: New_def Let_def cfg_def run_return)
  have u: "\<not> uncacheableType ty" using run v by (auto simp: New_def Let_def cfg run_return)
  obtain fn auth where t: "(if cf_tagsSet cfg then map_sum id (\<lambda>(fn, auth). (Some fn, auth)) (tagging cfg)
      else Inr (None, no_auth)) = Inr (fn, auth)"
    using run v u
    by (cases "if cf_tagsSet cfg then map_sum id (\<lambda>(fn, auth). (Some fn, auth)) (tagging cfg) else Inr (None, no_auth)")
      (auto simp: New_def Let_def cfg run_return)
  have "\<exists>u. c = (New_cache rt ty ns key cfg fn auth)\<lparr>ca_unsubscribe := u\<rparr> \<and> (u \<noteq> None \<longleftrightarrow> cf_bus cfg \<noteq> None)"
  proof (cases "cf_bus cfg")
    case None
    then have "c = New_cache rt ty ns key cfg fn auth" using run u
      unfolding New_def Let_def cfg v t option.case sum.case prod.case
      by (auto simp: run_simps run_gens New_cache_def split: if_splits)
    then show ?thesis using None by (intro exI [of _ None]) (simp add: New_cache_def)
  next
    case (Some b)
    then show ?thesis using run u
      unfolding New_def Let_def cfg v t option.case sum.case prod.case
      by (auto simp: run_simps run_gens New_cache_def split: sum.splits if_splits)
  qed
  then show thesis using that v u t by blast
qed

lemma New_built: "run_state (New rt ty json ns key opts) w = (Inr c, w') \<Longrightarrow> built c \<and> namespace c = ns"
proof (erule New_shape)
  fix fn auth n
  let ?cfg = "fold (\<lambda>opt c. opt c) opts (default_config json)"
  let ?c = "New_cache rt ty ns key ?cfg fn auth"
  assume v: "validate ns (key \<noteq> None) ?cfg = None" and u: "\<not> uncacheableType ty"
    and t: "(if cf_tagsSet ?cfg then map_sum id (\<lambda>(fn, auth). (Some fn, auth)) (tagging ?cfg) else Inr (None, no_auth)) = Inr (fn, auth)"
    and c: "c = ?c\<lparr>ca_unsubscribe := n\<rparr>" and n: "n \<noteq> None \<longleftrightarrow> cf_bus ?cfg \<noteq> None"
  have a: "fn \<noteq> None \<longrightarrow> (case cf_l2 ?cfg of Some s \<Rightarrow> st_tags s = Some auth
      | None \<Rightarrow> \<exists>s. cf_l1 ?cfg = Some s \<and> st_tags s = Some auth)"
    using t tagging_auth [of ?cfg] by (cases "tagging ?cfg") (auto split: if_splits)
  note f = validate_None [OF v]
  have "keyspace_ok ?c \<and> namespace ?c = ns"
    using f(1) by (simp add: New_cache_def keyspace_ok_def entry_prefix_def counter_prefix_def)
  moreover have "0 < ca_l1TTL ?c \<and> ca_l1TTL ?c \<le> ca_ttl ?c" using f(3,4) by (simp add: New_cache_def)
  ultimately show ?thesis using f(2,3,5,6,8) a u n
    by (simp only: built_def c keyspace_ok_def cache.simps keyspace.simps New_cache_def) argo
qed

text \<open>C23. A cache that \<open>New\<close> returns has a valid name space and a level, lifetimes and limits in range, a
  codec id that fits an entry, a value type that may be cached, and keeps its tag generations in the
  authoritative level: L2 if there is one, else L1; a local copy exists exactly with both.\<close>

theorem New_builds_valid:
  "run_state (New rt ty json ns key opts) w = (Inr c, w') \<Longrightarrow> built c \<and> namespace c = ns"
  by (rule New_built)

theorem New_builds_valid_witness: "built outage_cache \<or> built fixed_cache"
proof -
  let ?w = "\<lparr>w_ext = (), w_gens = newGenCache 0, w_trace = []\<rparr>"
  let ?New = "New demo_rt demo_type raw ''tasks'' (Some (\<lambda>k. k)) [WithL1 (Some fixed_store), WithTTL 60]"
  have "\<exists>c. run_state ?New ?w = (Inr c, ?w)"
    by (simp add: New_def Let_def default_config_def WithL1_def WithTTL_def
      validate_def tasks_namespace math_IsNaN_def f64_neg_def f64_ge1_def DefaultMaxValueBytes_def raw_def
      uncacheableType_def demo_type_def floatOf_def State_Monad.return_def State_Monad.bind_def)
  then have "run_state ?New ?w = (Inr fixed_cache, ?w)" by (auto simp: fixed_cache_def)
  from New_builds_valid [OF this] show ?thesis by simp
qed

section \<open>Events\<close>

text \<open>The context \<open>onEvent\<close> makes.\<close>

definition event_ctx :: ctx where
  "event_ctx = WithTimeout Background eventTimeout"

lemma onEvent_run:
  "run_state (onEvent c e) w = ((), w') \<Longrightarrow>
    (Namespace e \<noteq> namespace c \<longrightarrow> w' = w)
    \<and> (w_ext w' = w_ext w \<and> w_gens w' = w_gens w
     \<or> (\<exists>l1 key. ca_l1 c = Some l1 \<and> eventKey c (Name e) = (key, True)
          \<and> w_ext w' = snd (st_Delete l1 event_ctx (Name e) (w_ext w)) \<and> w_gens w' = w_gens w)
     \<or> (\<exists>gk. ca_gens c \<and> genKey c (Name e) = Inr gk \<and> w_ext w' = w_ext w \<and> w_gens w' = gc_drop (w_gens w) gk)
     \<or> (\<exists>gk. ca_tagsFn c \<noteq> None \<and> ca_l2 c = None \<and> genKey c (Name e) = Inr gk
          \<and> w_ext w' = snd (ts_Bump (ca_auth c) event_ctx [gk] (ca_genTTL c) (w_ext w)) \<and> w_gens w' = w_gens w))"
proof (cases "Namespace e = namespace c")
  case False
  then show "run_state (onEvent c e) w = ((), w') \<Longrightarrow> ?thesis" by (simp add: onEvent_def run_return)
next
  case True
  assume run: "run_state (onEvent c e) w = ((), w')"
  note hooks = onError_def onInvalidate_def
  show ?thesis
  proof (cases "ev_Kind e")
    case KindKey
    then show ?thesis using run True
      by (cases "ca_l1 c"; cases "eventKey c (Name e)"; cases "snd (eventKey c (Name e))")
        (auto simp: onEvent_def Let_def run_simps hooks event_ctx_def split: option.splits)
  next
    case KindTag
    then show ?thesis using run True
      by (cases "ca_tagsFn c"; cases "genKey c (Name e)"; cases "ca_gens c"; cases "ca_l2 c")
        (auto simp: onEvent_def Let_def run_simps run_gens hooks event_ctx_def gens_drop_def split: option.splits)
  next
    case (KindOther n)
    then show ?thesis using run True by (simp add: onEvent_def run_return)
  qed
qed


section \<open>Invalidating a tag\<close>

lemma InvalidateTag_drops:
  assumes "ca_gens c" "run_state (InvalidateTag c ctx tag) w = (None, w1)" "genKey c tag = Inr gk"
  shows "w_gens w1 = gc_drop (w_gens w) gk"
proof -
  have "wp (InvalidateTag c ctx tag) (\<lambda>r w1. r = None \<longrightarrow> w_gens w1 = gc_drop (w_gens w) gk) w"
    using assms(1,3)
    by (auto simp: InvalidateTag_def ctxErr_def wp_simps gens_drop_def publish_def onInvalidate_def Let_def
        split: option.split)
  then show ?thesis using assms(2) by (simp add: wp_def)
qed


section \<open>Witnesses\<close>


text \<open>Two levels that hold one tagged entry and never move its generation.\<close>

definition tagged_entry :: entry where
  "tagged_entry = \<lparr>Absent = False, Expires = 1060, Codec = ''raw'', Gens = [5], Payload = [7]\<rparr>"

definition tagged_tags :: "unit TagStore" where
  "tagged_tags = \<lparr>ts_GetTagged = (\<lambda>_ _ ks _ x. (Inr (None, Some (map (\<lambda>_. 5) ks)), x)), ts_Bump = (\<lambda>_ _ _ x. (None, x))\<rparr>"

definition tagged_store :: "unit Store" where
  "tagged_store = \<lparr>st_Get = (\<lambda>_ _ x. (Inr (Some (projr (Encode tagged_entry))), x)),
     st_Set = (\<lambda>_ _ _ _ x. (None, x)), st_Delete = (\<lambda>_ _ x. (None, x)), st_tags = Some tagged_tags\<rparr>"

definition tagged_cache :: "(unit, string, bytes) cache" where
  "tagged_cache = fixed_cache\<lparr>genPrefix := ''cistern:v1:tasks:g:'', ca_l1 := Some tagged_store, ca_l2 := Some tagged_store,
     ca_tagsFn := Some (\<lambda>_. [''t'']), ca_auth := tagged_tags, ca_gens := True, ca_bus := None\<rparr>"

lemma tagged_cache_fields:
  "ca_l1 tagged_cache = Some tagged_store" "ca_l2 tagged_cache = Some tagged_store" "ca_rt tagged_cache = demo_rt"
  "ca_tagsFn tagged_cache = Some (\<lambda>_. [''t''])" "ca_hooks tagged_cache = no_hooks" "ca_codec tagged_cache = raw"
  "ca_codecID tagged_cache = ''raw''" "ca_maxValue tagged_cache = DefaultMaxValueBytes" "ca_bus tagged_cache = None"
  "key_fn tagged_cache = (\<lambda>k. k)" "prefix tagged_cache = ''cistern:v1:tasks:-:''" "hashKeys tagged_cache = False"
  "ca_gens tagged_cache" "genPrefix tagged_cache = ''cistern:v1:tasks:g:''" "ca_auth tagged_cache = tagged_tags"
  by (simp_all add: tagged_cache_def fixed_cache_fields)

lemma tagged_genKey: "genKey tagged_cache ''t'' = Inr ''cistern:v1:tasks:g:t''"
proof -
  have "validateKey ''t'' = None" by code_simp
  then show ?thesis by (simp add: genKey_def tagged_cache_fields MaxKeyBytes_def)
qed

lemma tagged_slot: "slotFor tagged_cache ''user:42'' = Inr \<lparr>sl_key = ''user:42'',
    sl_pk = ''cistern:v1:tasks:-:k:user:42'', sl_genKeys = [''cistern:v1:tasks:g:t'']\<rparr>"
proof -
  have "validateKey ''user:42'' = None" by code_simp
  then show ?thesis
    by (simp add: slotFor_def physicalKey_def tagged_cache_fields MaxKeyBytes_def tagged_genKey MaxTags_def)
qed

lemma tagged_Decode: "Decode (projr (Encode tagged_entry)) DefaultMaxValueBytes = Inr tagged_entry"
proof -
  have "\<exists>dat. Encode tagged_entry = Inr dat"
    by (simp add: tagged_entry_def Encode_def check_def UnixNano_def wrap64_id in_int64_def max_int64_def min_int64_def
      maxCodecID_def MaxTags_def Let_def)
  then obtain dat where d: "Encode tagged_entry = Inr dat" by blast
  have "Decode dat DefaultMaxValueBytes = Inr (tagged_entry\<lparr>Expires := UnixNano (Expires tagged_entry)\<rparr>)"
    by (rule Decode_Encode [OF d]) (simp add: tagged_entry_def DefaultMaxValueBytes_def)
  moreover have "tagged_entry\<lparr>Expires := UnixNano (Expires tagged_entry)\<rparr> = tagged_entry"
    by (simp add: tagged_entry_def UnixNano_def wrap64_id in_int64_def max_int64_def min_int64_def)
  ultimately show ?thesis by (simp add: d)
qed

lemma tagged_Invalidate:
  "fst (run_state (InvalidateTag tagged_cache Background ''t'') w) = None"
proof -
  have "wp (InvalidateTag tagged_cache Background ''t'') (\<lambda>r w. r = None) w"
    by (simp add: InvalidateTag_def wp_simps ctxErr_def tagged_cache_fields demo_rt_def tagged_genKey tagged_tags_def
        gens_drop_def publish_def errors_Join_def onInvalidate_def no_hooks_def Let_def List.map_filter_def)
  then show ?thesis by (simp add: wp_run)
qed

lemma tagged_Get:
  assumes "fmlookup (g_m (w_gens w)) ''cistern:v1:tasks:g:t'' = None"
  shows "fst (run_state (Get tagged_cache Background ''user:42'') w) = Inr (Some [7])"
proof -
  have "wp (Get tagged_cache Background ''user:42'') (\<lambda>r w. r = Inr (Some [7])) w"
    using assms
    by (simp add: Get_def cache_read_def readTagged_def readLocal_def tagged_slot tagged_cache_fields wp_simps ctxErr_def
        demo_rt_def tagged_store_def checked_def tagged_Decode now_def gens_get_def
        tagged_entry_def [symmetric] Let_def)
      (simp add: tagged_entry_def readAuth_def gens_epoch_def gens_put_def now_def tagged_cache_fields demo_rt_def
        tagged_tags_def ctxErr_def serveIf_def elems_def served_def decode_def raw_def onHit_def no_hooks_def taken_def
        wp_simps wp_return_eta split_beta gc_put_ok Let_def)
  then show ?thesis by (simp add: wp_run)
qed


section \<open>Two edges\<close>

text \<open>\<open>New\<close> accepts a TTL of \<open>2 ^ 62\<close> nanoseconds for a tagged cache, and the lifetime of its generation
  counters, twice that, wraps to the smallest integer: a store that checks it refuses every call.\<close>

lemma New_genTTL_wraps:
  "\<exists>c w'. run_state (New demo_rt demo_type raw ''tasks'' (Some (\<lambda>k. k))
      [WithL1 (Some tagged_store), WithTags (TagsFn (\<lambda>_. [''t''])), WithTTL (2 ^ 62)])
      \<lparr>w_ext = (), w_gens = newGenCache 0, w_trace = []\<rparr> = (Inr c, w') \<and> ca_genTTL c = min_int64"
  by (simp add: New_def Let_def default_config_def WithL1_def WithTTL_def WithTags_def tagging_def tagged_store_def
      validate_def tasks_namespace math_IsNaN_def f64_neg_def f64_ge1_def DefaultMaxValueBytes_def raw_def
      uncacheableType_def demo_type_def floatOf_def run_simps wrap64_def min_int64_def)

text \<open>A caller that joined a load and got its error was not served by it; the hook fires all the same.\<close>

definition joining_cache :: "(unit, string, bytes) cache" where
  "joining_cache = outage_cache\<lparr>ca_rt := demo_rt\<lparr>rt_flight := (\<lambda>_ _ _ x. (Join (Inl ErrNotFound), x))\<rparr>,
     ca_hooks := no_hooks\<lparr>OnCoalesced := Some (\<lambda>_ _. True)\<rparr>\<rparr>"

lemma joining_fields:
  "ca_l1 joining_cache = Some outage_store" "ca_l2 joining_cache = None" "ca_tagsFn joining_cache = None"
  "ca_ttl joining_cache = 60" "ca_rt joining_cache = demo_rt\<lparr>rt_flight := (\<lambda>_ _ _ x. (Join (Inl ErrNotFound), x))\<rparr>"
  "ca_hooks joining_cache = no_hooks\<lparr>OnCoalesced := Some (\<lambda>_ _. True)\<rparr>"
  by (simp_all add: joining_cache_def outage_fields)

lemma coalesced_without_service:
  "\<exists>w'. run_state (GetOrLoad joining_cache Background ''user:42'' (Some (\<lambda>_ x. (Inr [9], x))) [])
      \<lparr>w_ext = (), w_gens = newGenCache 0, w_trace = []\<rparr> = (Inl ErrNotFound, w')
    \<and> CoalescedEvent (namespace joining_cache) (hookKey joining_cache ''user:42'') \<in> set (w_trace w')"
proof -
  let ?R = "\<lambda>r w'. r = Inl ErrNotFound
    \<and> CoalescedEvent (namespace joining_cache) (hookKey joining_cache ''user:42'') \<in> set (w_trace w')"
  have s: "slotFor joining_cache ''user:42'' = slotFor outage_cache ''user:42''"
    by (rule slotFor_same) (simp_all add: joining_cache_def outage_fields)
  have "wp (GetOrLoad joining_cache Background ''user:42'' (Some (\<lambda>_ x. (Inr [9], x))) []) ?R
      \<lparr>w_ext = (), w_gens = newGenCache 0, w_trace = []\<rparr>"
    by (simp add: GetOrLoad_def s outage_slot fixed_slot joining_fields wp_simps wp_return_eta ctxErr_def demo_rt_def
        entryOptions_def cache_read_def readPlain_def outage_store_def onError_def onMiss_def no_hooks_def onCoalesced_def
        ErrNotFound_def loadResult_def Let_def)
  then show ?thesis by (auto simp: wp_def split: prod.splits)
qed

end
