(* ===== verification/TagRace.thy ===== *)
theory TagRace
  imports CacheEvents
begin

text \<open>
  The cache-aside race of ADR-0011, for tags: a reader misses, loads the old value from the source, and stores it
  after a writer has invalidated its tag.  The entry it stores has the generations the reader saw, and once the
  counter has moved on no read serves it.  The locale \<open>retired\<close> says of a generation that the counter of its
  tag will not give it again for so many bumps; its lemmas carry this through every call of a cache.
\<close>

section \<open>Generations that are not there\<close>

text \<open>The local copy has none of the generations \<open>X\<close> for the counter \<open>gk\<close>, but for copies that expire at a time \<open>due\<close>.\<close>

definition gen_free :: "string \<Rightarrow> u64 set \<Rightarrow> (time \<Rightarrow> bool) \<Rightarrow> genCache \<Rightarrow> bool" where
  "gen_free gk X due g \<longleftrightarrow> (\<forall>cg. fmlookup (g_m g) gk = Some cg \<longrightarrow> cg_gen cg \<notin> X \<or> due (cg_expires cg))"

text \<open>The generations read for the counters \<open>gks\<close>, one for each, with none of \<open>X\<close> for \<open>gk\<close>.\<close>

definition avoids :: "string \<Rightarrow> u64 set \<Rightarrow> string list \<Rightarrow> u64 list \<Rightarrow> bool" where
  "avoids gk X gks gs \<longleftrightarrow> length gs = length gks \<and> (\<forall>i < length gks. gks ! i = gk \<longrightarrow> gs ! i \<notin> X)"

lemma avoids_Cons: "avoids gk X (k # ks) gs \<longleftrightarrow> (\<exists>g gs'. gs = g # gs' \<and> (k = gk \<longrightarrow> g \<notin> X) \<and> avoids gk X ks gs')"
  by (cases gs) (auto simp: avoids_def nth_Cons split: nat.splits)

lemma gen_free_mono: "gen_free gk X due g \<Longrightarrow> due \<le> due' \<Longrightarrow> gen_free gk X due' g"
  by (auto simp: gen_free_def)

lemma gc_get_avoids:
  "gen_free gk X due g \<Longrightarrow> (\<And>e. due e \<Longrightarrow> \<not> t < e) \<Longrightarrow> gc_get g t ks = Some gs \<Longrightarrow> avoids gk X ks gs"
proof (induction ks arbitrary: gs)
  case (Cons k ks)
  then show ?case by (auto simp: avoids_Cons gen_free_def split: option.splits if_splits)
qed (simp add: avoids_def)

lemma gc_store_free:
  "(\<forall>cg. fmlookup mp gk = Some cg \<longrightarrow> cg_gen cg \<notin> X \<or> due (cg_expires cg)) \<Longrightarrow> avoids gk X ks gs \<or> due x \<Longrightarrow>
   fmlookup (fst (gc_store mp x ks gs)) gk = Some cg \<Longrightarrow> cg_gen cg \<notin> X \<or> due (cg_expires cg)"
proof (induction mp x ks gs rule: gc_store.induct)
  case (2 mp x k ks g gs)
  show ?case by (rule "2.IH") (use "2.prems" in \<open>auto simp: avoids_Cons\<close>)
qed (auto simp: avoids_def)

lemma gc_put_free:
  "gen_free gk X due g \<Longrightarrow> avoids gk X ks gs \<or> due (t + g_ttl g) \<Longrightarrow>
   gen_free gk X due (fst (gc_put g t ks gs ep)) \<and> g_ttl (fst (gc_put g t ks gs ep)) = g_ttl g"
proof (rule gc_put_cases [of g t ks gs ep])
  fix h mp ok
  assume g: "gen_free gk X due g" "avoids gk X ks gs \<or> due (t + g_ttl g)"
    and h: "h = g \<and> map_len (g_m g) + length ks \<le> maxCachedGens \<or> h = gc_clear g"
    and st: "gc_store (g_m h) (t + g_ttl h) ks gs = (mp, ok)" "gc_put g t ks gs ep = (h\<lparr>g_m := mp\<rparr>, ok)"
  have "\<forall>cg. fmlookup (g_m h) gk = Some cg \<longrightarrow> cg_gen cg \<notin> X \<or> due (cg_expires cg)" and ttl: "g_ttl h = g_ttl g"
    using g(1) h by (auto simp: gen_free_def gc_clear_def)
  from gc_store_free [OF this(1), of ks gs "t + g_ttl h"] show ?thesis using st g(2) ttl by (simp add: gen_free_def)
qed simp

lemma gc_drop_free: "gen_free gk X due g \<Longrightarrow> gen_free gk X due (gc_drop g k)" "gen_free gk X due (gc_drop g gk)"
  "g_ttl (gc_drop g k) = g_ttl g"
  by (simp_all add: gen_free_def gc_drop_m) (simp add: gc_drop_def Let_def)

text \<open>A read that does not rest on \<open>X\<close>: a hit is from an entry that recorded none of \<open>X\<close> for \<open>gk\<close>.\<close>

definition hit_without :: "('x, 'k, 'v) cache \<Rightarrow> string \<Rightarrow> u64 set \<Rightarrow> ctx \<Rightarrow> slot \<Rightarrow> 'v option result \<Rightarrow> bool" where
  "hit_without c gk X ctx s r \<longleftrightarrow> r = Inr None \<or> (\<exists>e. r = Inl e \<and> ctx_error c ctx e)
     \<or> (\<exists>dat e. stored c ctx s dat \<and> usable c dat e \<and> gives c e r \<and> avoids gk X (sl_genKeys s) (Gens e))"

section \<open>What may happen around an invalidation\<close>

text \<open>A call of this replica; the write of a load that was under way, with whatever entry it made; an operation
  of someone else on the outside, such as another replica on the shared level.\<close>

datatype ('x, 'k, 'v, 'o) race_step =
  RCall "('x, 'k, 'v) call" | RLate ctx slot entry duration | ROther 'o

fun race_do :: "('o \<Rightarrow> 'x \<Rightarrow> 'x) \<Rightarrow> ('x, 'k, 'v) cache \<Rightarrow> ('x, 'k, 'v, 'o) race_step \<Rightarrow> 'x world \<Rightarrow> 'x world" where
  "race_do act c (RCall call) w = cache_call c call w"
| "race_do act c (RLate ctx s entry ttl) w = snd (run_state (populate c ctx s entry ttl) w)"
| "race_do act c (ROther op) w = w\<lparr>w_ext := act op (w_ext w)\<rparr>"

definition race_steps :: "('o \<Rightarrow> 'x \<Rightarrow> 'x) \<Rightarrow> ('x, 'k, 'v) cache \<Rightarrow> ('x, 'k, 'v, 'o) race_step list \<Rightarrow> 'x world \<Rightarrow> 'x world" where
  "race_steps act c sts w = fold (race_do act c) sts w"

section \<open>The locale\<close>

locale retired =
  fixes c :: "('x, 'k, 'v) cache" and gk :: string and X :: "u64 set" and due :: "'x \<Rightarrow> time \<Rightarrow> bool" and young :: bool
    and L :: duration and B :: "nat \<Rightarrow> 'x \<Rightarrow> bool"
  assumes less: "B (Suc n) x \<Longrightarrow> B n x"
    and runs: "B n x \<Longrightarrow> B n (snd (rt_Err (ca_rt c) ctx x)) \<and> due x \<le> due (snd (rt_Err (ca_rt c) ctx x))" "B n x \<Longrightarrow> B n (snd (rt_Now (ca_rt c) x)) \<and> due x \<le> due (snd (rt_Now (ca_rt c) x))"
      "B n x \<Longrightarrow> B n (snd (rt_Float64 (ca_rt c) x)) \<and> due x \<le> due (snd (rt_Float64 (ca_rt c) x))" "B n x \<Longrightarrow> B n (snd (rt_flight (ca_rt c) ctx fk d x)) \<and> due x \<le> due (snd (rt_flight (ca_rt c) ctx fk d x))"
    and events: "ca_bus c = Some b \<Longrightarrow> B n x \<Longrightarrow> B n (snd (b_Publish b ctx ev x)) \<and> due x \<le> due (snd (b_Publish b ctx ev x))"
      "ca_bus c = Some b \<Longrightarrow> B n x \<Longrightarrow> B n (b_Unsubscribe b u x) \<and> due x \<le> due (b_Unsubscribe b u x)"
    and gets: "ca_l1 c = Some st \<or> ca_l2 c = Some st \<Longrightarrow> B n x \<Longrightarrow> B n (snd (st_Get st ctx k x)) \<and> due x \<le> due (snd (st_Get st ctx k x))"
    and dels: "ca_l1 c = Some st \<or> ca_l2 c = Some st \<Longrightarrow> B n x \<Longrightarrow> B n (snd (st_Delete st ctx k x)) \<and> due x \<le> due (snd (st_Delete st ctx k x))"
    and sets: "ca_l1 c = Some st \<or> ca_l2 c = Some st \<Longrightarrow> k \<noteq> gk \<Longrightarrow> B n x \<Longrightarrow> B n (snd (st_Set st ctx k v ttl x)) \<and> due x \<le> due (snd (st_Set st ctx k v ttl x))"
    and tagged: "B n x \<Longrightarrow> B n (snd (ts_GetTagged (ca_auth c) ctx pk gks ttl x)) \<and> due x \<le> due (snd (ts_GetTagged (ca_auth c) ctx pk gks ttl x))"
    and gives: "B n x \<Longrightarrow> fst (ts_GetTagged (ca_auth c) ctx pk gks ttl x) = Inr (w, gs) \<Longrightarrow>
      length (elems gs) = length gks \<and> (young \<or> avoids gk X gks (elems gs))"
    and bump: "B (Suc n) x \<Longrightarrow> B n (snd (ts_Bump (ca_auth c) ctx [k] ttl x)) \<and> due x \<le> due (snd (ts_Bump (ca_auth c) ctx [k] ttl x))"
    and fresh: "young \<Longrightarrow> B n x \<Longrightarrow> due (snd (rt_Now (ca_rt c) x)) (fst (rt_Now (ca_rt c) x) + L)"
    and apart: "slotFor c j = Inr s \<Longrightarrow> sl_pk s \<noteq> gk"
    and tags: "ca_tagsFn c \<noteq> None" "ca_gens c \<longrightarrow> ca_l1 c \<noteq> None"
begin

definition gone :: "nat \<Rightarrow> 'x world \<Rightarrow> bool" where
  "gone n w \<longleftrightarrow> B n (w_ext w) \<and> gen_free gk X (due (w_ext w)) (w_gens w) \<and> g_ttl (w_gens w) = L"

text \<open>No copy that is left will be used again.\<close>

definition settled :: "nat \<Rightarrow> bool" where
  "settled n \<longleftrightarrow> \<not> young \<and> (\<forall>x e. B n x \<longrightarrow> due x e \<longrightarrow> \<not> fst (rt_Now (ca_rt c) x) < e)"

lemma gone_less: "gone (Suc n) w \<Longrightarrow> gone n w"
  by (simp add: gone_def less)

lemma gone_next: "gone m w \<Longrightarrow> B n x \<and> due (w_ext w) \<le> due x \<Longrightarrow> gone n (w\<lparr>w_ext := x\<rparr>)"
  by (auto simp: gone_def intro: gen_free_mono)

lemma keeps_ext: "(\<And>x. B n x \<Longrightarrow> B n (snd (f x)) \<and> due x \<le> due (snd (f x))) \<Longrightarrow> keeps (ext f) (gone n)"
  by (rule keepsI) (simp add: wp_simps, rule gone_next, assumption, simp add: gone_def)

lemma keeps_hooked: "keeps (call_hook hk ctx e) (gone n)"
  by (rule keepsI) (simp add: wp_simps gone_def)

lemma keeps_parts: "keeps (now c) (gone n)" "keeps (ctxErr c ctx) (gone n)"
  "keeps (onHit c ctx key level absent) (gone n)" "keeps (onMiss c ctx key) (gone n)"
  "keeps (onError c ctx key op level er) (gone n)" "keeps (onInvalidate c ctx key tag rem) (gone n)"
  "keeps (onLoad c ctx key d er') (gone n)" "keeps (onCoalesced c ctx key) (gone n)"
  "keeps (gens_epoch s) (gone n)" "keeps (gens_drop k) (gone n)"
  "keeps (ext (rt_Now (ca_rt c))) (gone n)" "keeps (ext (rt_Float64 (ca_rt c))) (gone n)"
  "keeps (ext (rt_flight (ca_rt c) ctx fk d)) (gone n)"
  by (simp_all add: now_def ctxErr_def onHit_def onMiss_def onError_def onInvalidate_def onLoad_def onCoalesced_def
      keeps_hooked keeps_ext runs)
    (rule keepsI, simp add: gens_epoch_def gens_drop_def wp_simps gone_def gc_drop_free)+

lemma keeps_publish: "keeps (publish c ctx kind name) (gone n)"
  unfolding publish_def by (intro keeps_intros keeps_ext events)

lemma keeps_stores:
  assumes "ca_l1 c = Some st \<or> ca_l2 c = Some st"
  shows "keeps (ext (st_Get st ctx k)) (gone n)" "keeps (ext (st_Delete st ctx k)) (gone n)"
    "k \<noteq> gk \<Longrightarrow> keeps (ext (st_Set st ctx k v ttl)) (gone n)"
  by (simp_all add: keeps_ext gets [OF assms] dels [OF assms] sets [OF assms])

lemma keeps_write: "pk \<noteq> gk \<Longrightarrow> keeps (cache_write c ctx pk entry ttl) (gone n)"
  unfolding cache_write_def Let_def by (intro keeps_intros keeps_parts keeps_stores) simp_all

lemma keeps_populate: "sl_pk s \<noteq> gk \<Longrightarrow> keeps (populate c ctx s entry ttl) (gone n)"
  unfolding populate_def by (intro keeps_intros keeps_parts keeps_write)

lemma keeps_backfill: "sl_pk s \<noteq> gk \<Longrightarrow> ca_l1 c = Some l1 \<Longrightarrow> keeps (backfill c l1 ctx s dat x) (gone n)"
  unfolding backfill_def Let_def by (intro keeps_intros keeps_parts keeps_stores) simp_all

text \<open>Generations as a read may use them once all is settled, and as it may keep a copy of them.\<close>

abbreviation clean :: "nat \<Rightarrow> string list \<Rightarrow> u64 list \<Rightarrow> bool" where
  "clean n gks gs \<equiv> settled n \<longrightarrow> avoids gk X gks gs"

definition keepable :: "string list \<Rightarrow> u64 list \<Rightarrow> bool" where
  "keepable gks gs \<longleftrightarrow> length gs = length gks \<and> (young \<or> avoids gk X gks gs)"

lemma keepable_clean: "keepable gks gs \<Longrightarrow> clean n gks gs"
  by (auto simp: keepable_def settled_def)

lemma spec_tagged:
  "spec (gone n) (ext (ts_GetTagged (ca_auth c) ctx pk gks ttl)) (\<lambda>r. \<forall>w gs. r = Inr (w, gs) \<longrightarrow> keepable gks (elems gs))"
  using keeps_ext [of n "ts_GetTagged (ca_auth c) ctx pk gks ttl", OF tagged] gives
  by (fastforce simp: spec_def keeps_def ext_def keepable_def gone_def split_beta)

lemma spec_gens_put:
  assumes "keepable (sl_genKeys s) (elems g)"
  shows "spec (gone n) (gens_put c s g since) (\<lambda>ok. ok)"
proof (rule spec_res)
  show "res (gens_put c s g since) (\<lambda>ok. ok)" by (rule res_gens_put) (use assms in \<open>simp add: keepable_def\<close>)
  have "gone n (w\<lparr>w_ext := snd (rt_Now (ca_rt c) (w_ext w)),
      w_gens := fst (gc_put (w_gens w) (fst (rt_Now (ca_rt c) (w_ext w))) (sl_genKeys s) (elems g) since)\<rparr>)"
    if w: "gone n w" for w
  proof -
    let ?x = "snd (rt_Now (ca_rt c) (w_ext w))" and ?t = "fst (rt_Now (ca_rt c) (w_ext w))"
    have x: "B n ?x" "gen_free gk X (due ?x) (w_gens w)" "g_ttl (w_gens w) = L"
      using w runs(2) [of n "w_ext w"] by (auto simp: gone_def gen_free_def)
    have "avoids gk X (sl_genKeys s) (elems g) \<or> due ?x (?t + g_ttl (w_gens w))"
      using assms fresh [of n "w_ext w"] w x(3) by (auto simp: keepable_def gone_def)
    from gc_put_free [OF x(2) this] show ?thesis using x by (simp add: gone_def)
  qed
  then show "keeps (gens_put c s g since) (gone n)"
    by (intro keepsI) (simp add: gens_put_def now_def wp_simps split_beta)
qed

lemma spec_gens_get: "spec (gone n) (gens_get c s) (\<lambda>r. \<forall>gs. r = Some gs \<longrightarrow> clean n (sl_genKeys s) gs)"
proof -
  have "wp (gens_get c s) (\<lambda>r w'. (\<forall>gs. r = Some gs \<longrightarrow> clean n (sl_genKeys s) gs) \<and> gone n w') w" if w: "gone n w" for w
  proof -
    let ?x = "snd (rt_Now (ca_rt c) (w_ext w))" and ?t = "fst (rt_Now (ca_rt c) (w_ext w))"
    have "gone n (w\<lparr>w_ext := ?x\<rparr>)" using w runs(2) [of n "w_ext w"] gone_next by (simp add: gone_def)
    moreover have "clean n (sl_genKeys s) gs" if "gc_get (w_gens w) ?t (sl_genKeys s) = Some gs" for gs
      using gc_get_avoids [OF _ _ that, of gk X "due (w_ext w)"] w by (auto simp: gone_def settled_def)
    ultimately show ?thesis by (simp add: gens_get_def now_def wp_simps)
  qed
  then show ?thesis by (simp add: spec_def wp_run)
qed

section \<open>Reading\<close>

lemma keeps_readLocal: "keeps (readLocal c ctx s) (gone n)"
  unfolding readLocal_def checked_def Let_def by (intro keeps_intros keeps_parts keeps_stores) simp_all

lemma spec_read_auth:
  assumes "local_ok c ctx s e" "sl_pk s \<noteq> gk"
  shows "spec (gone n) (readAuth c ctx s e) (tagged_ok c ctx s (\<lambda>g. keepable (sl_genKeys s) (elems g)))"
proof (rule spec_readAuth [OF assms(1)])
  have "res (ext (ts_GetTagged (ca_auth c) ctx (sl_pk s) (sl_genKeys s) (ca_genTTL c)))
      (\<lambda>r. \<forall>v g dat. r = Inr (v, g) \<longrightarrow> v = Some dat \<longrightarrow> stored c ctx s dat)"
    by (auto simp: res_def ext_def split_beta stored_def)
  then show "spec (gone n) (ext (ts_GetTagged (ca_auth c) ctx (sl_pk s) (sl_genKeys s) (ca_genTTL c)))
      (\<lambda>r. \<forall>v g. r = Inr (v, g) \<longrightarrow> keepable (sl_genKeys s) (elems g) \<and> (\<forall>dat. v = Some dat \<longrightarrow> stored c ctx s dat))"
    using spec_tagged [of n ctx "sl_pk s" "sl_genKeys s" "ca_genTTL c"] by (simp add: spec_def res_def)
qed (simp_all add: keeps_hooked keeps_parts keeps_backfill assms(2) spec_gens_put)

lemma spec_read:
  assumes "sl_pk s \<noteq> gk"
  shows "spec (gone n) (cache_read c ctx s) (tagged_ok c ctx s (\<lambda>g. clean n (sl_genKeys s) (elems g)))" (is "spec _ _ ?R")
proof -
  have serves: "keeps (serveIf c ctx s level e g) (gone n)" for level e g
    unfolding serveIf_def served_def by (intro keeps_intros keeps_parts)
  have auth: "spec (gone n) (readAuth c ctx s e) ?R" if "local_ok c ctx s e" for e
    using spec_read_auth [OF that assms, of n] by (auto simp: spec_def intro: tagged_ok_mono [OF _ keepable_clean])
  have "spec (gone n) (readTagged c ctx s) ?R"
    unfolding readTagged_def
  proof (rule spec_bind [OF spec_res [OF keeps_readLocal res_readLocal [OF tags(2)]]])
    fix loc assume loc: "(\<exists>e. loc = Inl e \<and> ctx_error c ctx e) \<or> (\<exists>e. loc = Inr e \<and> local_ok c ctx s e)"
    have serve: "spec (gone n) (do {
               r \<leftarrow> serveIf c ctx s LevelL1 e (Some cached);
               case r of Some r \<Rightarrow> State_Monad.return (r, Some cached)
               | None \<Rightarrow> readAuth c ctx s e }) ?R"
      if e: "local_ok c ctx s e" and a: "clean n (sl_genKeys s) cached" for e cached
    proof (rule spec_bind [OF spec_res [OF serves res_serveIf]], rule spec_option [OF auth [OF e]])
      fix r r' assume "\<forall>r'. r = Some r' \<longrightarrow> (\<exists>e'. e = Some e' \<and> Gens e' = elems (Some cached) \<and> gives c e' r')" "r = Some r'"
      then have "?R (r', Some cached)" using e a by (fastforce simp: tagged_ok_def local_ok_def elems_def)
      then show "spec (gone n) (State_Monad.return (r', Some cached)) ?R" by (rule spec_return)
    qed
    show "spec (gone n) (case loc of Inl e \<Rightarrow> State_Monad.return (Inl e, None)
     | Inr local \<Rightarrow>
         if \<not> ca_gens c then readAuth c ctx s local
         else do {
           local_gens \<leftarrow> gens_get c s;
           case local_gens of
             None \<Rightarrow> readAuth c ctx s local
           | Some cached \<Rightarrow> do {
               r \<leftarrow> serveIf c ctx s LevelL1 local (Some cached);
               case r of Some r \<Rightarrow> State_Monad.return (r, Some cached)
               | None \<Rightarrow> readAuth c ctx s local } }) ?R"
    proof (cases loc)
      case (Inl e)
      then show ?thesis using loc by (auto simp: tagged_ok_def intro!: spec_return)
    next
      case (Inr e)
      then have e: "local_ok c ctx s e" using loc by auto
      note auth = auth [OF e]
      show ?thesis unfolding Inr sum.case
        by (rule spec_if [OF auth], rule spec_bind [OF spec_gens_get], rule spec_option [OF auth], rule serve [OF e]) simp
    qed
  qed
  then show ?thesis using tags(1) by (simp add: cache_read_def)
qed

lemma spec_Get:
  assumes "slotFor c k = Inr s"
  shows "spec (gone n) (Get c ctx k) (\<lambda>r. settled n \<longrightarrow> hit_without c gk X ctx s r)"
proof -
  have ce: "spec (gone n) (ctxErr c ctx) (\<lambda>a. \<forall>e. a = Some e \<longrightarrow> ctx_error c ctx e)"
    by (rule spec_res [OF keeps_parts(2) res_ctxErr])
  have hit: "settled n \<longrightarrow> hit_without c gk X ctx s r" if "tagged_ok c ctx s (\<lambda>g. clean n (sl_genKeys s) (elems g)) (r, g)" for r g
    using that unfolding hit_without_def tagged_ok_def by force
  show ?thesis unfolding Get_def assms sum.case
    by (rule spec_bind [OF ce], rule spec_option, rule spec_bind [OF spec_read [OF apart [OF assms]]], rule spec_prod,
        rule spec_return, rule hit, simp, rule spec_return, simp add: hit_without_def)
qed

section \<open>Every call\<close>

lemma keeps_read: "slotFor c j = Inr s \<Longrightarrow> keeps (cache_read c ctx s) (gone n)"
  using spec_read [OF apart, of j s n ctx] by (simp add: spec_def keeps_def)

lemma keeps_Get: "keeps (Get c ctx j) (gone n)"
  unfolding Get_def by (intro keeps_intros keeps_parts keeps_read)

lemma keeps_load:
  assumes "slotFor c j = Inr s" "\<And>lc n x. B n x \<Longrightarrow> B n (snd (load lc x)) \<and> due x \<le> due (snd (load lc x))"
  shows "keeps (runLoad c loadCtx s gens cacheable ttl load) (gone n)"
  unfolding runLoad_def Let_def
  by (intro keeps_intros keeps_parts keeps_ext keeps_populate apart [OF assms(1)] assms(2))

lemma keeps_GetOrLoad:
  assumes "\<And>l lc n x. load = Some l \<Longrightarrow> B n x \<Longrightarrow> B n (snd (l lc x)) \<and> due x \<le> due (snd (l lc x))"
  shows "keeps (GetOrLoad c ctx j load opts) (gone n)"
  unfolding GetOrLoad_def by (intro keeps_intros keeps_parts keeps_read keeps_load assms)

lemma keeps_Set: "keeps (cache_Set c ctx j v opts) (gone n)"
  unfolding cache_Set_def by (intro keeps_intros keeps_parts keeps_ext tagged keeps_write apart)

lemma keeps_Delete: "keeps (cache_Delete c ctx j) (gone n)"
  unfolding cache_Delete_def Let_def by (intro keeps_intros keeps_parts keeps_stores keeps_publish) simp_all

lemma keeps_Close: "keeps (Close c) (gone n)"
  unfolding Close_def by (intro keeps_intros keeps_ext) (simp add: events)

text \<open>A call bumps at most one counter, once.\<close>

definition lowers :: "('x world, 'r) state \<Rightarrow> bool" where
  "lowers m \<longleftrightarrow> (\<forall>n w. gone (Suc n) w \<longrightarrow> gone n (snd (run_state m w)))"

lemma lowersI: "(\<And>n. keeps m (gone n)) \<Longrightarrow> lowers m"
  using gone_less unfolding lowers_def keeps_def by blast

lemma lowers_bind: "lowers m \<Longrightarrow> (\<And>a n. keeps (f a) (gone n)) \<Longrightarrow> lowers (m \<bind> f)"
  by (simp add: lowers_def keeps_def State_Monad.bind_def split_beta)

lemma lowers_after: "(\<And>n. keeps m (gone n)) \<Longrightarrow> (\<And>a. lowers (f a)) \<Longrightarrow> lowers (m \<bind> f)"
  by (simp add: lowers_def keeps_def State_Monad.bind_def split_beta)

lemma lowers_bump: "lowers (ext (ts_Bump (ca_auth c) ctx [k] ttl))"
  unfolding lowers_def
proof (intro allI impI)
  fix n w assume "gone (Suc n) w"
  then show "gone n (snd (run_state (ext (ts_Bump (ca_auth c) ctx [k] ttl)) w))"
    using gone_next [of "Suc n" w n] bump [of n "w_ext w"] by (simp add: ext_def split_beta gone_def)
qed

lemma lowers_cases:
  "(x = None \<Longrightarrow> lowers a) \<Longrightarrow> (\<And>y. x = Some y \<Longrightarrow> lowers (b y)) \<Longrightarrow> lowers (case x of None \<Rightarrow> a | Some y \<Rightarrow> b y)"
  "(\<And>y. z = Inl y \<Longrightarrow> lowers (d y)) \<Longrightarrow> (\<And>y. z = Inr y \<Longrightarrow> lowers (e y)) \<Longrightarrow> lowers (case z of Inl y \<Rightarrow> d y | Inr y \<Rightarrow> e y)"
  by (cases x, simp_all) (cases z, simp_all)

lemma lowers_InvalidateTag: "lowers (InvalidateTag c ctx tag)"
proof -
  have rest: "keeps (do {
         _ \<leftarrow> (if ca_gens c then gens_drop k else State_Monad.return ());
         pubErr \<leftarrow> publish c ctx KindTag tag;
         _ \<leftarrow> (if errors_Join [be, pubErr] = None then onInvalidate c ctx '''' tag False else State_Monad.return ());
         State_Monad.return (errors_Join [be, pubErr]) }) (gone n)" for k n be
    by (intro keeps_intros keeps_parts keeps_publish)
  have ret: "lowers (State_Monad.return r)" for r :: "error option" by (intro lowersI keeps_intros)
  have bumped: "lowers (do {
         bumpErr \<leftarrow> ext (ts_Bump (ca_auth c) ctx [k] (ca_genTTL c));
         _ \<leftarrow> (if ca_gens c then gens_drop k else State_Monad.return ());
         pubErr \<leftarrow> publish c ctx KindTag tag;
         _ \<leftarrow> (if errors_Join [map_option (\<lambda>e. Wrap ''cistern: invalidating tag: %w'' [e]) bumpErr, pubErr] = None
           then onInvalidate c ctx '''' tag False else State_Monad.return ());
         State_Monad.return (errors_Join [map_option (\<lambda>e. Wrap ''cistern: invalidating tag: %w'' [e]) bumpErr, pubErr]) })" for k
    by (rule lowers_bind [OF lowers_bump rest])
  show ?thesis unfolding InvalidateTag_def Let_def
    by (rule lowers_after [OF keeps_parts(2)], rule lowers_cases(1), simp add: tags(1), rule lowers_cases(2), rule ret, rule bumped, rule ret)
qed

lemma lowers_Event: "lowers (onEvent c e)"
proof -
  have key: "keeps (case ca_l1 c of None \<Rightarrow> State_Monad.return ()
             | Some l1 \<Rightarrow>
                 let (key, ok) = eventKey c (Name e) in
                 if \<not> ok then State_Monad.return ()
                 else do {
                   err \<leftarrow> ext (st_Delete l1 ctx (Name e));
                   case err of
                     Some er \<Rightarrow> onError c ctx key OpEvent LevelL1 er
                   | None \<Rightarrow> onInvalidate c ctx key '''' True }) (gone n)" for ctx n
    unfolding Let_def by (intro keeps_intros keeps_parts keeps_stores) simp_all
  have bumps: "lowers (do {
                   err \<leftarrow> ext (ts_Bump (ca_auth c) ctx [k] (ca_genTTL c));
                   case err of
                     Some er \<Rightarrow> onError c ctx '''' OpEvent LevelL1 er
                   | None \<Rightarrow> onInvalidate c ctx '''' (Name e) True })" for ctx k
    by (rule lowers_bind [OF lowers_bump]) (intro keeps_intros keeps_parts)
  have drops: "lowers (do { _ \<leftarrow> gens_drop k; onInvalidate c ctx '''' (Name e) True })" for ctx k
    by (intro lowersI keeps_intros keeps_parts)
  have rest: "lowers (onInvalidate c ctx '''' (Name e) True)" "lowers (State_Monad.return ())" for ctx
    by (intro lowersI keeps_intros keeps_parts)+
  show ?thesis unfolding onEvent_def Let_def
    by (cases "ev_Kind e")
      (auto simp: lowersI [OF key, unfolded Let_def] bumps drops rest intro!: lowers_cases)
qed

lemma call_lowers:
  assumes "\<And>ctx j l opts lc n x. call = CGetOrLoad ctx j (Some l) opts \<Longrightarrow> B n x \<Longrightarrow> B n (snd (l lc x)) \<and> due x \<le> due (snd (l lc x))"
    and w: "gone (Suc n) w"
  shows "gone n (cache_call c call w)"
proof (cases call)
  case (CGetOrLoad ctx j load opts)
  have "keeps (GetOrLoad c ctx j load opts) (gone (Suc n))" by (rule keeps_GetOrLoad) (use assms(1) CGetOrLoad in blast)
  then show ?thesis using CGetOrLoad w gone_less by (auto simp: keeps_def)
qed (use w gone_less keeps_Get keeps_Set keeps_Delete keeps_Close lowers_InvalidateTag lowers_Event in
    \<open>auto simp: keeps_def lowers_def\<close>)

section \<open>Any sequence\<close>

definition harmless :: "('o \<Rightarrow> 'x \<Rightarrow> 'x) \<Rightarrow> ('x, 'k, 'v, 'o) race_step \<Rightarrow> bool" where
  "harmless act st = (case st of
     RCall call \<Rightarrow> (\<forall>ctx j l opts lc n x. call = CGetOrLoad ctx j (Some l) opts \<longrightarrow> B n x \<longrightarrow> B n (snd (l lc x)) \<and> due x \<le> due (snd (l lc x)))
   | RLate ctx s entry ttl \<Rightarrow> (\<exists>j. slotFor c j = Inr s)
   | ROther op \<Rightarrow> (\<forall>n x. B (Suc n) x \<longrightarrow> B n (act op x) \<and> due x \<le> due (act op x)))"

lemma step_gone: "harmless act st \<Longrightarrow> gone (Suc n) w \<Longrightarrow> gone n (race_do act c st w)"
proof (cases st)
  case (RCall call)
  then show "harmless act st \<Longrightarrow> gone (Suc n) w \<Longrightarrow> ?thesis" using call_lowers [of call n w] by (simp add: harmless_def)
next
  case (RLate ctx s entry ttl)
  then show "harmless act st \<Longrightarrow> gone (Suc n) w \<Longrightarrow> ?thesis"
    using keeps_populate [where s = s and n = "Suc n" and ctx = ctx and entry = entry and ttl = ttl] apart gone_less by (auto simp: harmless_def keeps_def)
next
  case (ROther op)
  then show "harmless act st \<Longrightarrow> gone (Suc n) w \<Longrightarrow> ?thesis"
    using gone_next [of "Suc n" w n "act op (w_ext w)"] by (auto simp: harmless_def gone_def)
qed

lemma steps_gone:
  "\<forall>st \<in> set sts. harmless act st \<Longrightarrow> gone (n + length sts) w \<Longrightarrow> gone n (race_steps act c sts w)"
proof (induction sts arbitrary: w)
  case (Cons st sts)
  have "gone (n + length sts) (race_do act c st w)" by (rule step_gone [of act]) (use Cons.prems in simp_all)
  then show ?case using Cons by (simp add: race_steps_def)
qed (simp add: race_steps_def)

text \<open>The event of an invalidation elsewhere drops what this replica still has.\<close>

lemma Event_gone:
  assumes "ca_gens c" "genKey c tag = Inr gk" "B n (w_ext w)" "g_ttl (w_gens w) = L"
  shows "gone n (cache_call c (CEvent \<lparr>Namespace = namespace c, ev_Kind = KindTag, Name = tag\<rparr>) w)"
proof -
  have "wp (onEvent c \<lparr>Namespace = namespace c, ev_Kind = KindTag, Name = tag\<rparr>) (\<lambda>_. gone n) w"
    using assms tags(1)
    by (auto simp: onEvent_def Let_def wp_simps gens_drop_def onInvalidate_def wp_call_hook gone_def gen_free_def gc_drop_m gc_drop_free)
  then show ?thesis by (simp add: wp_run)
qed

text \<open>An invalidation that reports success retires what the counter had.\<close>

lemma InvalidateTag_gone:
  assumes start: "\<And>ctx ttl x y. D x \<Longrightarrow> ts_Bump (ca_auth c) ctx [gk] ttl x = (None, y) \<Longrightarrow> B n y"
    and D: "\<And>ctx x. D x \<Longrightarrow> D (snd (rt_Err (ca_rt c) ctx x))"
    and inv: "ca_gens c" "genKey c tag = Inr gk" "run_state (InvalidateTag c ctx tag) w = (None, w')" and w: "D (w_ext w)" "g_ttl (w_gens w) = L"
  shows "gone n w'"
proof -
  have "D (snd (rt_Err (ca_rt c) ctx (w_ext w)))" by (rule D [OF w(1)])
  note bumped = start [OF this]
  have "wp (InvalidateTag c ctx tag) (\<lambda>r w. r = None \<longrightarrow> gone n w) w"
    using bumped inv(1,2) w(2)
    by (auto simp: InvalidateTag_def ctxErr_def wp_simps gens_drop_def publish_def onInvalidate_def wp_call_hook Let_def
        errors_Join_def List.map_filter_def gone_def gc_drop_free events prod_eq_iff split: option.split)
  then show ?thesis using inv(3) by (simp add: wp_def)
qed

end

end
