(* ===== verification/RedisTags.thy ===== *)
theory RedisTags
  imports RedisCounters TagRace
begin

text \<open>
  The race of ADR-0011 with Redis as L2.  The locale \<open>redis_tags\<close> adds to \<open>redis_counters\<close> what Redis documents for
  the commands on entries and for a pipeline that was cut short, and shows that a generation the counter has
  passed is \<open>retired\<close>: with two levels, whatever the L1, and other replicas at work on the same Redis.  Like
  \<open>redis_counters\<close> it speaks of a client that does not repeat a pipeline by itself (\<open>MaxRetries: -1\<close>).
\<close>

section \<open>How far a counter is from a generation\<close>

text \<open>A counter at \<open>v\<close> has passed \<open>g0\<close>, or will not reach it in \<open>n\<close> bumps.\<close>

definition clear_of :: "u64 \<Rightarrow> nat \<Rightarrow> nat \<Rightarrow> bool" where
  "clear_of g0 n v \<longleftrightarrow> v + n < 2 ^ 63 \<and> (unat g0 < v \<or> v + n < unat g0)"

lemma clear_of_less: "clear_of g0 (Suc n) v \<Longrightarrow> clear_of g0 n v \<and> clear_of g0 n (Suc v)"
  by (auto simp: clear_of_def)

lemma clear_of_not: "clear_of g0 n (unat g) \<Longrightarrow> g \<noteq> g0"
  by (auto simp: clear_of_def)

section \<open>The locale\<close>

definition cmd_keys :: "rcmd \<Rightarrow> string set" where
  "cmd_keys cmd = (case cmd of SetNX k v d \<Rightarrow> {k} | Incr k \<Rightarrow> {k} | PExpire k d \<Rightarrow> {k} | MGet ks \<Rightarrow> {})"

locale redis_pipelines = redis_counters C view G s rnd ok
  for C :: "'x client" and view :: "'x \<Rightarrow> string \<rightharpoonup> string" and G :: "'x Guard" and s :: "'x rstore"
    and rnd :: "'x \<Rightarrow> bytes option \<times> 'x" and ok :: "'x \<Rightarrow> bool" +
  assumes cmd_ok: "ok x \<Longrightarrow> ok (snd (rc_Get C ctx k x))" "ok x \<Longrightarrow> ok (snd (rc_Set C ctx k v d x))" "ok x \<Longrightarrow> ok (snd (rc_Del C ctx k x))"
    and GET_view: "view (snd (rc_Get C ctx k x)) \<subseteq>\<^sub>m view x"
    and SET_view: "j \<noteq> k \<Longrightarrow> view (snd (rc_Set C ctx k v d x)) j = Some u \<Longrightarrow> view x j = Some u"
    and DEL_view: "view (snd (rc_Del C ctx k x)) \<subseteq>\<^sub>m view x"
    and EXEC_part: "\<exists>n V. V \<subseteq>\<^sub>m view x \<and> (\<forall>V' r. cmd_run (take n cs) V [] = Some (V', r) \<longrightarrow>
      view (snd (rc_Exec C ctx cs x)) \<subseteq>\<^sub>m V')"
    and EXEC_other: "j \<notin> \<Union> (cmd_keys ` set cs) \<Longrightarrow> view (snd (rc_Exec C ctx cs x)) j = Some u \<Longrightarrow> view x j = Some u"
locale redis_tags = redis_pipelines C view G s rnd ok
  for C :: "'x client" and view :: "'x \<Rightarrow> string \<rightharpoonup> string" and G :: "'x Guard" and s :: "'x rstore"
    and rnd :: "'x \<Rightarrow> bytes option \<times> 'x" and ok :: "'x \<Rightarrow> bool" +
  fixes gk :: string and g0 :: u64 and N :: nat
  assumes far: "drawn rnd ok g \<Longrightarrow> unat g0 < unat g \<or> unat g + N < unat g0" and N: "N < 2 ^ 62"
begin

definition passed :: "nat \<Rightarrow> 'x \<Rightarrow> bool" where
  "passed n x \<longleftrightarrow> ok x \<and> n \<le> N \<and> (\<forall>v. view x gk = Some v \<longrightarrow> is_decimal v \<and> clear_of g0 n (decimal_value v))"

lemma passed_le: "passed n x \<Longrightarrow> ok y \<Longrightarrow> view y gk = view x gk \<or> view y gk = None \<Longrightarrow> passed n y"
  by (auto simp: passed_def)

lemma view_le: "V \<subseteq>\<^sub>m W \<Longrightarrow> V k = W k \<or> V k = None"
  by (auto simp: map_le_def)

lemma passed_view: "passed n x \<Longrightarrow> (ok x \<longrightarrow> ok y) \<and> view y \<subseteq>\<^sub>m view x \<Longrightarrow> passed n y"
  using passed_le [of n x y] view_le [of "view y" "view x" gk] by (auto simp: passed_def)

lemma passed_ok: "passed n x \<Longrightarrow> ok x"
  by (simp add: passed_def)

lemma passed_less: "passed (Suc n) x \<Longrightarrow> passed n x"
  using clear_of_less by (auto simp: passed_def)

lemma drawn_clear: "drawn rnd ok g \<Longrightarrow> n \<le> N \<Longrightarrow> is_decimal (FormatUint g) \<and> clear_of g0 n (decimal_value (FormatUint g))"
  using far [of g] N NewGeneration_range by (fastforce simp: drawn_def FormatUint_def clear_of_def)

lemma passed_mono: "passed n x \<Longrightarrow> m \<le> n \<Longrightarrow> passed m x"
  by (auto simp: passed_def clear_of_def)

section \<open>The operations of the store\<close>

lemma call_passed:
  assumes "passed n x" "m \<le> n" and op: "\<And>ctx x. passed n x \<Longrightarrow> passed m (fst (snd (op C ctx (x, cv))))"
  shows "passed m (fst (snd (rs_call s ctx (on_client s op) (x, cv))))"
  by (rule call_keeps [of "passed n" x "passed m", OF assms(1)]) (use assms(2) op in \<open>auto intro: passed_view passed_mono\<close>)

lemma Get_passed: "passed n x \<Longrightarrow> passed n (snd (rs_Get s ctx k x))"
  unfolding rs_Get_def Let_def split_beta
  by (split option.split, intro conjI allI impI; simp, rule call_passed)
    (auto simp: split_beta intro: passed_view simp: GET_view cmd_ok split: sum.split)

lemma Set_passed: "passed n x \<Longrightarrow> k \<noteq> gk \<Longrightarrow> passed n (snd (rs_Set s ctx k v ttl x))"
proof -
  assume p: "passed n x" and k: "k \<noteq> gk"
  have "passed n (snd (rc_Set C ctx k v d y))" if "passed n y" for ctx d y
    using passed_le [OF that cmd_ok(2) [OF passed_ok [OF that]]] SET_view [of gk k ctx v d y] k by (cases "view (snd (rc_Set C ctx k v d y)) gk") auto
  then show ?thesis using p unfolding rs_Set_def Let_def split_beta
    by (auto simp: split_beta intro!: call_passed [where n = n])
qed

lemma Delete_passed: "passed n x \<Longrightarrow> passed n (snd (rs_Delete s ctx k x))"
  unfolding rs_Delete_def Let_def split_beta
  by (auto simp: split_beta intro!: call_passed [where n = n] intro: passed_view simp: DEL_view cmd_ok)

section \<open>Reading and bumping counters\<close>

definition value_ok :: "nat \<Rightarrow> string \<Rightarrow> bool" where
  "value_ok n v \<longleftrightarrow> is_decimal v \<and> clear_of g0 n (decimal_value v)"

lemma passed_value: "passed n x \<longleftrightarrow> ok x \<and> n \<le> N \<and> (\<forall>v. view x gk = Some v \<longrightarrow> value_ok n v)"
  by (simp add: passed_def value_ok_def)

lemma value_le: "V \<subseteq>\<^sub>m W \<Longrightarrow> (\<And>v. W gk = Some v \<Longrightarrow> value_ok n v) \<Longrightarrow> V gk = Some v \<Longrightarrow> value_ok n v"
  using view_le [of V W gk] by auto

lemma creates_passed:
  assumes x: "passed n x" and fresh: "length fresh = length gks" "\<forall>f \<in> set fresh. \<exists>g. drawn rnd ok g \<and> f = FormatUint g"
    and d: "0 < d"
  shows "passed n (snd (rc_Exec C ctx (map2 (\<lambda>gk f. SetNX gk f d) gks fresh @ [MGet ks]) x))" (is "passed n (snd (rc_Exec C ctx ?cs x))")
proof -
  obtain m V where V: "V \<subseteq>\<^sub>m view x" "\<And>V' r. cmd_run (take m ?cs) V [] = Some (V', r) \<Longrightarrow> view (snd (rc_Exec C ctx ?cs x)) \<subseteq>\<^sub>m V'"
    using EXEC_part [of x ?cs ctx] by blast
  obtain V1 r1 where V1: "cmd_run (map2 (\<lambda>gk f. SetNX gk f d) (take m gks) (take m fresh)) V [] = Some (V1, r1)"
    "\<forall>k. V1 k \<noteq> V k \<longrightarrow> (\<exists>f \<in> set (take m fresh). V1 k = Some f)"
    using run_creates [of "take m fresh" "take m gks" d V "[]"] fresh(1) d by auto
  have "take m ?cs = map2 (\<lambda>gk f. SetNX gk f d) (take m gks) (take m fresh) @ take (m - length gks) [MGet ks]"
    using fresh(1) by (simp add: take_map take_zip)
  then have "\<exists>r. cmd_run (take m ?cs) V [] = Some (V1, r)"
    using V1(1) by (cases "m - length gks") (simp_all add: cmd_run_append)
  then have le: "view (snd (rc_Exec C ctx ?cs x)) \<subseteq>\<^sub>m V1" using V(2) by blast
  have old: "V gk = Some v \<Longrightarrow> value_ok n v" for v using value_le [OF V(1)] x by (simp add: passed_value)
  have "value_ok n v" if "V1 gk = Some v" for v
  proof (cases "V1 gk = V gk")
    case True
    then show ?thesis using that old by simp
  next
    case False
    then obtain f where "f \<in> set (take m fresh)" "V1 gk = Some f" using V1(2) by blast
    with that have f: "f \<in> set (take m fresh)" "v = f" by simp_all
    then have "f \<in> set fresh" by (meson in_set_takeD)
    then show ?thesis using f(2) fresh(2) drawn_clear x by (auto simp: value_ok_def passed_def)
  qed
  then show ?thesis using value_le [OF le] x EXEC_ok [OF passed_ok [OF x]] by (simp add: passed_value)
qed

text \<open>The three commands of a bump: the counter stays, or is one further.\<close>

lemma bump_prefix:
  assumes "0 < d" "\<And>v. V k = Some v \<Longrightarrow> is_decimal v \<and> decimal_value v < 2 ^ 63 - 1" "is_decimal f" "decimal_value f < 2 ^ 63 - 1"
  shows "\<exists>V' r. cmd_run (take m [SetNX k f d, Incr k, PExpire k d]) V [] = Some (V', r)
    \<and> (V' k = V k \<or> (\<exists>u. (V k = Some u \<or> V k = None \<and> u = f) \<and> V' k \<in> {Some u, Some (decimal (decimal_value u + 1))}))"
proof -
  consider "m = 0" | "m = 1" | "m = 2" | "m \<ge> 3" by linarith
  then show ?thesis
    using assms by cases (auto simp: numeral_2_eq_2 split: option.split)
qed

lemma bumps_passed:
  assumes x: "passed n x" and step: "\<And>v. value_ok n v \<Longrightarrow> value_ok m v \<and> value_ok m (decimal (decimal_value v + 1))"
    and m: "m \<le> n" "0 < n" and f: "drawn rnd ok g" "f = FormatUint g" and d: "0 < d"
  shows "passed m (snd (rc_Exec C ctx [SetNX k f d, Incr k, PExpire k d] x))" (is "passed m (snd (rc_Exec C ctx ?cs x))")
proof (cases "k = gk")
  case False
  then have "view (snd (rc_Exec C ctx ?cs x)) gk = view x gk \<or> view (snd (rc_Exec C ctx ?cs x)) gk = None"
    using EXEC_other [of gk ?cs ctx x] by (cases "view (snd (rc_Exec C ctx ?cs x)) gk") (auto simp: cmd_keys_def)
  then show ?thesis using passed_mono [OF passed_le [OF x EXEC_ok [OF passed_ok [OF x]]] m(1)] by blast
next
  case True
  obtain j V where V: "V \<subseteq>\<^sub>m view x" "\<And>V' r. cmd_run (take j ?cs) V [] = Some (V', r) \<Longrightarrow> view (snd (rc_Exec C ctx ?cs x)) \<subseteq>\<^sub>m V'"
    using EXEC_part [of x ?cs ctx] by blast
  have old: "V gk = Some v \<Longrightarrow> value_ok n v" for v using value_le [OF V(1)] x by (simp add: passed_value)
  have new: "value_ok n f" using drawn_clear [OF f(1), of n] f(2) x by (simp add: value_ok_def passed_def)
  have small: "value_ok n v \<Longrightarrow> is_decimal v \<and> decimal_value v < 2 ^ 63 - 1" for v
    using m(2) by (auto simp: value_ok_def clear_of_def)
  obtain V' r where V': "cmd_run (take j ?cs) V [] = Some (V', r)"
    "V' gk = V gk \<or> (\<exists>u. (V gk = Some u \<or> V gk = None \<and> u = f) \<and> V' gk \<in> {Some u, Some (decimal (decimal_value u + 1))})"
    using bump_prefix [of d V gk f j] d small old new True by blast
  have "value_ok m v" if "V' gk = Some v" for v using V'(2) that old new step by auto
  then show ?thesis using value_le [OF V(2) [OF V'(1)]] x m(1) EXEC_ok [OF passed_ok [OF x]] by (simp add: passed_value)
qed

lemma GetTagged_passed: "passed n x \<Longrightarrow> passed n (snd (rs_GetTagged rnd s ctx key gks ttl x))"
proof -
  assume x: "passed n x"
  obtain r x0 where f: "newGenerations rnd (length gks) x = (r, x0)" by fastforce
  note fresh = newGenerations_drawn [of ok rnd view, OF draws f passed_ok [OF x]]
  have x0: "passed n x0" using passed_view [OF x] fresh by blast
  show ?thesis
  proof (cases r)
    case (Inr fs)
    then have fs: "length fs = length gks" "\<forall>f \<in> set fs. \<exists>g. drawn rnd ok g \<and> f = FormatUint g" using fresh by auto
    show ?thesis using x x0 f Inr unfolding rs_GetTagged_def Let_def split_beta
      by (auto simp: split_beta creates_passed [OF _ fs max_ttl, unfolded split_beta] split: option.split intro!: call_passed [where n = n])
  qed (use x x0 f in \<open>auto simp: rs_GetTagged_def\<close>)
qed

lemma Bump_step:
  assumes "passed n x" "m \<le> n" "0 < n" and step: "\<And>v. value_ok n v \<Longrightarrow> value_ok m v \<and> value_ok m (decimal (decimal_value v + 1))"
  shows "passed m (snd (rs_Bump rnd s ctx [k] ttl x))"
proof -
  obtain r x0 where f: "newGenerations rnd (Suc 0) x = (r, x0)" by fastforce
  note fresh = newGenerations_drawn [of ok rnd view, OF draws f passed_ok [OF assms(1)]]
  have x0: "passed n x0" using passed_view [OF assms(1)] fresh by blast
  note low = passed_mono [OF assms(1,2)] passed_mono [OF x0 assms(2)]
  show ?thesis
  proof (cases r)
    case (Inr fs)
    then obtain g where g: "fs = [FormatUint g]" "drawn rnd ok g" using fresh by (auto simp: length_Suc_conv)
    show ?thesis using low x0 f Inr g(1) assms(2) unfolding rs_Bump_def Let_def split_beta
      by (auto simp: split_beta bumps_passed [OF _ step assms(2,3) g(2) refl max_ttl, unfolded split_beta] simp del: newGenerations.simps
          intro!: call_passed [where n = n])
  qed (use low f in \<open>auto simp: rs_Bump_def simp del: newGenerations.simps\<close>)
qed

lemma Bump_passed: "passed (Suc n) x \<Longrightarrow> passed n (snd (rs_Bump rnd s ctx [k] ttl x))"
  by (rule Bump_step [where n = "Suc n"]) (use clear_of_less in \<open>auto simp: value_ok_def\<close>)

lemma GetTagged_avoids:
  assumes x: "passed n x" and r: "fst (rs_GetTagged rnd s ctx key gks ttl x) = Inr (v, gs)"
  shows "avoids gk {g0} gks (elems gs)"
proof -
  have run: "rs_GetTagged rnd s ctx key gks ttl x = (Inr (v, gs), snd (rs_GetTagged rnd s ctx key gks ttl x))"
    using r by (simp add: prod_eq_iff)
  have "elems gs ! i \<noteq> g0" if i: "i < length gks" "gks ! i = gk" for i
  proof (rule GetTagged_law [OF run passed_ok [OF x]])
    fix V assume V: "\<And>k u. V k = Some u \<Longrightarrow> view x k = Some u \<or> k \<in> set gks \<and> (\<exists>g. drawn rnd ok g \<and> u = FormatUint g)"
      "\<And>i. i < length gks \<Longrightarrow> \<exists>str. V (gks ! i) = Some str \<and> ParseUint str = (elems gs ! i, None)"
    obtain str where str: "V gk = Some str" "ParseUint str = (elems gs ! i, None)" using V(2) [OF i(1)] i(2) by auto
    have "value_ok n str"
      using V(1) [OF str(1)]
    proof
      assume "view x gk = Some str"
      then show ?thesis using x by (simp add: passed_value)
    next
      assume "gk \<in> set gks \<and> (\<exists>g. drawn rnd ok g \<and> str = FormatUint g)"
      then obtain g where "drawn rnd ok g" "str = FormatUint g" by blast
      then show ?thesis using drawn_clear [of g n] x by (simp add: value_ok_def passed_def)
    qed
    then have "clear_of g0 n (unat (elems gs ! i))" using ParseUint_value [OF str(2)] by (simp add: value_ok_def)
    then show ?thesis by (rule clear_of_not)
  qed
  then show ?thesis using rs_GetTagged_length [OF guard rs_guard r] by (simp add: avoids_def)
qed

end

section \<open>Invalidating a tag in Redis\<close>

text \<open>Whatever the store draws while this lasts is not within \<open>N\<close> bumps before \<open>g0\<close>.\<close>

definition far_from :: "u64 \<Rightarrow> nat \<Rightarrow> ('x \<Rightarrow> bytes option \<times> 'x) \<Rightarrow> ('x \<Rightarrow> bool) \<Rightarrow> bool" where
  "far_from g0 N rnd ok \<longleftrightarrow> N < 2 ^ 62 \<and> (\<forall>g. drawn rnd ok g \<longrightarrow> unat g0 < unat g \<or> unat g + N + 1 < unat g0)"

lemma pred_unat: "unat (g - 1) = (if g = 0 then 2 ^ 64 - 1 else unat g - 1)" for g :: u64
proof (cases "g = 0")
  case True
  have "unat (- 1 :: u64) = 2 ^ 64 - 1" by (simp add: unsigned_minus_1_eq_mask mask_eq_exp_minus_1)
  then show ?thesis using True by simp
qed (simp add: unat_minus_one)

lemma far_tags:
  assumes "redis_pipelines C view G s rnd ok" "far_from g0 N rnd ok"
  shows "redis_tags C view G s rnd ok g0 N" "redis_tags C view G s rnd ok (g0 - 1) N"
proof -
  note far = assms(2) [unfolded far_from_def]
  have "unat (g0 - 1) < unat g \<or> unat g + N < unat (g0 - 1)" if "drawn rnd ok g" for g
  proof (cases "g0 = 0")
    case True
    have "unat g < 2 ^ 62" using that NewGeneration_range by (auto simp: drawn_def)
    then show ?thesis using far by (simp add: pred_unat True del: diff_0)
  next
    case False
    then show ?thesis using that far [THEN conjunct2, rule_format, OF that] by (auto simp: pred_unat)
  qed
  then show "redis_tags C view G s rnd ok g0 N" "redis_tags C view G s rnd ok (g0 - 1) N"
    using assms(1) far by (auto intro!: redis_tags.intro redis_tags_axioms.intro)
qed

lemma clear_of_pred: "clear_of (g0 - 1) (Suc n) v \<Longrightarrow> clear_of g0 n (Suc v)"
  by (cases "g0 = 0") (auto simp: clear_of_def pred_unat)

lemma Bump_retires:
  assumes R: "redis_pipelines C view G s rnd ok" "far_from g0 N rnd ok"
    and x: "redis_tags.passed view ok gk (g0 - 1) N (Suc n) x" and b: "rs_Bump rnd s ctx [gk] ttl x = (None, y)"
  shows "redis_tags.passed view ok gk g0 N n y"
proof -
  note T = far_tags [OF R]
  have C: "redis_counters C view G s rnd ok" using R(1) by (simp add: redis_pipelines_def)
  note p = x [unfolded redis_tags.passed_def [OF T(2)]]
  have "is_decimal v' \<and> clear_of g0 n (decimal_value v')" if v': "view y gk = Some v'" for v'
  proof -
    have "is_decimal v' \<and> (\<exists>v. (view x gk = Some v \<or> (\<exists>g. drawn rnd ok g \<and> v = FormatUint g)) \<and> decimal_value v' = decimal_value v + 1)"
    proof -
      have "counter_ok 1 v" if "view x gk = Some v" for v using p that by (auto simp: counter_ok_def clear_of_def)
      then show ?thesis using redis_counters.Bump_law [OF C b _ _ _ v'] p by simp
    qed
    moreover have "clear_of (g0 - 1) (Suc n) (decimal_value (FormatUint g))" if "drawn rnd ok g" for g
      using redis_tags.drawn_clear [OF T(2) that, of "Suc n"] p by simp
    ultimately show ?thesis using p clear_of_pred by fastforce
  qed
  then show ?thesis using p redis_counters.counters_ok(1) [OF C, of x ctx "[gk]" ttl] b
    by (simp add: redis_tags.passed_def [OF T(1)])
qed

text \<open>A reply of \<open>GetTagged\<close> with \<open>g0\<close> says that the counter is no further back.\<close>

lemma read_reaches:
  assumes R: "redis_pipelines C view G s rnd ok" "far_from g0 N rnd ok" and g0: "unat g0 + N < 2 ^ 63" and x: "ok x"
    and r: "rs_GetTagged rnd s ctx key gks ttl x = (Inr (v, gs), y)" "i < length gks" "gks ! i = gk" "elems gs ! i = g0"
  shows "redis_tags.passed view ok gk (g0 - 1) N N y"
proof -
  note T = far_tags [OF R]
  have C: "redis_counters C view G s rnd ok" using R(1) by (simp add: redis_pipelines_def)
  obtain V where V: "view y \<subseteq>\<^sub>m V" "\<exists>str. V gk = Some str \<and> ParseUint str = (g0, None)"
    by (rule redis_counters.GetTagged_law [OF C r(1) x]) (use r(2-) in blast)
  have "clear_of (g0 - 1) N (unat g0)" using g0 unat_gt_0 [of g0] by (auto simp: clear_of_def pred_unat)
  then have "is_decimal u \<and> clear_of (g0 - 1) N (decimal_value u)" if "view y gk = Some u" for u
    using that V ParseUint_value by (force simp: map_le_def dom_def)
  then show ?thesis using redis_counters.counters_ok(2) [OF C x, of ctx key gks ttl] r(1) by (simp add: redis_tags.passed_def [OF T(2)])
qed

section \<open>The cache over any L1 and Redis\<close>

text \<open>The other users of this Redis, one operation of a store at a time.\<close>

datatype store_op = OGet ctx string | OSet ctx string bytes duration | ODelete ctx string
  | OGetTagged ctx string "string list" duration | OBump ctx string duration

fun store_do :: "('b \<Rightarrow> bytes option \<times> 'b) \<Rightarrow> 'b rstore \<Rightarrow> store_op \<Rightarrow> 'b \<Rightarrow> 'b" where
  "store_do rnd s (OGet ctx k) x = snd (rs_Get s ctx k x)"
| "store_do rnd s (OSet ctx k v ttl) x = snd (rs_Set s ctx k v ttl x)"
| "store_do rnd s (ODelete ctx k) x = snd (rs_Delete s ctx k x)"
| "store_do rnd s (OGetTagged ctx k gks ttl) x = snd (rs_GetTagged rnd s ctx k gks ttl x)"
| "store_do rnd s (OBump ctx gk ttl) x = snd (rs_Bump rnd s ctx [gk] ttl x)"

text \<open>Around a replica: an operation of another on Redis, and its own process going on (the clock moves, contexts end).\<close>

datatype 'e around = AtRedis store_op | AtProcess "'e \<Rightarrow> 'e"

fun around_do :: "('b \<Rightarrow> bytes option \<times> 'b) \<Rightarrow> 'b rstore \<Rightarrow> 'e around \<Rightarrow> ('e, 'a, 'b) outside \<Rightarrow> ('e, 'a, 'b) outside" where
  "around_do rnd s (AtRedis op) (e, a, b) = (e, a, store_do rnd s op b)"
| "around_do rnd s (AtProcess f) (e, a, b) = (f e, a, b)"

text \<open>What a step may not do: a load that reaches into Redis by itself, or a \<open>Set\<close> of the counter by another user.\<close>

definition fair :: "(('e, 'a, 'b) outside, 'k, 'v) cache \<Rightarrow> string \<Rightarrow> (('e, 'a, 'b) outside, 'k, 'v, 'e around) race_step \<Rightarrow> bool" where
  "fair c gk st = (case st of
     RCall (CGetOrLoad ctx k (Some load) opts) \<Rightarrow> (\<forall>lc x. snd (snd (snd (load lc x))) = snd (snd x))
   | RCall _ \<Rightarrow> True
   | RLate ctx s entry ttl \<Rightarrow> (\<exists>k. slotFor c k = Inr s)
   | ROther (AtRedis (OSet ctx k v ttl)) \<Rightarrow> k \<noteq> gk
   | ROther _ \<Rightarrow> True)"

text \<open>A property of the process that the runtime, the bus and a step keep.\<close>

definition env_keeps :: "'e runtime \<Rightarrow> 'e Bus option \<Rightarrow> ('e \<Rightarrow> bool) \<Rightarrow> bool" where
  "env_keeps rt b T \<longleftrightarrow> (\<forall>e. T e \<longrightarrow> (\<forall>ctx. T (snd (rt_Err rt ctx e))) \<and> T (snd (rt_Now rt e)) \<and> T (snd (rt_Float64 rt e))
     \<and> (\<forall>ctx fk d. T (snd (rt_flight rt ctx fk d e)))
     \<and> (\<forall>b'. b = Some b' \<longrightarrow> (\<forall>ctx ev. T (snd (b_Publish b' ctx ev e))) \<and> (\<forall>u. T (b_Unsubscribe b' u e))))"

definition step_env :: "('e \<Rightarrow> bool) \<Rightarrow> (('e, 'a, 'b) outside, 'k, 'v, 'e around) race_step \<Rightarrow> bool" where
  "step_env T st = (case st of
     RCall (CGetOrLoad ctx k (Some load) opts) \<Rightarrow> (\<forall>lc x. T (fst x) \<longrightarrow> T (fst (snd (load lc x))))
   | ROther (AtProcess f) \<Rightarrow> (\<forall>e. T e \<longrightarrow> T (f e))
   | _ \<Rightarrow> True)"

definition tagged_over :: "'a Store \<Rightarrow> 'b rstore \<Rightarrow> ('b \<Rightarrow> bytes option \<times> 'b) \<Rightarrow> 'e runtime \<Rightarrow> 'e Bus option
    \<Rightarrow> (('e, 'a, 'b) outside, 'k, 'v) cache \<Rightarrow> bool" where
  "tagged_over S1 s rnd rt b c \<longleftrightarrow> built c \<and> ca_tagsFn c \<noteq> None \<and> ca_l1 c = Some (on_l1 S1)
     \<and> ca_l2 c = Some (on_l2 (redis_Store rnd s)) \<and> ca_rt c = rt_env rt \<and> ca_bus c = map_option bus_env b"

lemma tagged_over_auth:
  assumes "tagged_over S1 s rnd rt b c"
  shows "ca_auth c = \<lparr>ts_GetTagged = (\<lambda>ctx k gks ttl. at_l2 (rs_GetTagged rnd s ctx k gks ttl)),
      ts_Bump = (\<lambda>ctx gks ttl. at_l2 (rs_Bump rnd s ctx gks ttl))\<rparr>" "ca_gens c"
  using assms by (auto simp: tagged_over_def built_def on_l2_def redis_Store_def)

lemma slot_not_counter:
  assumes "built c" "genKey c tag = Inr gk" "slotFor c k = Inr sl"
  shows "sl_pk sl \<noteq> gk"
proof -
  have c: "keyspace_ok c" using assms(1) by (simp add: built_def)
  have "physicalKey c k = Inr (sl_pk sl)"
    using assms(3) by (auto simp: slotFor_def Let_def split: sum.splits if_splits option.splits)
  from physicalKey_cases [OF this] show ?thesis
    using entry_counter_disjoint c genKey_Inr [OF assms(2)] unfolding keyspace_ok_def by (metis (full_types))
qed

context redis_tags begin

lemma retires:
  assumes c: "tagged_over S1 s rnd rt b c" "genKey c tag = Inr gk"
    and X: "young \<or> X \<subseteq> {g0}" "\<And>e. young \<Longrightarrow> T e \<Longrightarrow> due (snd (rt_Now rt e)) (fst (rt_Now rt e) + L)"
    and env: "env_keeps rt b T" "\<And>t. env_keeps rt b (\<lambda>e. due e t)"
  shows "retired c gk X (\<lambda>x. due (fst x)) young L (\<lambda>n x. T (fst x) \<and> passed n (snd (snd x)))"
    (is "retired _ _ _ ?due _ _ ?B")
proof
  note o = c(1) [unfolded tagged_over_def] and auth = tagged_over_auth [OF c(1)]
  note T = env(1) [unfolded env_keeps_def] and due = env(2) [unfolded env_keeps_def]
  show "?B n x" if "?B (Suc n) x" for n x using that passed_less by blast
  show "?B n (snd (rt_Err (ca_rt c) ctx x)) \<and> ?due x \<le> ?due (snd (rt_Err (ca_rt c) ctx x))"
    "?B n (snd (rt_Now (ca_rt c) x)) \<and> ?due x \<le> ?due (snd (rt_Now (ca_rt c) x))"
    "?B n (snd (rt_Float64 (ca_rt c) x)) \<and> ?due x \<le> ?due (snd (rt_Float64 (ca_rt c) x))"
    "?B n (snd (rt_flight (ca_rt c) ctx fk d x)) \<and> ?due x \<le> ?due (snd (rt_flight (ca_rt c) ctx fk d x))"
    if "?B n x" for n x ctx fk d
    using that o T due by (cases x, simp add: rt_env_def le_fun_def)+
  show "?B n (snd (b_Publish b' ctx ev x)) \<and> ?due x \<le> ?due (snd (b_Publish b' ctx ev x))"
    "?B n (b_Unsubscribe b' u x) \<and> ?due x \<le> ?due (b_Unsubscribe b' u x)"
    if "ca_bus c = Some b'" "?B n x" for b' n x ctx ev u
    using that o T due by (cases x, auto simp: bus_env_def le_fun_def)+
  show "?B n (snd (st_Get st ctx k x)) \<and> ?due x \<le> ?due (snd (st_Get st ctx k x))"
    "?B n (snd (st_Delete st ctx k x)) \<and> ?due x \<le> ?due (snd (st_Delete st ctx k x))"
    if "ca_l1 c = Some st \<or> ca_l2 c = Some st" "?B n x" for st n ctx k x
    using that o Get_passed Delete_passed by (cases x, auto simp: on_l1_def on_l2_def redis_Store_def)+
  show "?B n (snd (st_Set st ctx k v ttl x)) \<and> ?due x \<le> ?due (snd (st_Set st ctx k v ttl x))"
    if "ca_l1 c = Some st \<or> ca_l2 c = Some st" "k \<noteq> gk" "?B n x" for st n ctx k v ttl x
    using that o Set_passed by (cases x) (auto simp: on_l1_def on_l2_def redis_Store_def)
  show "?B n (snd (ts_GetTagged (ca_auth c) ctx pk gks ttl x)) \<and> ?due x \<le> ?due (snd (ts_GetTagged (ca_auth c) ctx pk gks ttl x))"
    if "?B n x" for n ctx pk gks ttl x
    using that GetTagged_passed by (cases x) (simp add: auth)
  show "length (elems gs) = length gks \<and> (young \<or> avoids gk X gks (elems gs))"
    if "?B n x" "fst (ts_GetTagged (ca_auth c) ctx pk gks ttl x) = Inr (w, gs)" for n ctx pk gks ttl x w gs
    using that GetTagged_avoids [of n "snd (snd x)" ctx pk gks ttl w gs] X(1) by (cases x) (auto simp: auth avoids_def)
  show "?B n (snd (ts_Bump (ca_auth c) ctx [k] ttl x)) \<and> ?due x \<le> ?due (snd (ts_Bump (ca_auth c) ctx [k] ttl x))"
    if "?B (Suc n) x" for n ctx k ttl x
    using that Bump_passed by (cases x) (simp add: auth)
  show "?due (snd (rt_Now (ca_rt c) x)) (fst (rt_Now (ca_rt c) x) + L)" if "young" "?B n x" for n x
    using that X(2) [of "fst x"] o by (cases x) (simp add: rt_env_def)
  show "sl_pk sl \<noteq> gk" if "slotFor c j = Inr sl" for j sl
    using slot_not_counter [OF _ c(2) that] o by blast
  show "ca_tagsFn c \<noteq> None" "ca_gens c \<longrightarrow> ca_l1 c \<noteq> None" using o by simp_all
qed

lemma fair_harmless:
  assumes R: "retired c gk X (\<lambda>x. due (fst x)) young L (\<lambda>n x. T (fst x) \<and> passed n (snd (snd x)))"
    and f: "fair c gk st" "step_env T st" "\<And>t. step_env (\<lambda>e. due e t) st"
  shows "retired.harmless c (\<lambda>x. due (fst x)) (\<lambda>n x. T (fst x) \<and> passed n (snd (snd x))) (around_do rnd s) st"
proof -
  note h = retired.harmless_def [OF R]
  show ?thesis
  proof (cases st)
    case (ROther op)
    have "passed n (store_do rnd s op x)" if p: "passed (Suc n) x" and "st = ROther (AtRedis op)" for n x op
      using that(2) f(1) Get_passed Set_passed Delete_passed GetTagged_passed Bump_passed [OF p] passed_less [OF p]
      by (cases op) (auto simp: fair_def)
    then show ?thesis using ROther f(2,3) passed_less by (cases op) (auto simp: h step_env_def)
  qed (use f in \<open>auto simp: h fair_def step_env_def split: call.splits option.splits\<close>)
qed

end

section \<open>The three stages\<close>

text \<open>What each stage of a run keeps of the world of one replica: how far the counter is from \<open>g0\<close>, and what its local
  copies may still hold.\<close>

definition stage :: "('b \<Rightarrow> string \<rightharpoonup> string) \<Rightarrow> ('b \<Rightarrow> bool) \<Rightarrow> string \<Rightarrow> u64 \<Rightarrow> nat \<Rightarrow> ('e \<Rightarrow> bool) \<Rightarrow> u64 set \<Rightarrow> ('e \<Rightarrow> time \<Rightarrow> bool)
    \<Rightarrow> duration \<Rightarrow> nat \<Rightarrow> ('e, 'a, 'b) outside world \<Rightarrow> bool" where
  "stage view ok gk g0 N T X due L n w \<longleftrightarrow> T (fst (w_ext w)) \<and> redis_tags.passed view ok gk g0 N n (snd (snd (w_ext w)))
     \<and> gen_free gk X (due (fst (w_ext w))) (w_gens w) \<and> g_ttl (w_gens w) = L"

lemma stage_steps:
  fixes c :: "(('e, 'a, 'b) outside, 'k, 'v) cache"
  assumes R: "redis_tags C view G s rnd ok g0 N" and c: "tagged_over S1 s rnd rt b c" "genKey c tag = Inr gk"
    and X: "young \<or> X \<subseteq> {g0}" "\<And>e. young \<Longrightarrow> T e \<Longrightarrow> due (snd (rt_Now rt e)) (fst (rt_Now rt e) + L)"
    and env: "env_keeps rt b T" "\<And>t. env_keeps rt b (\<lambda>e. due e t)"
    and sts: "\<forall>st \<in> set sts. fair c gk st \<and> step_env T st \<and> (\<forall>t. step_env (\<lambda>e. due e t) st)"
    and w: "stage view ok gk g0 N T X due L (n + length sts) w"
  shows "stage view ok gk g0 N T X due L n (race_steps (around_do rnd s) c sts w)"
proof -
  let ?B = "\<lambda>n (x :: ('e, 'a, 'b) outside). T (fst x) \<and> redis_tags.passed view ok gk g0 N n (snd (snd x))"
  have r: "retired c gk X (\<lambda>x. due (fst x)) young L ?B" by (rule redis_tags.retires [OF R c X env])
  have "retired.gone gk X (\<lambda>x. due (fst x)) L ?B n (race_steps (around_do rnd s) c sts w)"
  proof (rule retired.steps_gone [OF r])
    show "\<forall>st \<in> set sts. retired.harmless c (\<lambda>x. due (fst x)) ?B (around_do rnd s) st"
      using sts redis_tags.fair_harmless [OF R r] by blast
    show "retired.gone gk X (\<lambda>x. due (fst x)) L ?B (n + length sts) w"
      using w unfolding retired.gone_def [OF r] stage_def by blast
  qed
  then show ?thesis by (simp add: retired.gone_def [OF r] stage_def)
qed

lemma stage_Get:
  fixes c :: "(('e, 'a, 'b) outside, 'k, 'v) cache"
  assumes R: "redis_tags C view G s rnd ok g0 N" and c: "tagged_over S1 s rnd rt b c" "genKey c tag = Inr gk"
    and env: "env_keeps rt b T" "\<And>t. env_keeps rt b (\<lambda>e. due e t)" and late: "\<And>e t. T e \<Longrightarrow> due e t \<Longrightarrow> t \<le> fst (rt_Now rt e)"
    and w: "stage view ok gk g0 N T {g0} due L n w" and k: "slotFor c k = Inr sl"
  shows "hit_without c gk {g0} ctx sl (fst (run_state (Get c ctx k) w))"
proof -
  let ?B = "\<lambda>n (x :: ('e, 'a, 'b) outside). T (fst x) \<and> redis_tags.passed view ok gk g0 N n (snd (snd x))"
  have "retired c gk {g0} (\<lambda>x. due (fst x)) False L ?B" by (rule redis_tags.retires [OF R c _ _ env]) simp_all
  note r = retired.spec_Get [OF this k] retired.gone_def [OF this] retired.settled_def [OF this]
  have "\<not> fst (rt_Now (ca_rt c) x) < t" if "?B n x" "due (fst x) t" for x t
    using that late [of "fst x" t] c(1) by (cases x) (auto simp: tagged_over_def rt_env_def)
  then show ?thesis using r(1) [of n ctx] w by (simp add: spec_def r(2,3) stage_def)
qed

text \<open>A reader was given \<open>g0\<close>; the counter is bumped.\<close>

lemma stage_bump:
  assumes R: "redis_pipelines C view G s rnd ok" "far_from g0 N rnd ok" and w: "stage view ok gk (g0 - 1) N T X due L (Suc n) w"
    and b: "rs_Bump rnd s ctx [gk] ttl (snd (snd (w_ext w))) = (None, y)" and e: "T' (fst (w_ext w))"
    and X: "gen_free gk X' (due' (fst (w_ext w))) (w_gens w)"
  shows "stage view ok gk g0 N T' X' due' L n (w\<lparr>w_ext := (fst (w_ext w), fst (snd (w_ext w)), y)\<rparr>)"
  using w e X Bump_retires [OF R, of gk n "snd (snd (w_ext w))"] b by (simp add: stage_def)

lemma env_True: "env_keeps rt b (\<lambda>_. True)" "env_keeps rt b (\<lambda>_. False)" "step_env (\<lambda>_. True) st" "step_env (\<lambda>_. False) st"
  "env_keeps rt b (\<lambda>_. P)" "step_env (\<lambda>_. P) st"
  by (simp_all add: env_keeps_def step_env_def split: race_step.split call.split option.split around.split)

lemma stage_read:
  fixes c :: "(('e, 'a, 'b) outside, 'k, 'v) cache"
  assumes R: "redis_pipelines C view G s rnd ok" and far: "far_from g0 N rnd ok" and g0: "unat g0 + N < 2 ^ 63"
    and c: "tagged_over S1 s rnd rt b c" "genKey c tag = Inr gk"
    and read: "ok x" "rs_GetTagged rnd s ctx\<^sub>0 key gks ttl x = (Inr (v, gs), snd (snd (w_ext w)))"
      "i < length gks" "gks ! i = gk" "elems gs ! i = g0"
    and before: "\<forall>st \<in> set before. fair c gk st" "length before + n \<le> N"
  shows "stage view ok gk (g0 - 1) N (\<lambda>_. True) {} (\<lambda>_ _. False) (g_ttl (w_gens w)) n (race_steps (around_do rnd s) c before w)"
proof -
  let ?S = "stage view ok gk (g0 - 1) N (\<lambda>_. True) {} (\<lambda>_ _. False) (g_ttl (w_gens w))"
    and ?w = "race_steps (around_do rnd s) c before w"
  note T = far_tags [OF R far]
  have "?S N w" using read_reaches [OF R far g0 read] by (simp add: stage_def gen_free_def)
  then have "?S (N - length before) ?w"
    by (intro stage_steps [OF T(2) c, where young = False]) (use before in \<open>simp_all add: env_True\<close>)
  then show ?thesis using redis_tags.passed_mono [OF T(2)] before(2) by (auto simp: stage_def)
qed

section \<open>Properties\<close>


section \<open>The small server, and a cache with tags over it\<close>

lemma rd_pipe_live: "cmd_run cs (rd_live r) vals = Some (V', w) \<Longrightarrow> rd_live (snd (rd_pipe cs (None, vals) r)) = V'"
proof (induction cs arbitrary: vals r)
  case (Cons c cs)
  obtain err u r1 where c: "rd_cmd c r = ((err, u), r1)" by (metis prod.exhaust)
  have "err = None" "cmd_run cs (rd_live r1) u = Some (V', w)"
    using c Cons.prems
    by (cases c; auto simp: rd_live_put rd_live_keep rd_live_delete fun_upd_idem simp del: fun_upd_apply split: option.splits if_splits)+
  then show ?case using Cons.IH [of r1 u] c by simp
qed simp

lemma rd_live_other: "j \<noteq> k \<Longrightarrow> rd_live (rd_put k v t r) j = rd_live r j"
  "rd_live (r\<lparr>rd_keys := AList.delete k (rd_keys r)\<rparr>) j = (if j = k then None else rd_live r j)"
  by (auto simp: rd_live_def rd_put_def update_conv' delete_conv' split: option.split)

lemma rd_pipe_other: "j \<notin> \<Union> (cmd_keys ` set cs) \<Longrightarrow> rd_live (snd (rd_pipe cs acc r)) j = rd_live r j"
proof (induction cs arbitrary: acc r)
  case (Cons c cs)
  obtain err u r1 where c: "rd_cmd c r = ((err, u), r1)" by (metis prod.exhaust)
  have "rd_live r1 j = rd_live r j"
    using c Cons.prems by (cases c) (auto simp: cmd_keys_def rd_live_other split: option.splits if_splits)
  then show ?case using Cons c by (cases acc) simp
qed (metis rd_pipe.simps(1) prod.collapse snd_conv)

interpretation rdp: redis_pipelines rd_client rd_live passGuard_Do demo_redis rd_rnd "\<lambda>_. True"
proof unfold_locales
  fix ctx k v d x j u cs
  show "rd_live (snd (rc_Get rd_client ctx k x)) \<subseteq>\<^sub>m rd_live x"
    by (simp add: rd_client_def rd_live_tick)
  have tick: "rd_live (rd_tick r) j = Some u \<Longrightarrow> rd_live r j = Some u" for r j u
    using rd_live_tick [of r] by (auto simp: map_le_def dom_def)
  show "rd_live (snd (rc_Del rd_client ctx k x)) \<subseteq>\<^sub>m rd_live x"
    by (auto simp: rd_client_def rd_live_delete intro!: rd_live_tick map_le_trans [OF rd_live_tick])
  show "j \<noteq> k \<Longrightarrow> rd_live (snd (rc_Set rd_client ctx k v d x)) j = Some u \<Longrightarrow> rd_live x j = Some u"
    by (auto simp: rd_client_def rd_live_other dest!: tick split: if_splits)
  show "j \<notin> \<Union> (cmd_keys ` set cs) \<Longrightarrow> rd_live (snd (rc_Exec rd_client ctx cs x)) j = Some u \<Longrightarrow> rd_live x j = Some u"
    using rd_pipe_other [of j cs] by (auto simp: rd_client_def dest!: tick split: if_splits)
  show "\<exists>n V. V \<subseteq>\<^sub>m rd_live x \<and> (\<forall>V' r. cmd_run (take n cs) V [] = Some (V', r) \<longrightarrow> rd_live (snd (rc_Exec rd_client ctx cs x)) \<subseteq>\<^sub>m V')"
  proof (cases "rd_up x")
    case True
    then show ?thesis using rd_pipe_live rd_live_tick
      by (intro exI [of _ "length cs"] exI [of _ "rd_live x"]) (fastforce simp: rd_client_def)
  next
    case False
    then show ?thesis using rd_live_tick by (intro exI [of _ 0] exI [of _ "rd_live x"]) (simp add: rd_client_def)
  qed
qed simp_all

definition clock_rt :: "int runtime" where
  "clock_rt = \<lparr>rt_Err = (\<lambda>_ e. (None, e)), rt_Now = (\<lambda>e. (e, e)), rt_Float64 = (\<lambda>e. (0, e)),
     rt_trunc = min_int64, rt_flight = (\<lambda>_ _ _ e. (Lead, e))\<rparr>"

definition tag_world :: "(int, store, redis) outside world" where
  "tag_world = \<lparr>w_ext = (1000, demo_set, \<lparr>rd_keys = [(''cistern:v1:tasks:g:t'', ''7'', None)], rd_now = 2, rd_up = True\<rparr>),
     w_gens = newGenCache 60, w_trace = []\<rparr>"

definition tag_cache :: "((int, store, redis) outside, string, bytes) cache" where
  "tag_cache = projr (fst (run_state (New (rt_env clock_rt) demo_type raw ''tasks'' (Some (\<lambda>k. k))
     [WithL1 (Some (on_l1 (mem_Store (\<lambda>_. None)))), WithL2 (Some (on_l2 (redis_Store rd_rnd demo_redis))),
      WithTTL 60, WithTags (TagsFn (\<lambda>_. [''t'']))]) tag_world))"

lemma tag_New: "\<exists>w. run_state (New (rt_env clock_rt) demo_type raw ''tasks'' (Some (\<lambda>k. k))
     [WithL1 (Some (on_l1 (mem_Store (\<lambda>_. None)))), WithL2 (Some (on_l2 (redis_Store rd_rnd demo_redis))),
      WithTTL 60, WithTags (TagsFn (\<lambda>_. [''t'']))]) tag_world = (Inr tag_cache, w)"
  by (simp add: tag_cache_def New_def Let_def default_config_def WithL1_def WithL2_def WithTTL_def WithTags_def tagging_def
      validate_def tasks_namespace math_IsNaN_def f64_neg_def f64_ge1_def DefaultMaxValueBytes_def raw_def
      uncacheableType_def demo_type_def floatOf_def State_Monad.return_def State_Monad.bind_def on_l2_def redis_Store_def
      put_gens_def split_beta)

lemma tag_fields:
  "ca_l1 tag_cache = Some (on_l1 (mem_Store (\<lambda>_. None)))"
  "ca_l2 tag_cache = Some (on_l2 (redis_Store rd_rnd demo_redis))" "ca_auth tag_cache = the (st_tags (on_l2 (redis_Store rd_rnd demo_redis)))"
  "ca_rt tag_cache = rt_env clock_rt" "ca_tagsFn tag_cache = Some (\<lambda>_. [''t''])" "ca_bus tag_cache = None"
  "ca_hooks tag_cache = no_hooks" "key_fn tag_cache = (\<lambda>k. k)" "ca_gens tag_cache" "genPrefix tag_cache = ''cistern:v1:tasks:g:''"
  "namespace tag_cache = ''tasks''" "prefix tag_cache = ''cistern:v1:tasks:-:''" "hashKeys tag_cache = False" "ca_genTTL tag_cache = 120" "ca_l1TTL tag_cache = 60"
  by (simp_all add: wrap64_id in_int64_def max_int64_def min_int64_def tag_cache_def New_def Let_def default_config_def WithL1_def WithL2_def WithTTL_def WithTags_def tagging_def
      validate_def tasks_namespace math_IsNaN_def f64_neg_def f64_ge1_def DefaultMaxValueBytes_def raw_def
      uncacheableType_def demo_type_def floatOf_def State_Monad.return_def State_Monad.bind_def on_l2_def redis_Store_def
      put_gens_def split_beta)

lemma tag_over: "tagged_over (mem_Store (\<lambda>_. None)) demo_redis rd_rnd clock_rt None tag_cache"
proof -
  obtain w where "run_state (New (rt_env clock_rt) demo_type raw ''tasks'' (Some (\<lambda>k. k))
     [WithL1 (Some (on_l1 (mem_Store (\<lambda>_. None)))), WithL2 (Some (on_l2 (redis_Store rd_rnd demo_redis))),
      WithTTL 60, WithTags (TagsFn (\<lambda>_. [''t'']))]) tag_world = (Inr tag_cache, w)" using tag_New by blast
  from New_built [OF this] show ?thesis by (simp add: tagged_over_def tag_fields)
qed

lemma tag_genKey: "genKey tag_cache ''t'' = Inr ''cistern:v1:tasks:g:t''"
proof -
  have "validateKey ''t'' = None" by code_simp
  then show ?thesis by (simp add: genKey_def tag_fields MaxKeyBytes_def)
qed

definition tag_slot :: slot where
  "tag_slot = \<lparr>sl_key = ''user:42'', sl_pk = ''cistern:v1:tasks:-:k:user:42'', sl_genKeys = [''cistern:v1:tasks:g:t'']\<rparr>"

lemma tag_slot: "slotFor tag_cache ''user:42'' = Inr tag_slot"
proof -
  have "validateKey ''user:42'' = None" by code_simp
  then show ?thesis
    by (simp add: slotFor_def physicalKey_def tag_fields MaxKeyBytes_def tag_genKey MaxTags_def tag_slot_def)
qed

text \<open>The read before, at an earlier time, and the invalidation.\<close>

lemma parse_7: "ParseUint ''7'' = (7, None)"
  by (simp add: ParseUint_def is_decimal_def decimal_value_def)

lemma tag_read: "rs_GetTagged rd_rnd demo_redis Background ''cistern:v1:tasks:-:k:user:42'' [''cistern:v1:tasks:g:t''] 60
      \<lparr>rd_keys = [(''cistern:v1:tasks:g:t'', ''7'', None)], rd_now = 0, rd_up = True\<rparr>
    = (Inr (None, Some [7]), snd (snd (w_ext tag_world)))"
  by (simp add: rs_GetTagged_def draw_42 rs_call_def on_client_def passGuard_Do_def rd_client_def tag_world_def
      Millisecond_def rd_live_def rd_put_def rd_tick_def tagged_reply_def parse_7 nothing_def
      del: newGenerations.simps)

lemma tag_invalidated: "wp (InvalidateTag tag_cache Background ''t'') (\<lambda>r w. r = None) tag_world"
  by (simp add: InvalidateTag_def wp_bind wp_if ctxErr_def tag_fields tag_genKey tag_world_def wp_ext rt_env_def clock_rt_def
      at_env_def on_l2_def redis_Store_def at_l2_def rs_Bump_def draw_42 rs_call_def on_client_def passGuard_Do_def
      rd_client_def Millisecond_def rd_live_def rd_put_def rd_tick_def nothing_def is_decimal_def decimal_value_def
      gens_drop_def publish_def errors_Join_def onInvalidate_def no_hooks_def Let_def List.map_filter_def wp_simps wp_call_hook
      del: newGenerations.simps)

lemma rd_far: "far_from 7 5 rd_rnd (\<lambda>_. True)"
  by (simp add: far_from_def drawn_def rd_rnd_def NewGeneration_def)

text \<open>The world after the invalidation, and the write of a load that began before it.\<close>

definition tag_world_1 :: "(int, store, redis) outside world" where
  "tag_world_1 = snd (run_state (InvalidateTag tag_cache Background ''t'') tag_world)"

definition late_entry :: entry where
  "late_entry = \<lparr>Absent = False, Expires = 1060, Codec = ''raw'', Gens = [7], Payload = [9]\<rparr>"


interpretation tag7: redis_tags rd_client rd_live passGuard_Do demo_redis rd_rnd "\<lambda>_. True" "''cistern:v1:tasks:g:t''" 7 5
  by (rule far_tags [OF rdp.redis_pipelines_axioms rd_far])

interpretation tag_gone: retired tag_cache "''cistern:v1:tasks:g:t''" "{7}" "\<lambda>x _. False" False 60 "\<lambda>n x. True \<and> tag7.passed n (snd (snd x))"
  by (rule tag7.retires [OF tag_over tag_genKey]) (simp_all add: env_True)

end
