(* ===== verification/TagFleet.thy ===== *)
theory TagFleet
  imports RedisTags
begin

text \<open>
  Tag invalidation as the other replicas see it: someone else bumps the counter in Redis, and this replica still has a
  local copy of the old generation.  The event of the invalidation drops it; without the event it expires
  with the lifetime of L1, which is the bound of RNF-11 for tags.
\<close>

section \<open>Time\<close>

text \<open>A clock of the process that does not go back, and that \<open>rt_Now\<close> reads.\<close>

definition clocked :: "('e \<Rightarrow> time) \<Rightarrow> 'e runtime \<Rightarrow> 'e Bus option \<Rightarrow> bool" where
  "clocked clk rt b \<longleftrightarrow> (\<forall>t. env_keeps rt b (\<lambda>e. t \<le> clk e))
     \<and> (\<forall>e. clk e \<le> fst (rt_Now rt e) \<and> fst (rt_Now rt e) \<le> clk (snd (rt_Now rt e)))"

definition timely :: "('e \<Rightarrow> time) \<Rightarrow> (('e, 'a, 'b) outside, 'k, 'v, 'e around) race_step \<Rightarrow> bool" where
  "timely clk st \<longleftrightarrow> (\<forall>t. step_env (\<lambda>e. t \<le> clk e) st)"

lemma later:
  "clocked clk rt b \<Longrightarrow> env_keeps rt b (\<lambda>e. t \<le> clk e + L)" "timely clk st \<Longrightarrow> step_env (\<lambda>e. t \<le> clk e + L) st"
proof -
  have "(\<lambda>e. t \<le> clk e + L) = (\<lambda>e. t - L \<le> clk e)" by (auto simp: fun_eq_iff)
  then show "clocked clk rt b \<Longrightarrow> env_keeps rt b (\<lambda>e. t \<le> clk e + L)" "timely clk st \<Longrightarrow> step_env (\<lambda>e. t \<le> clk e + L) st"
    by (simp_all add: clocked_def timely_def)
qed

section \<open>How long a copy lives\<close>

text \<open>The copies of a counter that a replica has expire within one lifetime \<open>L\<close>.\<close>

definition copies_due :: "('e \<Rightarrow> time) \<Rightarrow> string \<Rightarrow> duration \<Rightarrow> ('e, 'a, 'b) outside world \<Rightarrow> bool" where
  "copies_due clk gk L w \<longleftrightarrow> gen_free gk UNIV (\<lambda>t. t \<le> clk (fst (w_ext w)) + L) (w_gens w) \<and> g_ttl (w_gens w) = L"

lemma any_history:
  fixes c :: "(('e, 'a, 'b) outside, 'k, 'v) cache"
  assumes R: "redis_pipelines C view G s rnd ok" and c: "tagged_over S1 s rnd rt b c" "genKey c tag = Inr gk"
    and clk: "clocked clk rt b"
  shows "retired c gk UNIV (\<lambda>x t. t \<le> clk (fst x) + L) True L (\<lambda>_ _. True)"
proof
  note o = c(1) [unfolded tagged_over_def] and auth = tagged_over_auth [OF c(1)]
  have C: "redis_counters C view G s rnd ok" using R by (simp add: redis_pipelines_def)
  have up: "(\<lambda>t. t \<le> clk e + L) \<le> (\<lambda>t. t \<le> clk e' + L) \<longleftrightarrow> clk e \<le> clk e'" for e e'
    by (auto simp: le_fun_def intro: order_trans dest: spec [of _ "clk e + L"])
  have run: "clk e \<le> clk (snd (rt_Err rt ctx e))" "clk e \<le> clk (snd (rt_Now rt e))" "clk e \<le> clk (snd (rt_Float64 rt e))"
    "clk e \<le> clk (snd (rt_flight rt ctx fk d e))" "b = Some b' \<Longrightarrow> clk e \<le> clk (snd (b_Publish b' ctx ev e))"
    "b = Some b' \<Longrightarrow> clk e \<le> clk (b_Unsubscribe b' u e)" for e ctx fk d b' ev u
    using clk by (auto simp: clocked_def env_keeps_def)
  show "True \<and> (\<lambda>t. t \<le> clk (fst x) + L) \<le> (\<lambda>t. t \<le> clk (fst (snd (rt_Err (ca_rt c) ctx x))) + L)"
    "True \<and> (\<lambda>t. t \<le> clk (fst x) + L) \<le> (\<lambda>t. t \<le> clk (fst (snd (rt_Now (ca_rt c) x))) + L)"
    "True \<and> (\<lambda>t. t \<le> clk (fst x) + L) \<le> (\<lambda>t. t \<le> clk (fst (snd (rt_Float64 (ca_rt c) x))) + L)"
    "True \<and> (\<lambda>t. t \<le> clk (fst x) + L) \<le> (\<lambda>t. t \<le> clk (fst (snd (rt_flight (ca_rt c) ctx fk d x))) + L)" for x ctx fk d
    unfolding up using o run by (cases x, simp add: rt_env_def)+
  show "True \<and> (\<lambda>t. t \<le> clk (fst x) + L) \<le> (\<lambda>t. t \<le> clk (fst (snd (b_Publish b' ctx ev x))) + L)"
    "True \<and> (\<lambda>t. t \<le> clk (fst x) + L) \<le> (\<lambda>t. t \<le> clk (fst (b_Unsubscribe b' u x)) + L)"
    if "ca_bus c = Some b'" for b' x ctx ev u
    unfolding up using that o run by (cases x, auto simp: bus_env_def)+
  show "True \<and> (\<lambda>t. t \<le> clk (fst x) + L) \<le> (\<lambda>t. t \<le> clk (fst (snd (st_Get st ctx k x))) + L)"
    "True \<and> (\<lambda>t. t \<le> clk (fst x) + L) \<le> (\<lambda>t. t \<le> clk (fst (snd (st_Delete st ctx k x))) + L)"
    "True \<and> (\<lambda>t. t \<le> clk (fst x) + L) \<le> (\<lambda>t. t \<le> clk (fst (snd (st_Set st ctx k v ttl x))) + L)"
    if "ca_l1 c = Some st \<or> ca_l2 c = Some st" for st ctx k x v ttl
    unfolding up using that o by (cases x, auto simp: on_l1_def on_l2_def)+
  show "True \<and> (\<lambda>t. t \<le> clk (fst x) + L) \<le> (\<lambda>t. t \<le> clk (fst (snd (ts_GetTagged (ca_auth c) ctx pk gks ttl x))) + L)"
    "True \<and> (\<lambda>t. t \<le> clk (fst x) + L) \<le> (\<lambda>t. t \<le> clk (fst (snd (ts_Bump (ca_auth c) ctx [pk] ttl x))) + L)"
    for ctx pk gks ttl x
    unfolding up by (cases x, simp add: auth)+
  show "length (elems gs) = length gks \<and> (True \<or> avoids gk UNIV gks (elems gs))"
    if "fst (ts_GetTagged (ca_auth c) ctx pk gks ttl x) = Inr (w, gs)" for ctx pk gks ttl x w gs
    using that rs_GetTagged_length [OF redis_counters.guard [OF C] redis_counters.rs_guard [OF C]]
    by (cases x) (auto simp: auth)
  show "fst (rt_Now (ca_rt c) x) + L \<le> clk (fst (snd (rt_Now (ca_rt c) x))) + L" for x
    using clk o by (cases x) (auto simp: clocked_def rt_env_def)
  show "sl_pk sl \<noteq> gk" if "slotFor c j = Inr sl" for j sl
    using slot_not_counter [OF _ c(2) that] o by blast
  show "ca_tagsFn c \<noteq> None" "ca_gens c \<longrightarrow> ca_l1 c \<noteq> None" using o by simp_all
qed (rule TrueI)

lemma copies_steps:
  fixes c :: "(('e, 'a, 'b) outside, 'k, 'v) cache"
  assumes R: "redis_pipelines C view G s rnd ok" and c: "tagged_over S1 s rnd rt b c" "genKey c tag = Inr gk"
    and clk: "clocked clk rt b" and sts: "\<forall>st \<in> set sts. fair c gk st \<and> timely clk st" and w: "copies_due clk gk L w"
  shows "copies_due clk gk L (race_steps (around_do rnd s) c sts w)"
proof -
  note H = any_history [OF R c clk, of L]
  have up: "clk e \<le> clk e' \<Longrightarrow> (\<lambda>t. t \<le> clk e + L) \<le> (\<lambda>t. t \<le> clk e' + L)" for e e' by (auto simp: le_fun_def)
  have "retired.harmless c (\<lambda>x t. t \<le> clk (fst x) + L) (\<lambda>_ _. True) (around_do rnd s) st" if "st \<in> set sts" for st
  proof -
    have "fair c gk st" "timely clk st" using sts that by blast+
    then show ?thesis
      by (cases st) (auto simp: retired.harmless_def [OF H] timely_def step_env_def fair_def intro!: up split: around.splits)
  qed
  then have "retired.gone gk UNIV (\<lambda>x t. t \<le> clk (fst x) + L) L (\<lambda>_ _. True) 0 (race_steps (around_do rnd s) c sts w)"
    using w by (intro retired.steps_gone [OF H]) (auto simp: retired.gone_def [OF H] copies_due_def)
  then show ?thesis by (simp add: retired.gone_def [OF H] copies_due_def)
qed

section \<open>Properties\<close>



section \<open>Witnesses\<close>

definition bumped_redis :: redis where
  "bumped_redis = snd (rs_Bump rd_rnd demo_redis Background [''cistern:v1:tasks:g:t''] 120 (snd (snd (w_ext tag_world))))"

lemma bumped_redis: "rs_Bump rd_rnd demo_redis Background [''cistern:v1:tasks:g:t''] 120 (snd (snd (w_ext tag_world)))
    = (None, bumped_redis)"
  by (simp add: bumped_redis_def tag_world_def rs_Bump_def draw_42 rs_call_def on_client_def passGuard_Do_def
      rd_client_def Millisecond_def rd_live_def rd_put_def rd_tick_def nothing_def is_decimal_def decimal_value_def
      del: newGenerations.simps)

definition event_world :: "(int, store, redis) outside world" where
  "event_world = cache_call tag_cache (CEvent \<lparr>Namespace = ''tasks'', ev_Kind = KindTag, Name = ''t''\<rparr>)
     (tag_world\<lparr>w_ext := (1000, demo_set, bumped_redis)\<rparr>)"

lemma no_steps [simp]: "race_steps act c [] w = w"
  by (simp add: race_steps_def)


text \<open>A replica to which no event comes, sixty nanoseconds later.\<close>

definition waited_world :: "(int, store, redis) outside world" where
  "waited_world = race_steps (around_do rd_rnd demo_redis) tag_cache [ROther (AtProcess (\<lambda>t. t + 60))]
     (tag_world\<lparr>w_ext := (1000, demo_set, bumped_redis)\<rparr>)"

lemma clock_clocked: "clocked (\<lambda>t. t) clock_rt None"
  by (simp add: clocked_def env_keeps_def clock_rt_def)


end
