(* ===== verification/CacheTouches.thy ===== *)
theory CacheTouches
  imports CacheKeeps
begin

text \<open>
  What every call of a cache keeps of the outside: a property that each operation of its levels, tag store, runtime and
  bus keeps, one by one.
\<close>

locale untouched =
  fixes c :: "('x, 'k, 'v) cache" and Q :: "'x \<Rightarrow> bool"
  assumes runs: "Q x \<Longrightarrow> Q (snd (rt_Err (ca_rt c) ctx x))" "Q x \<Longrightarrow> Q (snd (rt_Now (ca_rt c) x))"
      "Q x \<Longrightarrow> Q (snd (rt_Float64 (ca_rt c) x))" "Q x \<Longrightarrow> Q (snd (rt_flight (ca_rt c) ctx fk d x))"
    and events: "ca_bus c = Some b \<Longrightarrow> Q x \<Longrightarrow> Q (snd (b_Publish b ctx ev x))"
      "ca_bus c = Some b \<Longrightarrow> Q x \<Longrightarrow> Q (b_Unsubscribe b u x)"
    and stores: "ca_l1 c = Some st \<or> ca_l2 c = Some st \<Longrightarrow> Q x \<Longrightarrow> Q (snd (st_Get st ctx k x))"
      "ca_l1 c = Some st \<or> ca_l2 c = Some st \<Longrightarrow> Q x \<Longrightarrow> Q (snd (st_Set st ctx k v ttl x))"
      "ca_l1 c = Some st \<or> ca_l2 c = Some st \<Longrightarrow> Q x \<Longrightarrow> Q (snd (st_Delete st ctx k x))"
    and tags: "ca_tagsFn c \<noteq> None \<Longrightarrow> Q x \<Longrightarrow> Q (snd (ts_GetTagged (ca_auth c) ctx pk gks ttl x))"
      "ca_tagsFn c \<noteq> None \<Longrightarrow> Q x \<Longrightarrow> Q (snd (ts_Bump (ca_auth c) ctx gks ttl x))"
begin

definition kept :: "'x world \<Rightarrow> bool" where
  "kept w \<longleftrightarrow> Q (w_ext w)"

lemma kept_ext: "(\<And>x. Q x \<Longrightarrow> Q (snd (f x))) \<Longrightarrow> keeps (ext f) kept"
  by (rule keepsI) (simp add: wp_simps kept_def)

lemma kept_hook: "keeps (call_hook hk ctx e) kept"
  by (rule keepsI) (simp add: wp_simps kept_def)

lemma kept_parts: "keeps (now c) kept" "keeps (ctxErr c ctx) kept"
  "keeps (onHit c ctx key level absent) kept" "keeps (onMiss c ctx key) kept"
  "keeps (onError c ctx key op level er) kept" "keeps (onInvalidate c ctx key tag rem) kept"
  "keeps (onLoad c ctx key d er') kept" "keeps (onCoalesced c ctx key) kept"
  "keeps (ext (rt_Now (ca_rt c))) kept" "keeps (ext (rt_Float64 (ca_rt c))) kept"
  "keeps (ext (rt_flight (ca_rt c) ctx fk d)) kept"
  by (simp_all add: now_def ctxErr_def onHit_def onMiss_def onError_def onInvalidate_def onLoad_def onCoalesced_def
      kept_hook kept_ext runs)

lemma kept_gens: "keeps (gens_epoch s) kept" "keeps (gens_drop k) kept" "keeps (gens_get c s) kept" "keeps (gens_put c s g since) kept"
  by (rule keepsI, simp add: gens_epoch_def gens_drop_def gens_get_def gens_put_def now_def wp_simps kept_def runs split_beta)+

lemma kept_stores:
  assumes "ca_l1 c = Some st \<or> ca_l2 c = Some st"
  shows "keeps (ext (st_Get st ctx k)) kept" "keeps (ext (st_Delete st ctx k)) kept" "keeps (ext (st_Set st ctx k v ttl)) kept"
  by (simp_all add: kept_ext stores [OF assms])

lemma kept_tags: "ca_tagsFn c \<noteq> None \<Longrightarrow> keeps (ext (ts_GetTagged (ca_auth c) ctx pk gks ttl)) kept"
  "ca_tagsFn c \<noteq> None \<Longrightarrow> keeps (ext (ts_Bump (ca_auth c) ctx gks ttl)) kept"
  by (simp_all add: kept_ext tags)

lemmas kept_basics = kept_parts kept_gens kept_stores kept_tags

lemma kept_publish: "keeps (publish c ctx kind name) kept"
  unfolding publish_def by (intro keeps_intros kept_ext events)

lemma kept_write: "keeps (cache_write c ctx pk entry ttl) kept"
  unfolding cache_write_def Let_def by (intro keeps_intros kept_basics) simp_all

lemma kept_populate: "keeps (populate c ctx s entry ttl) kept"
  unfolding populate_def by (intro keeps_intros kept_parts kept_write)

lemma kept_backfill: "ca_l1 c = Some l1 \<Longrightarrow> keeps (backfill c l1 ctx s dat x) kept"
  unfolding backfill_def Let_def by (intro keeps_intros kept_basics) simp_all

lemma kept_checked: "keeps (checked c ctx key level dat) kept"
  unfolding checked_def by (intro keeps_intros kept_parts)

lemma kept_serves: "keeps (served c ctx key level e) kept" "keeps (serveIf c ctx s level e' g) kept"
  unfolding serveIf_def served_def by (intro keeps_intros kept_parts)+

lemma kept_levels:
  "(\<And>st lev. (Some st, lev) \<in> set lvs \<Longrightarrow> ca_l1 c = Some st \<or> ca_l2 c = Some st) \<Longrightarrow> keeps (readLevels c ctx s lvs) kept"
proof (induction lvs)
  case (Cons lv lvs)
  obtain st lev where lv: "lv = (st, lev)" by (cases lv)
  note rest = Cons.IH [OF Cons.prems, OF list.set_intros(2)]
  show ?case
  proof (cases st)
    case (Some st')
    then have st': "ca_l1 c = Some st' \<or> ca_l2 c = Some st'" using Cons.prems [of st' lev] lv by simp
    show ?thesis unfolding lv Some readLevels.simps
      by (intro keeps_intros kept_parts kept_stores [OF st'] kept_checked kept_serves kept_backfill rest)
  qed (simp add: lv rest)
qed (simp add: kept_parts keeps_intros)

lemma kept_tagged: "ca_tagsFn c \<noteq> None \<Longrightarrow> keeps (readTagged c ctx s) kept"
  unfolding readTagged_def readLocal_def readAuth_def Let_def
  by (intro keeps_intros kept_basics kept_checked kept_serves kept_backfill) simp_all

lemma kept_read: "keeps (cache_read c ctx s) kept"
  unfolding cache_read_def readPlain_def by (intro keeps_intros kept_tagged kept_levels) auto

lemma kept_load: "(\<And>lc x. Q x \<Longrightarrow> Q (snd (load lc x))) \<Longrightarrow> keeps (runLoad c lctx s gens cacheable ttl load) kept"
  unfolding runLoad_def Let_def by (intro keeps_intros kept_parts kept_ext kept_populate)

lemma kept_Get: "keeps (Get c ctx k) kept"
  unfolding Get_def by (intro keeps_intros kept_parts kept_read)

lemma kept_GetOrLoad:
  "(\<And>l lc x. load = Some l \<Longrightarrow> Q x \<Longrightarrow> Q (snd (l lc x))) \<Longrightarrow> keeps (GetOrLoad c ctx k load opts) kept"
  unfolding GetOrLoad_def by (intro keeps_intros kept_parts kept_read kept_load)

lemma kept_rest: "keeps (cache_Set c ctx k v opts) kept" "keeps (cache_Delete c ctx k) kept" "keeps (InvalidateTag c ctx tag) kept"
  "keeps (onEvent c e) kept" "keeps (Close c) kept"
  unfolding cache_Set_def cache_Delete_def InvalidateTag_def onEvent_def Close_def Let_def
  by (intro keeps_intros kept_basics kept_write kept_publish kept_ext events; simp)+

lemma kept_calls:
  assumes "\<And>ctx j l opts lc x. CGetOrLoad ctx j (Some l) opts \<in> set cs \<Longrightarrow> Q x \<Longrightarrow> Q (snd (l lc x))" "Q (w_ext w)"
  shows "Q (w_ext (cache_calls c cs w))"
  using assms
proof (induction cs arbitrary: w)
  case (Cons call cs)
  have "keeps (GetOrLoad c ctx j load opts) kept" if "call = CGetOrLoad ctx j load opts" for ctx j load opts
    using that by (intro kept_GetOrLoad) (metis Cons.prems(1) list.set_intros(1))
  then have w: "Q (w_ext (cache_call c call w))"
    using Cons.prems(2) kept_Get kept_rest by (cases call) (auto simp: keeps_def kept_def)
  have "Q (w_ext (cache_calls c cs (cache_call c call w)))"
    by (rule Cons.IH [OF _ w], rule Cons.prems(1), erule list.set_intros(2))
  then show ?case by (simp add: cache_calls_def)
qed (simp add: cache_calls_def)

end

end
