(* ===== verification/Adapters.thy ===== *)
theory Adapters
  imports CacheTouches CacheEvents RedisCache
begin

text \<open>
  Adapters to other modules: the default codec (\<open>codec/codec.go\<close>), the guard over a bastion circuit breaker
  (\<open>examples/bastionguard\<close>) and a value type that must never be cached (\<open>examples/secrets\<close>).  What they adapt
  is a parameter: \<open>encoding/json\<close> as two functions of the value type, \<open>bastion.Do\<close>, and \<open>secret.Value\<close> as a type.
\<close>

section \<open>The default codec\<close>

text \<open>\<open>codec.JSON\<close>, by what \<open>json.Marshal\<close> and \<open>json.Unmarshal\<close> do for the value type.\<close>

definition jsonCodec :: "('v \<Rightarrow> bytes result) \<Rightarrow> (bytes \<Rightarrow> 'v result) \<Rightarrow> 'v Codec" where
  "jsonCodec json_Marshal json_Unmarshal = \<lparr>cd_ID = ''json'', cd_Marshal = json_Marshal, cd_Unmarshal = json_Unmarshal\<rparr>"

text \<open>Its id, which every entry carries, fits the field of the entry, so \<open>New\<close> never refuses the default.\<close>

lemma jsonCodec_fits: "1 \<le> length (cd_ID (jsonCodec m u)) \<and> length (cd_ID (jsonCodec m u)) \<le> maxCodecID"
  by (simp add: jsonCodec_def maxCodecID_def)

section \<open>A guard over a circuit breaker\<close>

type_synonym ('x, 'b) bastion = "ctx \<Rightarrow> 'b \<Rightarrow> 'x rop \<Rightarrow> 'x \<times> captured \<Rightarrow> error option \<times> 'x \<times> captured"

record 'b bastionGuard =
  Breaker :: 'b

definition bastionguard_Do :: "('x, 'b) bastion \<Rightarrow> 'b bastionGuard \<Rightarrow> 'x Guard" where
  "bastionguard_Do bastion_Do g ctx op = bastion_Do ctx (Breaker g) op"

text \<open>What bastion documents: an open breaker refuses with \<open>ErrOpenState\<close> and does not run the operation; else the
  operation runs once and its error is the result, or a half-open breaker refuses it too.  \<open>own x y\<close> says that only
  the breaker's own state has changed; \<open>is_open x\<close>, that the breaker is open and no timeout of it is due.\<close>

locale breaker =
  fixes bastion_Do :: "('x, 'b) bastion" and br :: 'b and is_open :: "'x \<Rightarrow> bool" and own :: "'x \<Rightarrow> 'x \<Rightarrow> bool"
    and ErrOpenState :: error
  assumes refuses: "is_open x \<Longrightarrow> \<exists>x1. own x x1 \<and> is_open x1 \<and> bastion_Do ctx br op (x, cv) = (Some ErrOpenState, x1, cv)"
    and passes: "\<not> is_open x \<Longrightarrow> \<exists>x1. own x x1 \<and> ((\<exists>err. bastion_Do ctx br op (x, cv) = (Some err, x1, cv))
      \<or> (\<exists>err x' cv' x2. op ctx (x1, cv) = (err, x', cv') \<and> own x' x2 \<and> bastion_Do ctx br op (x, cv) = (err, x2, cv')))"
begin

text \<open>Such a guard keeps the promise of \<open>RedisLaws\<close>.\<close>

lemma guard: "guard_laws own (bastionguard_Do bastion_Do \<lparr>Breaker = br\<rparr>)"
  unfolding guard_laws_def bastionguard_Do_def bastionGuard.simps
proof (intro allI)
  fix ctx op x and cv :: captured
  show "\<exists>x1. own x x1 \<and> ((\<exists>err. bastion_Do ctx br op (x, cv) = (Some err, x1, cv))
      \<or> (\<exists>ctx' err x' cv' x2 err'. op ctx' (x1, cv) = (err, x', cv') \<and> own x' x2
          \<and> bastion_Do ctx br op (x, cv) = (err', x2, cv') \<and> (err' = err \<or> err' \<noteq> None)))"
    using refuses [of x ctx op cv] passes [of x ctx op cv] by (cases "is_open x") blast+
qed

end

text \<open>A store behind an open breaker: every operation fails, and Redis is not asked.  \<open>asked\<close> is what Redis has
  seen of this process, its connections for one.\<close>

locale open_breaker = breaker bastion_Do br is_open own ErrOpenState
  for bastion_Do :: "('x, 'b) bastion" and br :: 'b and is_open :: "'x \<Rightarrow> bool" and own :: "'x \<Rightarrow> 'x \<Rightarrow> bool"
    and ErrOpenState :: error +
  fixes s :: "'x rstore" and rnd :: "'x \<Rightarrow> bytes option \<times> 'x" and asked :: "'x \<Rightarrow> 'o"
  assumes guarded: "rs_guard s = Some (bastionguard_Do bastion_Do \<lparr>Breaker = br\<rparr>)"
    and own_asked: "own x y \<Longrightarrow> asked y = asked x"
    and draws: "is_open x \<Longrightarrow> is_open (snd (rnd x)) \<and> asked (snd (rnd x)) = asked x"
begin

definition cut :: "'o \<Rightarrow> 'x \<Rightarrow> bool" where
  "cut o' x \<longleftrightarrow> is_open x \<and> asked x = o'"

lemma call_refused:
  assumes "cut o' x"
  shows "fst (rs_call s ctx op (x, cv)) = Some ErrOpenState" "cut o' (fst (snd (rs_call s ctx op (x, cv))))"
proof -
  have x: "is_open x" using assms by (simp add: cut_def)
  obtain x1 where "own x x1" "is_open x1"
    "bastion_Do ctx br (\<lambda>ctx. op (WithTimeout ctx (rs_timeout s))) (x, cv) = (Some ErrOpenState, x1, cv)"
    using refuses [OF x] by blast
  then show "fst (rs_call s ctx op (x, cv)) = Some ErrOpenState" "cut o' (fst (snd (rs_call s ctx op (x, cv))))"
    using assms own_asked by (simp_all add: rs_call_def guarded bastionguard_Do_def cut_def)
qed

lemma draws_cut: "cut o' x \<Longrightarrow> cut o' (snd (newGenerations rnd n x))"
proof (induction n arbitrary: x)
  case (Suc n)
  obtain d x1 where d: "rnd x = (d, x1)" by fastforce
  then have "cut o' x1" using draws [of x] Suc.prems by (simp add: cut_def)
  then show ?case using Suc.IH [of x1] d by (cases "NewGeneration d") (simp_all add: apfst_def map_prod_def split_beta)
qed simp

lemma store_cut:
  assumes "cut o' x"
  shows "cut o' (snd (rs_Get s ctx k x))" "cut o' (snd (rs_Set s ctx k v ttl x))"
    "cut o' (snd (rs_Delete s ctx k x))" "fst (rs_Delete s ctx k x) \<noteq> None"
  by (simp_all add: rs_Get_def rs_Set_def rs_Delete_def Let_def split_beta call_refused [OF assms] assms)

lemma tags_cut:
  assumes "cut o' x"
  shows "cut o' (snd (rs_GetTagged rnd s ctx k gks ttl x))" "cut o' (snd (rs_Bump rnd s ctx gks ttl x))"
    "fst (rs_Bump rnd s ctx gks ttl x) \<noteq> None"
proof -
  obtain r x0 where f: "newGenerations rnd (length gks) x = (r, x0)" by fastforce
  then have x0: "cut o' x0" using draws_cut [OF assms, of "length gks"] by simp
  show "cut o' (snd (rs_GetTagged rnd s ctx k gks ttl x))" "cut o' (snd (rs_Bump rnd s ctx gks ttl x))"
    "fst (rs_Bump rnd s ctx gks ttl x) \<noteq> None"
    using assms x0 by (cases r; simp add: rs_GetTagged_def rs_Bump_def f Let_def split_beta call_refused [OF x0])+
qed

end

section \<open>A cache behind the breaker\<close>

text \<open>A cache over this Redis, with any other level or none before it, with tags or without.\<close>

definition behind :: "'a Store option \<Rightarrow> 'b rstore \<Rightarrow> ('b \<Rightarrow> bytes option \<times> 'b) \<Rightarrow> 'e runtime \<Rightarrow> 'e Bus option
    \<Rightarrow> (('e, 'a, 'b) outside, 'k, 'v) cache \<Rightarrow> bool" where
  "behind S1 s rnd rt b c \<longleftrightarrow> built c \<and> ca_l1 c = map_option on_l1 S1 \<and> ca_l2 c = Some (on_l2 (redis_Store rnd s))
     \<and> ca_rt c = rt_env rt \<and> ca_bus c = map_option bus_env b"

lemma behind_auth: "behind S1 s rnd rt b c \<Longrightarrow> ca_tagsFn c \<noteq> None \<Longrightarrow>
    ca_auth c = \<lparr>ts_GetTagged = (\<lambda>ctx k gks ttl. at_l2 (rs_GetTagged rnd s ctx k gks ttl)),
      ts_Bump = (\<lambda>ctx gks ttl. at_l2 (rs_Bump rnd s ctx gks ttl))\<rparr>"
  by (auto simp: behind_def built_def on_l2_def redis_Store_def)

context open_breaker begin

lemma behind_untouched:
  assumes c: "behind S1 s rnd rt b c"
  shows "untouched c (\<lambda>x. cut o' (snd (snd x)))"
proof
  note o = c [unfolded behind_def]
  show "cut o' (snd (snd (snd (rt_Err (ca_rt c) ctx x))))" "cut o' (snd (snd (snd (rt_Now (ca_rt c) x))))"
    "cut o' (snd (snd (snd (rt_Float64 (ca_rt c) x))))" "cut o' (snd (snd (snd (rt_flight (ca_rt c) ctx fk d x))))"
    if "cut o' (snd (snd x))" for x ctx fk d
    using that o by (cases x, simp add: rt_env_def)+
  show "cut o' (snd (snd (snd (b_Publish b' ctx ev x))))" "cut o' (snd (snd (b_Unsubscribe b' u x)))"
    if "ca_bus c = Some b'" "cut o' (snd (snd x))" for b' x ctx ev u
    using that o by (cases x, auto simp: bus_env_def)+
  show "cut o' (snd (snd (snd (st_Get st ctx k x))))" "cut o' (snd (snd (snd (st_Set st ctx k v ttl x))))"
    "cut o' (snd (snd (snd (st_Delete st ctx k x))))"
    if "ca_l1 c = Some st \<or> ca_l2 c = Some st" "cut o' (snd (snd x))" for st ctx k v ttl x
    using that o store_cut [of o' "snd (snd x)"] by (cases x, auto simp: on_l1_def on_l2_def redis_Store_def)+
  show "cut o' (snd (snd (snd (ts_GetTagged (ca_auth c) ctx pk gks ttl x))))" "cut o' (snd (snd (snd (ts_Bump (ca_auth c) ctx gks ttl x))))"
    if "ca_tagsFn c \<noteq> None" "cut o' (snd (snd x))" for ctx pk gks ttl x
    using that(2) tags_cut [of o' "snd (snd x)"] by (cases x, simp add: behind_auth [OF c that(1)])+
qed

lemma invalidations_fail:
  fixes c :: "(('e, 'a, 'x) outside, 'k, 'v) cache"
  assumes c: "behind S1 s rnd rt b c" and w: "cut o' (snd (snd (w_ext w)))"
  shows "fst (run_state (cache_Delete c ctx k) w) \<noteq> None" "fst (run_state (InvalidateTag c ctx tag) w) \<noteq> None"
proof -
  note o = c [unfolded behind_def]
  have third: "snd (snd (snd (rt_Err (rt_env rt) ctx x))) = snd (snd x)"
    "snd (snd (snd (st_Delete (on_l1 S) ctx pk x))) = snd (snd x)" for S :: "'a Store" and ctx pk and x :: "('e, 'a, 'x) outside"
    by (cases x, simp add: rt_env_def on_l1_def)+
  have l2: "fst (st_Delete (on_l2 (redis_Store rnd s)) ctx pk x) \<noteq> None" if "cut o' (snd (snd x))" for ctx pk and x :: "('e, 'a, 'x) outside"
    using that store_cut(4) [of o' "snd (snd x)"] by (cases x) (simp add: on_l2_def redis_Store_def)
  have "wp (cache_Delete c ctx k) (\<lambda>r _. r \<noteq> None) w"
    using o w by (auto simp: cache_Delete_def wp_simps ctxErr_def publish_def onInvalidate_def third l2 Let_def errors_Join_None_iff
        simp del: not_None_eq split: option.split sum.split)
  then show "fst (run_state (cache_Delete c ctx k) w) \<noteq> None" by (simp add: wp_run)
  have auth: "fst (ts_Bump (ca_auth c) ctx gks ttl x) \<noteq> None" if "ca_tagsFn c \<noteq> None" "cut o' (snd (snd x))"
    for ctx gks ttl and x :: "('e, 'a, 'x) outside"
    using tags_cut(3) [OF that(2)] by (cases x) (simp add: behind_auth [OF c that(1)])
  have "wp (InvalidateTag c ctx tag) (\<lambda>r _. r \<noteq> None) w"
    using o w by (auto simp: InvalidateTag_def wp_simps ctxErr_def publish_def onInvalidate_def gens_drop_def third auth Let_def
        errors_Join_None_iff simp del: not_None_eq split: option.split sum.split)
  then show "fst (run_state (InvalidateTag c ctx tag) w) \<noteq> None" by (simp add: wp_run)
qed

end

section \<open>A type that is never cached\<close>

record 't credential =
  Service :: string
  Token :: 't

text \<open>\<open>Credential\<close> as a Go type: its zero value, and a \<open>NoCache\<close> method on the value, so on the pointer too.\<close>

definition credential_type :: "'t \<Rightarrow> 't credential gotype" where
  "credential_type zero = \<lparr>ty_zero = \<lparr>Service = '''', Token = zero\<rparr>, ty_NoCache = (\<lambda>_. True), ty_ptr_NoCache = True\<rparr>"

lemma credential_refused:
  "fst (run_state (New rt (credential_type zero) json ns key opts) w) = Inl
     (case validate ns (key \<noteq> None) (fold (\<lambda>opt c. opt c) opts (default_config json)) of
        Some err \<Rightarrow> Wrap ''%w: %w'' [ErrInvalidConfig, err]
      | None \<Rightarrow> Wrap ''%w: the value type implements NoCache'' [ErrUncacheable])"
  by (simp add: New_def Let_def credential_type_def uncacheableType_def State_Monad.return_def split: option.split)

section \<open>Properties\<close>


text \<open>A type marked like \<open>Credential\<close> cannot be cached (RS-04): with any options \<open>New\<close> gives an error, and with valid ones
  it is \<open>ErrUncacheable\<close>.\<close>

lemma credentials_uncacheable:
  "\<exists>e. fst (run_state (New rt (credential_type zero) json ns key opts) w) = Inl e
    \<and> (validate ns (key \<noteq> None) (fold (\<lambda>opt c. opt c) opts (default_config json)) = None \<longrightarrow> errors_Is e ErrUncacheable)"
  by (simp add: credential_refused)

section \<open>Witnesses\<close>

text \<open>A breaker with a switch, and a Redis that counts the commands it is sent and never answers.\<close>

type_synonym switched = "bool \<times> nat"

definition ErrOpenState :: error where
  "ErrOpenState = Sentinel ''bastion: circuit breaker is open''"

definition switch_Do :: "(switched, unit) bastion" where
  "switch_Do ctx br op st = (if fst (fst st) then (Some ErrOpenState, st) else op ctx st)"

definition silent :: "'r \<Rightarrow> switched \<Rightarrow> 'r \<times> switched" where
  "silent r x = (r, fst x, Suc (snd x))"

definition silent_client :: "switched client" where
  "silent_client = \<lparr>rc_ContextTimeoutEnabled = True, rc_Get = (\<lambda>_ _. silent (Inl connection_refused)),
     rc_Set = (\<lambda>_ _ _ _. silent (Some connection_refused)), rc_Del = (\<lambda>_ _. silent (Some connection_refused)),
     rc_Exec = (\<lambda>_ _. silent (Some connection_refused, [])), rc_Publish = (\<lambda>_ _ _. silent (Some connection_refused))\<rparr>"

definition guarded_redis :: "switched rstore" where
  "guarded_redis = projr (rs_New (Some silent_client) [rs_WithGuard (Some (bastionguard_Do switch_Do \<lparr>Breaker = ()\<rparr>))])"

definition switch_rnd :: "switched \<Rightarrow> bytes option \<times> switched" where
  "switch_rnd x = (Some (be64 41), x)"

lemma guarded_guard: "rs_guard guarded_redis = Some (bastionguard_Do switch_Do \<lparr>Breaker = ()\<rparr>)"
  by (simp add: guarded_redis_def rs_New_def silent_client_def rs_WithGuard_def DefaultTimeout_def Millisecond_def)

interpretation switch: open_breaker switch_Do "()" fst "(=)" ErrOpenState guarded_redis switch_rnd snd
proof unfold_locales
  fix ctx op and x :: switched and cv :: captured
  show "\<not> fst x \<Longrightarrow> \<exists>x1. x = x1 \<and> ((\<exists>err. switch_Do ctx () op (x, cv) = (Some err, x1, cv))
      \<or> (\<exists>err x' cv' x2. op ctx (x1, cv) = (err, x', cv') \<and> x' = x2 \<and> switch_Do ctx () op (x, cv) = (err, x2, cv')))"
    by (cases "op ctx (x, cv)") (auto simp: switch_Do_def)
qed (simp_all add: switch_Do_def guarded_guard switch_rnd_def)

definition guarded_cache :: "((unit, unit, switched) outside, string, bytes) cache" where
  "guarded_cache = projr (fst (run_state (New (rt_env demo_rt) demo_type raw ''tasks'' (Some (\<lambda>k. k))
     [WithL2 (Some (on_l2 (redis_Store switch_rnd guarded_redis))), WithTTL 60])
     \<lparr>w_ext = ((), (), True, 0), w_gens = newGenCache 0, w_trace = []\<rparr>))"

lemma guarded_New: "\<exists>w. run_state (New (rt_env demo_rt) demo_type raw ''tasks'' (Some (\<lambda>k. k))
     [WithL2 (Some (on_l2 (redis_Store switch_rnd guarded_redis))), WithTTL 60])
     \<lparr>w_ext = ((), (), True, 0), w_gens = newGenCache 0, w_trace = []\<rparr> = (Inr guarded_cache, w)"
  by (simp add: guarded_cache_def New_def Let_def default_config_def WithL2_def WithTTL_def
      validate_def tasks_namespace math_IsNaN_def f64_neg_def f64_ge1_def DefaultMaxValueBytes_def raw_def
      uncacheableType_def demo_type_def floatOf_def State_Monad.return_def State_Monad.bind_def)

lemma guarded_fields: "ca_l1 guarded_cache = None" "ca_l2 guarded_cache = Some (on_l2 (redis_Store switch_rnd guarded_redis))"
  "ca_rt guarded_cache = rt_env demo_rt" "ca_bus guarded_cache = None"
  by (simp_all add: guarded_cache_def New_def Let_def default_config_def WithL2_def WithTTL_def
      validate_def tasks_namespace math_IsNaN_def f64_neg_def f64_ge1_def DefaultMaxValueBytes_def raw_def
      uncacheableType_def demo_type_def floatOf_def State_Monad.return_def State_Monad.bind_def)

lemma guarded_behind: "behind None guarded_redis switch_rnd demo_rt None guarded_cache"
proof -
  obtain w where "run_state (New (rt_env demo_rt) demo_type raw ''tasks'' (Some (\<lambda>k. k))
     [WithL2 (Some (on_l2 (redis_Store switch_rnd guarded_redis))), WithTTL 60])
     \<lparr>w_ext = ((), (), True, 0), w_gens = newGenCache 0, w_trace = []\<rparr> = (Inr guarded_cache, w)" using guarded_New by blast
  from New_built [OF this] show ?thesis by (simp add: behind_def guarded_fields)
qed

interpretation guarded: untouched guarded_cache "\<lambda>x. switch.cut 0 (snd (snd x))"
  by (rule switch.behind_untouched [OF guarded_behind])

text \<open>A read, a load and a write with the breaker open.\<close>

definition open_world :: "(unit, unit, switched) outside world" where
  "open_world = \<lparr>w_ext = ((), (), True, 0), w_gens = newGenCache 0, w_trace = []\<rparr>"

definition open_calls :: "((unit, unit, switched) outside, string, bytes) call list" where
  "open_calls = [CGet Background ''user:42'', CGetOrLoad Background ''user:42'' (Some (\<lambda>_ x. (Inr [7], x))) [],
     CSet Background ''user:42'' [7] []]"


end
