(* ===== verification/RedisSubscription.thy ===== *)
theory RedisSubscription
  imports Redis BusWire
begin

text \<open>
  \<open>Bus.Subscribe\<close> of \<open>redisstore/bus.go\<close> and the function it returns, as a transition system: the goroutine
  that takes messages and calls the handler, the callers of \<open>unsubscribe\<close>, and the goroutine that closes the
  subscription while the first of them waits, at most ten times \<open>DefaultTimeout\<close>.  What go-redis does is left
  open: messages come, and the channel ends after \<open>Close\<close> was called, sooner or later or never.
\<close>

section \<open>The state\<close>

text \<open>Where each goroutine is.  The loop: at the channel, in the call of \<open>h\<close>, or past \<open>close(done)\<close>.  The closer: not
  started, in \<open>ps.Close()\<close>, at \<open><-done\<close>, or past \<open>stopped <- err\<close>, which has room for it.  A caller:
  at \<open>once.Do\<close>, at the \<open>select\<close>, or back.\<close>

datatype loop = AtChannel | InHandler Event | LoopDone

datatype closer = NoCloser | InClose | AtDone | CloserDone

datatype once = OnceFresh | OnceBusy | OnceDone

datatype caller = AtOnce | AtSelect | Back

text \<open>\<open>sb_x\<close> is the state the handler works on, \<open>sb_ended\<close> says that \<open>messages\<close> is closed, and \<open>sb_late\<close> that
  \<open>time.After\<close> has fired.\<close>

record 'x subscription =
  sb_handler :: "Event \<Rightarrow> 'x \<Rightarrow> 'x"
  sb_x :: 'x
  sb_messages :: "bytes list"
  sb_ended :: bool
  sb_loop :: loop
  sb_once :: once
  sb_closer :: closer
  sb_late :: bool
  sb_callers :: "caller list"

text \<open>\<open>Subscribe\<close>: the errors of the client are ignored, so only a nil handler makes it fail.\<close>

definition rb_Subscribe :: "(Event \<Rightarrow> 'x \<Rightarrow> 'x) option \<Rightarrow> 'x \<Rightarrow> 'x subscription result" where
  "rb_Subscribe h x =
     (case h of None \<Rightarrow> Inl (errors_New ''redisstore: nil handler'')
      | Some h \<Rightarrow> Inr \<lparr>sb_handler = h, sb_x = x, sb_messages = [], sb_ended = False, sb_loop = AtChannel,
          sb_once = OnceFresh, sb_closer = NoCloser, sb_late = False, sb_callers = []\<rparr>)"

section \<open>The steps\<close>

text \<open>The client puts a message into the channel, or ends it; a goroutine calls \<open>unsubscribe\<close>; the rest are the
  steps of the code, a caller named by its place in the order of the calls.\<close>

datatype sub_action =
    Arrive bytes
  | EndChannel
  | Take
  | Handle
  | EndLoop
  | CallUnsubscribe
  | EnterOnce nat
  | CloseReturns
  | SeeDone
  | TimeAfter
  | SelectStopped nat
  | SelectLate nat
  | SkipOnce nat

inductive sub_step :: "'x subscription \<Rightarrow> sub_action \<Rightarrow> 'x subscription \<Rightarrow> bool" where
  arrive: "\<not> sb_ended s \<Longrightarrow> sub_step s (Arrive m) (s\<lparr>sb_messages := sb_messages s @ [m]\<rparr>)"
| end_channel: "sb_closer s \<noteq> NoCloser \<Longrightarrow> \<not> sb_ended s \<Longrightarrow> sub_step s EndChannel (s\<lparr>sb_ended := True\<rparr>)"
| take_malformed: "sb_loop s = AtChannel \<Longrightarrow> sb_messages s = m # ms \<Longrightarrow> bus_Decode m = Inl err \<Longrightarrow>
    sub_step s Take (s\<lparr>sb_messages := ms\<rparr>)"
| take: "sb_loop s = AtChannel \<Longrightarrow> sb_messages s = m # ms \<Longrightarrow> bus_Decode m = Inr e \<Longrightarrow>
    sub_step s Take (s\<lparr>sb_messages := ms, sb_loop := InHandler e\<rparr>)"
| handle: "sb_loop s = InHandler e \<Longrightarrow>
    sub_step s Handle (s\<lparr>sb_x := sb_handler s e (sb_x s), sb_loop := AtChannel\<rparr>)"
| end_loop: "sb_loop s = AtChannel \<Longrightarrow> sb_messages s = [] \<Longrightarrow> sb_ended s \<Longrightarrow>
    sub_step s EndLoop (s\<lparr>sb_loop := LoopDone\<rparr>)"
| call: "sub_step s CallUnsubscribe (s\<lparr>sb_callers := sb_callers s @ [AtOnce]\<rparr>)"
| enter_once: "i < length (sb_callers s) \<Longrightarrow> sb_callers s ! i = AtOnce \<Longrightarrow> sb_once s = OnceFresh \<Longrightarrow>
    sub_step s (EnterOnce i) (s\<lparr>sb_once := OnceBusy, sb_closer := InClose, sb_callers := (sb_callers s)[i := AtSelect]\<rparr>)"
| close_returns: "sb_closer s = InClose \<Longrightarrow> sub_step s CloseReturns (s\<lparr>sb_closer := AtDone\<rparr>)"
| see_done: "sb_closer s = AtDone \<Longrightarrow> sb_loop s = LoopDone \<Longrightarrow> sub_step s SeeDone (s\<lparr>sb_closer := CloserDone\<rparr>)"
| time_after: "sb_once s \<noteq> OnceFresh \<Longrightarrow> \<not> sb_late s \<Longrightarrow> sub_step s TimeAfter (s\<lparr>sb_late := True\<rparr>)"
| select_stopped: "i < length (sb_callers s) \<Longrightarrow> sb_callers s ! i = AtSelect \<Longrightarrow> sb_closer s = CloserDone \<Longrightarrow>
    sub_step s (SelectStopped i) (s\<lparr>sb_once := OnceDone, sb_callers := (sb_callers s)[i := Back]\<rparr>)"
| select_late: "i < length (sb_callers s) \<Longrightarrow> sb_callers s ! i = AtSelect \<Longrightarrow> sb_late s \<Longrightarrow>
    sub_step s (SelectLate i) (s\<lparr>sb_once := OnceDone, sb_callers := (sb_callers s)[i := Back]\<rparr>)"
| skip_once: "i < length (sb_callers s) \<Longrightarrow> sb_callers s ! i = AtOnce \<Longrightarrow> sb_once s = OnceDone \<Longrightarrow>
    sub_step s (SkipOnce i) (s\<lparr>sb_callers := (sb_callers s)[i := Back]\<rparr>)"

inductive_cases sub_stepE: "sub_step s a s'"

inductive sub_run :: "'x subscription \<Rightarrow> sub_action list \<Rightarrow> 'x subscription \<Rightarrow> bool" where
  run_Nil: "sub_run s [] s"
| run_Cons: "sub_step s a t \<Longrightarrow> sub_run t as u \<Longrightarrow> sub_run s (a # as) u"

inductive_cases run_ConsE: "sub_run s (a # as) u"
inductive_simps run_Nil_iff [simp]: "sub_run s [] u"

section \<open>The invariant\<close>

text \<open>How many callers are at the \<open>select\<close>: at most one, the one that runs the function of \<open>once\<close>.\<close>

definition selecting :: "'x subscription \<Rightarrow> nat" where
  "selecting s = count_list (sb_callers s) AtSelect"

definition sub_inv :: "'x subscription \<Rightarrow> bool" where
  "sub_inv s \<longleftrightarrow>
     (sb_once s = OnceFresh \<longrightarrow> sb_closer s = NoCloser \<and> \<not> sb_late s)
   \<and> (sb_once s \<noteq> OnceFresh \<longrightarrow> sb_closer s \<noteq> NoCloser)
   \<and> selecting s = (if sb_once s = OnceBusy then 1 else 0)
   \<and> (Back \<in> set (sb_callers s) \<longrightarrow> sb_once s = OnceDone)
   \<and> (sb_once s = OnceDone \<longrightarrow> sb_late s \<or> sb_closer s = CloserDone)
   \<and> (sb_closer s = CloserDone \<longrightarrow> sb_loop s = LoopDone)
   \<and> (sb_loop s = LoopDone \<longrightarrow> sb_ended s \<and> sb_messages s = [])
   \<and> (sb_ended s \<longrightarrow> sb_closer s \<noteq> NoCloser)"

lemma count_list_update:
  "i < length xs \<Longrightarrow> count_list (xs[i := y]) x + (if xs ! i = x then 1 else 0) = count_list xs x + (if y = x then 1 else 0)"
proof (induction xs arbitrary: i)
  case (Cons z zs)
  show ?case
  proof (cases i)
    case (Suc j)
    then show ?thesis using Cons.IH [of j] Cons.prems by (auto split: if_splits)
  qed simp
qed simp

lemma start_inv: "rb_Subscribe h x = Inr s \<Longrightarrow> sub_inv s"
  by (auto simp: rb_Subscribe_def sub_inv_def selecting_def split: option.splits)

lemma step_inv:
  assumes "sub_step s a s'" "sub_inv s"
  shows "sub_inv s'"
  using assms
proof cases
  case (enter_once i)
  then show ?thesis using assms(2) count_list_update [of i "sb_callers s" AtSelect AtSelect] set_update_subset_insert [of "sb_callers s" i AtSelect]
    by (auto simp: sub_inv_def selecting_def)
next
  case (select_stopped i)
  then show ?thesis using assms(2) count_list_update [of i "sb_callers s" Back AtSelect] by (auto simp: sub_inv_def selecting_def split: if_splits)
next
  case (select_late i)
  then show ?thesis using assms(2) count_list_update [of i "sb_callers s" Back AtSelect] by (auto simp: sub_inv_def selecting_def split: if_splits)
next
  case (skip_once i)
  then show ?thesis using assms(2) count_list_update [of i "sb_callers s" Back AtSelect] by (auto simp: sub_inv_def selecting_def split: if_splits)
qed (auto simp: sub_inv_def selecting_def)

lemma run_inv: "sub_run s as s' \<Longrightarrow> sub_inv s \<Longrightarrow> sub_inv s'"
  by (induction rule: sub_run.induct) (auto dest: step_inv)


section \<open>What the handler is given\<close>

text \<open>Encoded events are handed on, and malformed messages dropped.\<close>

lemma deliver_events:
  assumes "\<And>oe m. (oe, m) \<in> set ms \<Longrightarrow> (case oe of Some e \<Rightarrow> bus_Encode e = Inr m \<and> length m \<le> MaxMessageBytes
    | None \<Rightarrow> \<exists>err. bus_Decode m = Inl err)"
  shows "deliver h (map snd ms) st = fold h (List.map_filter fst ms) st"
  using assms
proof (induction ms arbitrary: st)
  case (Cons p ms)
  obtain oe m where p: "p = (oe, m)" by fastforce
  have "deliver h (map snd ms) st' = fold h (List.map_filter fst ms) st'" for st' using Cons by simp
  moreover have "case oe of Some e \<Rightarrow> bus_Decode m = Inr e | None \<Rightarrow> \<exists>err. bus_Decode m = Inl err"
    using Cons.prems [of oe m] p bus_Decode_iff by (auto split: option.splits)
  ultimately show ?case by (auto simp: deliver_def List.map_filter_def p split: option.splits)
qed (simp add: deliver_def List.map_filter_def)

text \<open>The messages that came, and what the loop still has to do with its own.\<close>

definition arrived :: "sub_action list \<Rightarrow> bytes list" where
  "arrived as = List.map_filter (\<lambda>a. case a of Arrive m \<Rightarrow> Some m | _ \<Rightarrow> None) as"

definition upcoming :: "'x subscription \<Rightarrow> 'x" where
  "upcoming s = (case sb_loop s of InHandler e \<Rightarrow> sb_handler s e (sb_x s) | _ \<Rightarrow> sb_x s)"

lemma upcoming_same [simp]:
  "upcoming (s\<lparr>sb_messages := ms\<rparr>) = upcoming s" "upcoming (s\<lparr>sb_ended := en\<rparr>) = upcoming s"
  "upcoming (s\<lparr>sb_once := on\<rparr>) = upcoming s" "upcoming (s\<lparr>sb_closer := cl\<rparr>) = upcoming s"
  "upcoming (s\<lparr>sb_late := la\<rparr>) = upcoming s" "upcoming (s\<lparr>sb_callers := cs\<rparr>) = upcoming s"
  by (cases "sb_loop s"; simp add: upcoming_def)+

lemma arrived_Cons: "arrived (a # as) = (case a of Arrive m \<Rightarrow> [m] | _ \<Rightarrow> []) @ arrived as"
  by (simp add: arrived_def List.map_filter_def split: sub_action.split)

lemma step_delivers:
  "sub_step s a s' \<Longrightarrow> sb_handler s' = sb_handler s
    \<and> (\<exists>ms. sb_messages s @ arrived [a] = ms @ sb_messages s' \<and> upcoming s' = deliver (sb_handler s) ms (upcoming s))"
proof (erule sub_stepE)
  fix m ms err assume "sb_messages s = m # ms" "bus_Decode m = Inl err" "s' = s\<lparr>sb_messages := ms\<rparr>" "a = Take"
  then show ?thesis by (intro conjI exI [of _ "[m]"]) (simp_all add: arrived_def List.map_filter_def deliver_def)
next
  fix m ms e assume "sb_loop s = AtChannel" "sb_messages s = m # ms" "bus_Decode m = Inr e" "a = Take"
    "s' = s\<lparr>sb_messages := ms, sb_loop := InHandler e\<rparr>"
  then show ?thesis
    by (intro conjI exI [of _ "[m]"]) (simp_all add: arrived_def List.map_filter_def deliver_def upcoming_def)
qed (rule conjI, simp, rule exI [of _ "[]"], simp add: arrived_def List.map_filter_def deliver_def upcoming_def split: loop.split)+

lemma run_delivers:
  "sub_run s as s' \<Longrightarrow> sb_handler s' = sb_handler s
    \<and> (\<exists>ms. sb_messages s @ arrived as = ms @ sb_messages s' \<and> upcoming s' = deliver (sb_handler s) ms (upcoming s))"
proof (induction rule: sub_run.induct)
  case (run_Nil s)
  show ?case by (intro conjI exI [of _ "[]"]) (simp_all add: arrived_def List.map_filter_def deliver_def)
next
  case (run_Cons s a t as u)
  obtain ms where ms: "sb_messages s @ arrived [a] = ms @ sb_messages t" "upcoming t = deliver (sb_handler s) ms (upcoming s)"
    "sb_handler t = sb_handler s" using step_delivers [OF run_Cons.hyps(1)] by blast
  obtain ns where ns: "sb_messages t @ arrived as = ns @ sb_messages u" "upcoming u = deliver (sb_handler t) ns (upcoming t)"
    "sb_handler u = sb_handler t" using run_Cons.IH by blast
  have "arrived (a # as) = arrived [a] @ arrived as" by (simp add: arrived_Cons [of a as] arrived_Cons [of a "[]"] arrived_def List.map_filter_def)
  then have "sb_messages s @ arrived (a # as) = (ms @ ns) @ sb_messages u" using ms(1) ns(1)
    by (metis append.assoc)
  moreover have "upcoming u = deliver (sb_handler s) (ms @ ns) (upcoming s)" using ms ns by (simp add: deliver_def)
  ultimately show ?case using ms(3) ns(3) by (intro conjI exI [of _ "ms @ ns"]) simp_all
qed

section \<open>How long it can go on\<close>

text \<open>The steps that are not from outside, and how many of them a state can still make.\<close>

definition own :: "sub_action \<Rightarrow> bool" where
  "own a \<longleftrightarrow> (case a of Arrive m \<Rightarrow> False | CallUnsubscribe \<Rightarrow> False | _ \<Rightarrow> True)"

definition sub_fuel :: "'x subscription \<Rightarrow> nat" where
  "sub_fuel s = 2 * length (sb_messages s)
     + (case sb_loop s of AtChannel \<Rightarrow> 1 | InHandler e \<Rightarrow> 2 | LoopDone \<Rightarrow> 0)
     + (case sb_closer s of NoCloser \<Rightarrow> 3 | InClose \<Rightarrow> 2 | AtDone \<Rightarrow> 1 | CloserDone \<Rightarrow> 0)
     + (if sb_ended s then 0 else 1) + (if sb_late s then 0 else 1)
     + 2 * count_list (sb_callers s) AtOnce + count_list (sb_callers s) AtSelect"

lemma step_fuel: "sub_step s a s' \<Longrightarrow> sub_inv s \<Longrightarrow> own a \<Longrightarrow> sub_fuel s' < sub_fuel s"
proof (erule sub_stepE)
  fix i assume "sub_inv s" "i < length (sb_callers s)" "sb_callers s ! i = AtOnce" "sb_once s = OnceFresh"
    "s' = s\<lparr>sb_once := OnceBusy, sb_closer := InClose, sb_callers := (sb_callers s)[i := AtSelect]\<rparr>"
  then show "sub_fuel s' < sub_fuel s"
    using count_list_update [of i "sb_callers s" AtSelect AtSelect] count_list_update [of i "sb_callers s" AtSelect AtOnce]
    by (simp add: sub_fuel_def sub_inv_def)
next
  fix i assume "i < length (sb_callers s)" "sb_callers s ! i = AtSelect"
    "s' = s\<lparr>sb_once := OnceDone, sb_callers := (sb_callers s)[i := Back]\<rparr>"
  then show "sub_fuel s' < sub_fuel s" "sub_fuel s' < sub_fuel s"
    using count_list_update [of i "sb_callers s" Back AtSelect] count_list_update [of i "sb_callers s" Back AtOnce]
    by (simp_all add: sub_fuel_def)
next
  fix i assume "i < length (sb_callers s)" "sb_callers s ! i = AtOnce" "s' = s\<lparr>sb_callers := (sb_callers s)[i := Back]\<rparr>"
  then show "sub_fuel s' < sub_fuel s"
    using count_list_update [of i "sb_callers s" Back AtSelect] count_list_update [of i "sb_callers s" Back AtOnce]
    by (simp add: sub_fuel_def)
qed (auto simp: sub_fuel_def own_def)

lemma run_fuel: "sub_run s as s' \<Longrightarrow> sub_inv s \<Longrightarrow> list_all own as \<Longrightarrow> length as + sub_fuel s' \<le> sub_fuel s"
proof (induction rule: sub_run.induct)
  case (run_Cons s a t as u)
  then have "sub_fuel t < sub_fuel s" "length as + sub_fuel u \<le> sub_fuel t" using step_fuel step_inv by fastforce+
  then show ?case by simp
qed simp


text \<open>When nothing but a new message or a new call can happen, everything is over.\<close>

lemma stuck_over:
  assumes "sub_inv s" "sb_callers s \<noteq> []" and stuck: "\<And>a s'. own a \<Longrightarrow> sub_step s a s' \<Longrightarrow> False"
  shows "set (sb_callers s) = {Back} \<and> sb_loop s = LoopDone \<and> sb_closer s = CloserDone"
proof -
  have ne: "sb_closer s \<noteq> InClose" using stuck [OF _ close_returns] by (auto simp: own_def)
  have once: "sb_once s \<noteq> OnceFresh"
  proof
    assume f: "sb_once s = OnceFresh"
    have "sb_callers s ! 0 = AtOnce"
    proof (cases "sb_callers s ! 0")
      case AtSelect
      then have "count_list (sb_callers s) AtSelect \<noteq> 0" using assms(2) by (cases "sb_callers s") auto
      then show ?thesis using assms(1) f by (simp add: sub_inv_def selecting_def)
    next
      case Back
      then have "Back \<in> set (sb_callers s)" using assms(2) nth_mem [of 0 "sb_callers s"] by simp
      then show ?thesis using assms(1) f by (simp add: sub_inv_def)
    qed
    then show False using stuck [OF _ enter_once [of 0]] assms(2) f by (auto simp: own_def)
  qed
  then have ended: "sb_ended s" using stuck [OF _ end_channel] assms(1) by (auto simp: own_def sub_inv_def)
  have loop: "sb_loop s = LoopDone"
  proof (cases "sb_loop s")
    case AtChannel
    then show ?thesis
      using stuck [OF _ end_loop] stuck [OF _ take_malformed] stuck [OF _ take] ended
      by (cases "sb_messages s"; cases "bus_Decode (hd (sb_messages s))") (auto simp: own_def)
  next
    case (InHandler e)
    then show ?thesis using stuck [OF _ handle] by (auto simp: own_def)
  qed
  then have closer: "sb_closer s = CloserDone"
    using ne once assms(1) stuck [OF _ see_done] by (cases "sb_closer s") (auto simp: own_def sub_inv_def)
  have sel: "sb_callers s ! i \<noteq> AtSelect" if "i < length (sb_callers s)" for i
    using that stuck [OF _ select_stopped [of i]] closer by (auto simp: own_def)
  then have "AtSelect \<notin> set (sb_callers s)" by (metis in_set_conv_nth)
  then have "sb_once s = OnceDone" using assms(1) once by (cases "sb_once s") (auto simp: sub_inv_def selecting_def count_list_0_iff)
  then have "sb_callers s ! i \<noteq> AtOnce" if "i < length (sb_callers s)" for i
    using that stuck [OF _ skip_once [of i]] by (auto simp: own_def)
  then have "AtOnce \<notin> set (sb_callers s)" by (metis in_set_conv_nth)
  then have "x = Back" if "x \<in> set (sb_callers s)" for x
    using that \<open>AtSelect \<notin> set (sb_callers s)\<close> by (cases x) auto
  moreover obtain x where "x \<in> set (sb_callers s)" using assms(2) by (cases "sb_callers s") auto
  ultimately show ?thesis using loop closer by blast
qed

lemma step_calls: "sub_step s a s' \<Longrightarrow> sb_callers s \<noteq> [] \<Longrightarrow> sb_callers s' \<noteq> []"
  by (erule sub_stepE) auto

lemma run_calls: "sub_run s as s' \<Longrightarrow> sb_callers s \<noteq> [] \<Longrightarrow> sb_callers s' \<noteq> []"
  by (induction rule: sub_run.induct) (auto dest: step_calls)

section \<open>Properties\<close>

text \<open>C32. Once a call of \<open>unsubscribe\<close> has returned and the wait did not time out, the handler is never called
  again, whatever the client, the goroutine of the subscription and other callers still do; so also for a call
  that was not the first.\<close>

theorem unsubscribe_stops_handler:
  assumes "rb_Subscribe h x = Inr s0" "sub_run s0 as s" "Back \<in> set (sb_callers s)" "\<not> sb_late s" "sub_run s bs s'"
  shows "sb_x s' = sb_x s \<and> sb_loop s' = LoopDone"
proof -
  have i: "sub_inv s" by (rule run_inv [OF assms(2) start_inv [OF assms(1)]])
  then have "sb_loop s = LoopDone" using assms(3,4) by (simp add: sub_inv_def)
  moreover have "sb_loop s = LoopDone \<Longrightarrow> sb_x s' = sb_x s \<and> sb_loop s' = LoopDone"
    using assms(5)
  proof (induction rule: sub_run.induct)
    case (run_Cons s a t as u)
    have "sb_x t = sb_x s \<and> sb_loop t = LoopDone"
      by (rule sub_stepE [OF run_Cons.hyps(1)]) (simp_all add: run_Cons.prems)
    then show ?case using run_Cons.IH by simp
  qed simp
  ultimately show ?thesis by simp
qed

text \<open>\<open>unsubscribe\<close> waits at most until \<open>time.After\<close> fires: from then on every call of it comes back in two
  steps of callers, with nothing needed from Redis, the handler or the goroutine that closes.\<close>

theorem unsubscribe_wait_bounded:
  assumes "rb_Subscribe h x = Inr s0" "sub_run s0 as s" "sb_late s" "i < length (sb_callers s)"
  shows "\<exists>bs s'. sub_run s bs s' \<and> sb_callers s' ! i = Back \<and> length bs \<le> 2
    \<and> set bs \<subseteq> range SelectLate \<union> range SkipOnce"
proof -
  have inv: "sub_inv s" by (rule run_inv [OF assms(2) start_inv [OF assms(1)]])
  have late: "\<exists>t. sub_step s (SelectLate j) t \<and> sb_once t = OnceDone \<and> sb_callers t = (sb_callers s)[j := Back]"
    if "j < length (sb_callers s)" "sb_callers s ! j = AtSelect" for j
    using select_late [OF that assms(3)] by force
  have skip: "\<exists>u. sub_step t (SkipOnce i) u \<and> sb_callers u ! i = Back"
    if "i < length (sb_callers t)" "sb_callers t ! i = AtOnce" "sb_once t = OnceDone" for t :: "'a subscription"
    using skip_once [OF that] that(1) by force
  show ?thesis
  proof (cases "sb_callers s ! i")
    case AtOnce
    show ?thesis
    proof (cases "sb_once s")
      case OnceFresh
      then show ?thesis using inv assms(3) by (simp add: sub_inv_def)
    next
      case OnceBusy
      then have "count_list (sb_callers s) AtSelect \<noteq> 0" using inv by (simp add: sub_inv_def selecting_def)
      then obtain j where j: "j < length (sb_callers s)" "sb_callers s ! j = AtSelect"
        by (metis count_list_0_iff in_set_conv_nth)
      obtain t where t: "sub_step s (SelectLate j) t" "sb_once t = OnceDone" "sb_callers t = (sb_callers s)[j := Back]"
        using late [OF j] by blast
      have "i \<noteq> j" using j(2) AtOnce by auto
      then obtain u where "sub_step t (SkipOnce i) u" "sb_callers u ! i = Back"
        using skip [of t] t(2,3) assms(4) AtOnce by auto
      then show ?thesis using t(1) by (intro exI [of _ "[SelectLate j, SkipOnce i]"] exI [of _ u]) (auto intro: sub_run.intros)
    next
      case OnceDone
      then obtain u where "sub_step s (SkipOnce i) u" "sb_callers u ! i = Back" using skip [OF assms(4) AtOnce] by blast
      then show ?thesis by (intro exI [of _ "[SkipOnce i]"] exI [of _ u]) (auto intro: sub_run.intros)
    qed
  next
    case AtSelect
    then obtain t where "sub_step s (SelectLate i) t" "sb_callers t ! i = Back" using late [OF assms(4)] assms(4) by auto
    then show ?thesis by (intro exI [of _ "[SelectLate i]"] exI [of _ t]) (auto intro: sub_run.intros)
  next
    case Back
    then show ?thesis by (intro exI [of _ "[]"] exI [of _ s]) simp
  qed
qed


text \<open>C33. After a call of \<open>unsubscribe\<close> everything comes to an end: if no message and no call is added, no run is
  longer than \<open>sub_fuel\<close>, and until every call is back, the goroutine of the subscription is done and the
  goroutine that closes is done, there is a step to make.\<close>

theorem unsubscribe_leaves_nothing:
  assumes "rb_Subscribe h x = Inr s0" "sub_run s0 as s" "sb_callers s \<noteq> []" "sub_run s bs s'" "list_all own bs"
  shows "length bs \<le> sub_fuel s
    \<and> (set (sb_callers s') = {Back} \<and> sb_loop s' = LoopDone \<and> sb_closer s' = CloserDone \<or> (\<exists>a t. own a \<and> sub_step s' a t))"
proof -
  have inv: "sub_inv s" by (rule run_inv [OF assms(2) start_inv [OF assms(1)]])
  have "sub_inv s'" "sb_callers s' \<noteq> []" by (rule run_inv [OF assms(4) inv], rule run_calls [OF assms(4,3)])
  then show ?thesis using run_fuel [OF assms(4) inv assms(5)] stuck_over [of s'] by auto
qed

text \<open>C34. Whatever messages came, the handler has been given the well-formed events among them, each once and in their
  order, up to those still in the channel: a malformed message is dropped and the subscription goes on.\<close>

theorem subscription_delivers:
  assumes "rb_Subscribe (Some h) x = Inr s0" "sub_run s0 as s" "arrived as = map snd ms"
    and "\<And>oe m. (oe, m) \<in> set ms \<Longrightarrow> (case oe of Some e \<Rightarrow> bus_Encode e = Inr m \<and> length m \<le> MaxMessageBytes
      | None \<Rightarrow> \<exists>err. bus_Decode m = Inl err)"
  shows "\<exists>us vs. ms = us @ vs \<and> sb_messages s = map snd vs \<and> upcoming s = fold h (List.map_filter fst us) x"
proof -
  obtain ns where ns: "arrived as = ns @ sb_messages s" "upcoming s = deliver h ns x"
    using run_delivers [OF assms(2)] assms(1) by (auto simp: rb_Subscribe_def upcoming_def)
  define us vs where "us = take (length ns) ms" and "vs = drop (length ns) ms"
  have "map snd us = ns" "map snd vs = sb_messages s" "ms = us @ vs"
    using ns(1) assms(3) by (simp_all add: us_def vs_def take_map [symmetric] drop_map [symmetric])
  moreover have "deliver h (map snd us) x = fold h (List.map_filter fst us) x"
    by (rule deliver_events) (use assms(4) \<open>ms = us @ vs\<close> in simp)
  ultimately show ?thesis using ns(2) by metis
qed


section \<open>Witnesses\<close>

definition log_events :: "Event \<Rightarrow> Event list \<Rightarrow> Event list" where
  "log_events e es = es @ [e]"

definition demo_sub :: "Event list subscription" where
  "demo_sub = projr (rb_Subscribe (Some log_events) [])"

lemma demo_start: "rb_Subscribe (Some log_events) [] = Inr demo_sub"
  by (simp add: demo_sub_def rb_Subscribe_def)

lemmas demo_fields = demo_sub_def rb_Subscribe_def

text \<open>Two callers, and a client that ends the channel in time.\<close>

definition closed_sub :: "Event list subscription" where
  "closed_sub = demo_sub\<lparr>sb_callers := [Back, Back], sb_once := OnceDone, sb_closer := CloserDone, sb_ended := True,
     sb_loop := LoopDone\<rparr>"

definition called_sub :: "Event list subscription" where
  "called_sub = demo_sub\<lparr>sb_callers := [AtOnce, AtOnce]\<rparr>"

lemma demo_called: "sub_run demo_sub [CallUnsubscribe, CallUnsubscribe] called_sub"
proof -
  have "sub_run (demo_sub\<lparr>sb_callers := sb_callers demo_sub @ [AtOnce]\<rparr>) [CallUnsubscribe] called_sub"
    by (rule run_Cons [OF call]) (simp add: called_sub_def demo_fields)
  then show ?thesis by (rule run_Cons [OF call])
qed

lemma demo_closes: "sub_run called_sub [EnterOnce 0, EndChannel, EndLoop, CloseReturns, SeeDone, SelectStopped 0, SkipOnce 1] closed_sub"
  apply (rule run_Cons, rule enter_once, simp_all add: called_sub_def demo_fields)
  apply (rule run_Cons, rule end_channel, simp_all)
  apply (rule run_Cons, rule end_loop, simp_all)
  apply (rule run_Cons, rule close_returns, simp_all)
  apply (rule run_Cons, rule see_done, simp_all)
  apply (rule run_Cons, rule select_stopped, simp_all)
  apply (rule run_Cons, rule skip_once, simp_all)
  apply (simp add: closed_sub_def demo_fields)
  done

lemma run_append: "sub_run s as t \<Longrightarrow> sub_run t bs u \<Longrightarrow> sub_run s (as @ bs) u"
  by (induction rule: sub_run.induct) (auto intro: sub_run.intros)

theorem unsubscribe_stops_handler_witness:
  "sb_x (closed_sub\<lparr>sb_callers := [Back, Back, AtOnce]\<rparr>) = sb_x closed_sub
    \<and> sb_loop (closed_sub\<lparr>sb_callers := [Back, Back, AtOnce]\<rparr>) = LoopDone"
proof (rule unsubscribe_stops_handler [OF demo_start run_append [OF demo_called demo_closes]])
  show "sub_run closed_sub [CallUnsubscribe] (closed_sub\<lparr>sb_callers := [Back, Back, AtOnce]\<rparr>)"
    by (rule run_Cons, rule call) (simp add: closed_sub_def)
qed (simp_all add: closed_sub_def demo_fields)

theorem unsubscribe_leaves_nothing_witness:
  "length [EnterOnce 0, EndChannel, EndLoop, CloseReturns, SeeDone, SelectStopped 0, SkipOnce 1] \<le> sub_fuel called_sub
    \<and> (set (sb_callers closed_sub) = {Back} \<and> sb_loop closed_sub = LoopDone \<and> sb_closer closed_sub = CloserDone
       \<or> (\<exists>a t. own a \<and> sub_step closed_sub a t))"
  by (rule unsubscribe_leaves_nothing [OF demo_start demo_called _ demo_closes]) (simp_all add: called_sub_def own_def)

text \<open>One caller that waits for a client that does not answer, and one behind it.\<close>

definition late_sub :: "Event list subscription" where
  "late_sub = called_sub\<lparr>sb_callers := [AtSelect, AtOnce], sb_once := OnceBusy, sb_closer := InClose, sb_late := True\<rparr>"

lemma demo_late: "sub_run called_sub [EnterOnce 0, TimeAfter] late_sub"
  apply (rule run_Cons, rule enter_once, simp_all add: called_sub_def demo_fields)
  apply (rule run_Cons, rule time_after, simp_all)
  apply (simp add: late_sub_def called_sub_def demo_fields)
  done

theorem unsubscribe_wait_bounded_witness:
  "\<exists>bs s'. sub_run late_sub bs s' \<and> sb_callers s' ! 1 = Back \<and> length bs \<le> 2
    \<and> set bs \<subseteq> range SelectLate \<union> range SkipOnce"
  by (rule unsubscribe_wait_bounded [OF demo_start run_append [OF demo_called demo_late]]) (simp_all add: late_sub_def)

theorem subscription_delivers_witness:
  "\<exists>d us vs. bus_Encode invalidated_42 = Inr d \<and> [(None, []), (Some invalidated_42, d)] = us @ vs
    \<and> sb_messages (demo_sub\<lparr>sb_loop := InHandler invalidated_42\<rparr>) = map snd vs
    \<and> upcoming (demo_sub\<lparr>sb_loop := InHandler invalidated_42\<rparr>) = fold log_events (List.map_filter fst us) []"
proof -
  obtain d where d: "bus_Encode invalidated_42 = Inr d" "length d = 72" using invalidated_42_message by blast
  obtain err where m: "bus_Decode [] = Inl err"
    by (simp add: bus_Decode_def parse_wire_def parse_null_def json_null_def ascii_def bus_malformed_def)
  have dec: "bus_Decode d = Inr invalidated_42" using d bus_Decode_iff by (auto simp: MaxMessageBytes_def)
  have "sub_run demo_sub [Arrive [], Take, Arrive d, Take] (demo_sub\<lparr>sb_loop := InHandler invalidated_42\<rparr>)"
    apply (rule run_Cons, rule arrive, simp add: demo_fields)
    apply (rule run_Cons, rule take_malformed [OF _ _ m], simp_all add: demo_fields)
    apply (rule run_Cons, rule arrive, simp_all)
    apply (rule run_Cons, rule take [OF _ _ dec], simp_all)
    done
  then have "\<exists>us vs. [(None, []), (Some invalidated_42, d)] = us @ vs
      \<and> sb_messages (demo_sub\<lparr>sb_loop := InHandler invalidated_42\<rparr>) = map snd vs
      \<and> upcoming (demo_sub\<lparr>sb_loop := InHandler invalidated_42\<rparr>) = fold log_events (List.map_filter fst us) []"
    by (rule subscription_delivers [OF demo_start]) (use d m in \<open>auto simp: arrived_def List.map_filter_def MaxMessageBytes_def\<close>)
  then show ?thesis using d(1) by blast
qed

end
