(* ===== verification/TimedStores.thy ===== *)
theory TimedStores
  imports TwoLevels
begin

text \<open>
  A store whose entries have expiry times on a clock of its own: the contract of \<open>StoreLaws\<close> with the
  sentence of \<open>store.go\<close> that \<open>Set\<close> stores a value \<open>for at most ttl\<close>.  The in-process store keeps it when its
  clock never goes back.
\<close>

section \<open>The contract\<close>

locale timed_store = store_laws S ok may
  for S :: "'x Store" and ok :: "'x \<Rightarrow> bool" and may :: "'x \<Rightarrow> string \<Rightarrow> bytes option" +
  fixes due :: "'x \<Rightarrow> string \<Rightarrow> (bytes \<times> time) option" and clock :: "'x \<Rightarrow> time"
  assumes get_due: "ok x \<Longrightarrow> fst (st_Get S ctx k x) = Inr (Some v) \<Longrightarrow> \<exists>t. due x k = Some (v, t) \<and> clock x < t"
    and due_get: "ok x \<Longrightarrow> due (snd (st_Get S ctx k x)) j = Some e \<Longrightarrow> due x j = Some e"
    and due_del: "ok x \<Longrightarrow> due (snd (st_Delete S ctx k x)) j = Some e \<Longrightarrow> due x j = Some e"
    and due_set: "ok x \<Longrightarrow> due (snd (st_Set S ctx k v ttl x)) j = Some (u, t) \<Longrightarrow>
      due x j = Some (u, t) \<or> j = k \<and> u = v \<and> t \<le> clock x + ttl"
    and clock_moves: "ok x \<Longrightarrow> clock x \<le> clock (snd (st_Get S ctx k x))"
      "ok x \<Longrightarrow> clock x \<le> clock (snd (st_Set S ctx k v ttl x))"
      "ok x \<Longrightarrow> clock x \<le> clock (snd (st_Delete S ctx k x))"
begin

text \<open>No entry outlives \<open>T\<close> from now.\<close>

definition young :: "duration \<Rightarrow> 'x \<Rightarrow> bool" where
  "young T x \<longleftrightarrow> ok x \<and> (\<forall>k v t. due x k = Some (v, t) \<longrightarrow> t \<le> clock x + T)"

text \<open>What the key \<open>k\<close> holds, apart from the data in \<open>D\<close>, is gone by the time \<open>X\<close>.\<close>

definition fades :: "string \<Rightarrow> bytes set \<Rightarrow> time \<Rightarrow> 'x \<Rightarrow> bool" where
  "fades k D X x \<longleftrightarrow> ok x \<and> (\<forall>v t. due x k = Some (v, t) \<longrightarrow> v \<in> D \<or> t \<le> X)"

definition since :: "time \<Rightarrow> 'x \<Rightarrow> bool" where
  "since X x \<longleftrightarrow> ok x \<and> X \<le> clock x"

lemma ok_keeps: "store_keeps S ok (\<lambda>_ _ _. True)"
  by (simp add: store_keeps_def get_ok set_ok del_ok)

lemma young_keeps: "store_keeps S (young T) (\<lambda>_ _ ttl. ttl \<le> T)"
proof -
  have get: "young T (snd (st_Get S ctx k x))" if "young T x" for ctx k x
    using that due_get clock_moves(1) [of x ctx k] unfolding young_def by (smt (verit) get_ok)
  have del: "young T (snd (st_Delete S ctx k x))" if "young T x" for ctx k x
    using that due_del clock_moves(3) [of x ctx k] unfolding young_def by (smt (verit) del_ok)
  have set: "young T (snd (st_Set S ctx k v ttl x))" if x: "young T x" and ttl: "ttl \<le> T" for ctx k v ttl x
  proof -
    have ok: "ok x" using x by (simp add: young_def)
    have "t \<le> clock (snd (st_Set S ctx k v ttl x)) + T" if "due (snd (st_Set S ctx k v ttl x)) j = Some (u, t)" for j u t
      using due_set [OF ok that] x ttl clock_moves(2) [OF ok, of ctx k v ttl] unfolding young_def by fastforce
    then show ?thesis using set_ok [OF ok] by (simp add: young_def)
  qed
  show ?thesis using get del set by (simp add: store_keeps_def)
qed

lemma fades_keeps: "store_keeps S (fades k D X) (\<lambda>j v _. j = k \<longrightarrow> v \<in> D)"
proof -
  have get: "fades k D X (snd (st_Get S ctx j x))" if "fades k D X x" for ctx j x
    using that by (auto simp: fades_def get_ok dest: due_get)
  have del: "fades k D X (snd (st_Delete S ctx j x))" if "fades k D X x" for ctx j x
    using that by (auto simp: fades_def del_ok dest: due_del)
  have set: "fades k D X (snd (st_Set S ctx j v ttl x))" if "fades k D X x" "j = k \<longrightarrow> v \<in> D" for ctx j v ttl x
    using that by (auto simp: fades_def set_ok dest: due_set)
  show ?thesis using get del set by (simp add: store_keeps_def)
qed

lemma since_keeps: "store_keeps S (since X) (\<lambda>_ _ _. True)"
  unfolding store_keeps_def since_def using clock_moves get_ok set_ok del_ok by (auto intro: order_trans)

lemma young_fades: "young T x \<Longrightarrow> fades k D (clock x + T) x"
  by (auto simp: young_def fades_def)

lemma fades_hits: "hits S (\<lambda>x. fades k D X x \<and> since X x) k \<subseteq> D"
  by (force simp: hits_def fades_def since_def dest: get_due)

end

lemma store_keeps_conj:
  "store_keeps S P W \<Longrightarrow> store_keeps S P' W' \<Longrightarrow> store_keeps S (\<lambda>x. P x \<and> P' x) (\<lambda>k v t. W k v t \<and> W' k v t)"
  by (simp add: store_keeps_def)

section \<open>The in-process store\<close>

definition mem_due :: "store \<Rightarrow> string \<Rightarrow> (bytes \<times> time) option" where
  "mem_due s k = map_of (mem_list s) k"

definition mem_time :: "store \<Rightarrow> time" where
  "mem_time s = m_clock s (m_tick s)"

text \<open>A reachable store whose clock never goes back.\<close>

definition mem_forward :: "store \<Rightarrow> bool" where
  "mem_forward s \<longleftrightarrow> mem_ok s \<and> mono (m_clock s)"

definition lru_time :: "lru \<Rightarrow> time" where
  "lru_time l = l_clock l (l_tick l)"

lemma lru_same [simp]:
  "l_clock (lru_report l) = l_clock l" "l_tick (lru_report l) = l_tick l" "l_es (lru_report l) = l_es l"
  "l_clock (lru_note e n l) = l_clock l" "l_tick (lru_note e n l) = l_tick l" "l_es (lru_note e n l) = l_es l"
  by (simp_all add: lru_report_def lru_note_def)

lemma lru_put_due:
  "l_clock (lru_put (k, v, x) l) = l_clock l \<and> l_tick (lru_put (k, v, x) l) = l_tick l
    \<and> (map_of (l_es (lru_put (k, v, x) l)) j = Some e \<longrightarrow> map_of (l_es l) j = Some e \<or> j = k \<and> e = (v, x))"
  by (auto simp: lru_put_def Let_def dest!: map_of_trim split: if_splits)

lemma lru_Get_due:
  "l_clock (snd (lru_Get ce k l)) = l_clock l \<and> l_tick l \<le> l_tick (snd (lru_Get ce k l))
    \<and> (map_of (l_es (snd (lru_Get ce k l))) j = Some e \<longrightarrow> map_of (l_es l) j = Some e)
    \<and> (fst (lru_Get ce k l) = Inr (Some v) \<longrightarrow> (\<exists>x. map_of (l_es l) k = Some (v, x) \<and> lru_time l < x))"
  by (cases ce) (auto simp: lru_Get_def lru_get_def lru_now_def lru_time_def split_beta split: option.splits if_splits)

lemma lru_Set_due:
  "l_clock (snd (lru_Set ce k v ttl l)) = l_clock l \<and> l_tick l \<le> l_tick (snd (lru_Set ce k v ttl l))
    \<and> (map_of (l_es (snd (lru_Set ce k v ttl l))) j = Some e \<longrightarrow>
         map_of (l_es l) j = Some e \<or> j = k \<and> e = (v, lru_time l + ttl))"
  using lru_put_due [of k v "lru_time l + ttl" "l\<lparr>l_tick := Suc (l_tick l)\<rparr>" j e]
  by (cases ce) (auto simp: lru_Set_def lru_now_def lru_time_def)

lemma lru_Delete_due:
  "l_clock (snd (lru_Delete ce k l)) = l_clock l \<and> l_tick l \<le> l_tick (snd (lru_Delete ce k l))
    \<and> (map_of (l_es (snd (lru_Delete ce k l))) j = Some e \<longrightarrow> map_of (l_es l) j = Some e)"
  by (cases ce) (auto simp: lru_Delete_def split: if_splits)

lemma mem_view: "rel s l \<Longrightarrow> mem_due s = map_of (l_es l) \<and> mem_time s = lru_time l \<and> m_clock s = l_clock l"
  using mem_list_rel [of s l] by (auto simp: mem_due_def mem_time_def lru_time_def rel_def same_env_def)

interpretation mem_timed: timed_store "mem_Store ce" mem_forward mem_may mem_due mem_time for ce
proof -
  have step: "mem_forward y \<and> mem_time x \<le> mem_time y \<and> (\<forall>j e. mem_due y j = Some e \<longrightarrow> mem_due x j = Some e \<or> P j e)"
    if "mem_forward x" "rel x l" "rel y m" "l_clock m = l_clock l \<and> l_tick l \<le> l_tick m"
      "\<And>j e. map_of (l_es m) j = Some e \<Longrightarrow> map_of (l_es l) j = Some e \<or> P j e" for x y l m P
    using that mem_view [of x l] mem_view [of y m]
    by (auto simp: mem_forward_def mem_ok_def lru_time_def mono_def)
  show "timed_store (mem_Store ce) mem_forward mem_may mem_due mem_time" for ce
  proof (unfold_locales)
    fix x ctx k
    assume x: "mem_forward x"
    then obtain l where R: "rel x l" by (auto simp: mem_forward_def mem_ok_def)
    note g = mem_Get_go [OF R] and s = mem_Set_go [OF R] and d = mem_Delete_go [OF R]
    have st: "st_Get (mem_Store ce) ctx k x = go (mem_Get (ce ctx) k x) (Inl nil_panic) x"
      "st_Delete (mem_Store ce) ctx k x = go (mem_Delete (ce ctx) k x) (Some nil_panic) x"
      "\<And>v ttl. st_Set (mem_Store ce) ctx k v ttl x = go (mem_Set (ce ctx) k v ttl x) (Some nil_panic) x"
      by (simp_all add: mem_Store_def)
    have get: "mem_forward (snd (st_Get (mem_Store ce) ctx k x)) \<and> mem_time x \<le> mem_time (snd (st_Get (mem_Store ce) ctx k x))
        \<and> (\<forall>j e. mem_due (snd (st_Get (mem_Store ce) ctx k x)) j = Some e \<longrightarrow> mem_due x j = Some e \<or> False)"
      unfolding st by (rule step [OF x R conjunct2 [OF g]]) (use lru_Get_due [of "ce ctx" k l] in blast)+
    have del: "mem_forward (snd (st_Delete (mem_Store ce) ctx k x)) \<and> mem_time x \<le> mem_time (snd (st_Delete (mem_Store ce) ctx k x))
        \<and> (\<forall>j e. mem_due (snd (st_Delete (mem_Store ce) ctx k x)) j = Some e \<longrightarrow> mem_due x j = Some e \<or> False)"
      unfolding st by (rule step [OF x R conjunct2 [OF d]]) (use lru_Delete_due [of "ce ctx" k l] in blast)+
    have set: "mem_forward (snd (st_Set (mem_Store ce) ctx k v ttl x)) \<and> mem_time x \<le> mem_time (snd (st_Set (mem_Store ce) ctx k v ttl x))
        \<and> (\<forall>j e. mem_due (snd (st_Set (mem_Store ce) ctx k v ttl x)) j = Some e \<longrightarrow>
             mem_due x j = Some e \<or> j = k \<and> e = (v, lru_time l + ttl))" for v ttl
      unfolding st by (rule step [OF x R conjunct2 [OF s]]) (use lru_Set_due [of "ce ctx" k v ttl l] in blast)+
    note view = mem_view [OF R]
    show "mem_forward (snd (st_Get (mem_Store ce) ctx k x))" "mem_time x \<le> mem_time (snd (st_Get (mem_Store ce) ctx k x))"
      "mem_forward (snd (st_Delete (mem_Store ce) ctx k x))" "mem_time x \<le> mem_time (snd (st_Delete (mem_Store ce) ctx k x))"
      using get del by blast+
    show "mem_forward (snd (st_Set (mem_Store ce) ctx k v ttl x))" "mem_time x \<le> mem_time (snd (st_Set (mem_Store ce) ctx k v ttl x))" for v ttl
      using set by blast+
    show "mem_due x j = Some e" if "mem_due (snd (st_Get (mem_Store ce) ctx k x)) j = Some e" for j e using get that by blast
    show "mem_due x j = Some e" if "mem_due (snd (st_Delete (mem_Store ce) ctx k x)) j = Some e" for j e using del that by blast
    show "mem_due x j = Some (u, t) \<or> j = k \<and> u = v \<and> t \<le> mem_time x + ttl"
      if "mem_due (snd (st_Set (mem_Store ce) ctx k v ttl x)) j = Some (u, t)" for j u v t ttl using set that view by fastforce
    show "\<exists>t. mem_due x k = Some (v, t) \<and> mem_time x < t" if "fst (st_Get (mem_Store ce) ctx k x) = Inr (Some v)" for v
      using lru_Get_due [of "ce ctx" k l] that view g unfolding st by auto
  qed (use mem.get_may mem.get_keeps mem.set_other mem.set_fail mem.set_done mem.del_keeps mem.del_done
      in \<open>auto simp: mem_forward_def\<close>)
qed

end
