(* ===== verification/Fleet.thy ===== *)
theory Fleet
  imports TwoLevelRuns TimedStores CacheEvents
begin

text \<open>
  Several replicas of one program: each with a cache of the same configuration and a level L1 of its own,
  all sharing L2 and joined by a bus (ADR-0006).  A call of one replica and the delivery of one event to
  another are single steps; the bus delivers late, in the order of publication, or not at all.  What a
  write at one replica means for the reads of the others: at once where the event has arrived, and within
  the lifetime of L1 where it was lost.
\<close>

section \<open>The system\<close>

text \<open>A bus that puts what it publishes into the outbox of the calling replica, if \<open>pub\<close> lets it.\<close>

definition channel :: "(ctx \<Rightarrow> Event \<Rightarrow> 'e \<Rightarrow> error option \<times> 'e) \<Rightarrow> ('e \<times> Event list) Bus" where
  "channel pub = \<lparr>
     b_Publish = (\<lambda>ctx ev (e, out). case pub ctx ev e of
         (None, e) \<Rightarrow> (None, e, out @ [ev])
       | (Some err, e) \<Rightarrow> (Some err, e, out)),
     b_Subscribe = (\<lambda>x. (Inr 0, x)), b_Unsubscribe = (\<lambda>_ x. x)\<rparr>"

text \<open>Each replica has its clock and contexts, its L1, its local generations, its trace of hook calls, and the
  events on their way to it.\<close>

record ('e, 'a, 'b) fleet =
  fl_env :: "nat \<Rightarrow> 'e"
  fl_l1 :: "nat \<Rightarrow> 'a"
  fl_l2 :: 'b
  fl_gens :: "nat \<Rightarrow> genCache"
  fl_trace :: "nat \<Rightarrow> hook_event list"
  fl_queue :: "nat \<Rightarrow> Event list"

type_synonym ('e, 'a, 'b) replica_world = "('e \<times> Event list, 'a, 'b) outside world"

text \<open>The world of replica \<open>i\<close>, with an empty outbox, and what becomes of the fleet when the replica is done:
  the events in its outbox are on their way to all.\<close>

definition enter :: "nat \<Rightarrow> ('e, 'a, 'b) fleet \<Rightarrow> ('e, 'a, 'b) replica_world" where
  "enter i F = \<lparr>w_ext = ((fl_env F i, []), fl_l1 F i, fl_l2 F), w_gens = fl_gens F i, w_trace = fl_trace F i\<rparr>"

definition leave :: "nat \<Rightarrow> ('e, 'a, 'b) replica_world \<Rightarrow> ('e, 'a, 'b) fleet \<Rightarrow> ('e, 'a, 'b) fleet" where
  "leave i w F = (case w_ext w of ((e, out), a, b) \<Rightarrow>
     \<lparr>fl_env = (fl_env F)(i := e), fl_l1 = (fl_l1 F)(i := a), fl_l2 = b, fl_gens = (fl_gens F)(i := w_gens w),
      fl_trace = (fl_trace F)(i := w_trace w), fl_queue = (\<lambda>j. fl_queue F j @ out)\<rparr>)"

datatype ('x, 'k, 'v) fstep = FCall nat "('x, 'k, 'v) call" | FDeliver nat | FLose nat

fun fleet_step :: "(('e \<times> Event list, 'a, 'b) outside, 'k, 'v) cache
    \<Rightarrow> (('e \<times> Event list, 'a, 'b) outside, 'k, 'v) fstep \<Rightarrow> ('e, 'a, 'b) fleet \<Rightarrow> ('e, 'a, 'b) fleet" where
  "fleet_step c (FCall i call) F = leave i (cache_call c call (enter i F)) F"
| "fleet_step c (FDeliver i) F =
     (case fl_queue F i of [] \<Rightarrow> F
      | ev # evs \<Rightarrow> leave i (cache_call c (CEvent ev) (enter i F)) (F\<lparr>fl_queue := (fl_queue F)(i := evs)\<rparr>))"
| "fleet_step c (FLose i) F = F\<lparr>fl_queue := (fl_queue F)(i := tl (fl_queue F i))\<rparr>"

definition fleet_steps :: "(('e \<times> Event list, 'a, 'b) outside, 'k, 'v) cache
    \<Rightarrow> (('e \<times> Event list, 'a, 'b) outside, 'k, 'v) fstep list \<Rightarrow> ('e, 'a, 'b) fleet \<Rightarrow> ('e, 'a, 'b) fleet" where
  "fleet_steps c fs F = fold (fleet_step c) fs F"

fun step_writes :: "(('e, 'a, 'b) outside, 'k, 'v) cache \<Rightarrow> (string \<Rightarrow> bool) \<Rightarrow> (('e, 'a, 'b) outside, 'k, 'v) fstep \<Rightarrow> bool" where
  "step_writes c K (FCall i call) = writes_within c K call"
| "step_writes c K _ = True"

text \<open>How many events the steps deliver to replica \<open>j\<close>.\<close>

definition delivered :: "nat \<Rightarrow> ('x, 'k, 'v) fstep list \<Rightarrow> nat" where
  "delivered j fs = length (filter (\<lambda>s. s = FDeliver j) fs)"

lemma enter_levels [simp]:
  "snd (w_ext (enter i F)) = (fl_l1 F i, fl_l2 F)" "fl_l2 (leave i w F) = snd (snd (w_ext w))"
  "fl_l1 (leave i w F) = (fl_l1 F)(i := fst (snd (w_ext w)))"
  "fl_queue (leave i w F) j = fl_queue F j @ snd (fst (w_ext w))"
  by (simp_all add: enter_def leave_def split_beta)

section \<open>The locale\<close>

locale fleet = two_levels S1 ok1 may1 S2 ok2 may2 c rt + t1: timed_store S1 ok1 may1 due clock
  for S1 :: "'a Store" and ok1 may1 and S2 :: "'b Store" and ok2 may2
    and c :: "(('e \<times> Event list, 'a, 'b) outside, 'k, 'v) cache" and rt due clock +
  fixes pub :: "ctx \<Rightarrow> Event \<Rightarrow> 'e \<Rightarrow> error option \<times> 'e"
  assumes channel: "ca_bus c = Some (bus_env (channel pub))"
begin

text \<open>A property of every L1 and of L2, and how the steps keep it.\<close>

definition every :: "(nat \<Rightarrow> 'a \<Rightarrow> bool) \<Rightarrow> ('b \<Rightarrow> bool) \<Rightarrow> ('e, 'a, 'b) fleet \<Rightarrow> bool" where
  "every P Q F \<longleftrightarrow> (\<forall>i. P i (fl_l1 F i)) \<and> Q (fl_l2 F)"

lemma every_enter: "every P Q F \<Longrightarrow> levels (P i) Q (enter i F)"
  by (simp add: every_def levels_def inner_def)

lemma every_leave: "every P Q F \<Longrightarrow> levels (P i) Q w \<Longrightarrow> every P Q (leave i w F)"
  by (simp add: every_def levels_def inner_def)

lemma every_queue [simp]: "every P Q (F\<lparr>fl_queue := q\<rparr>) = every P Q F" "enter i (F\<lparr>fl_queue := q\<rparr>) = enter i F"
  by (simp_all add: every_def enter_def)

lemma every_step:
  assumes g: "\<And>i. guards (P i) Q W V" and K: "\<And>pk. K pk \<Longrightarrow> writable W V pk"
    and s: "step_writes c K s" and F: "every P Q F"
  shows "every P Q (fleet_step c s F)"
proof (cases s)
  case (FCall i call)
  then show ?thesis using every_leave [OF F keeps_call [OF g K _ every_enter [OF F]]] s by simp
next
  case (FDeliver i)
  have "levels (P i) Q (cache_call c (CEvent ev) (enter i F))" for ev
    by (rule keeps_call [OF g K _ every_enter [OF F], where K = K]) simp_all
  then show ?thesis using FDeliver F by (auto intro!: every_leave split: list.split)
qed (use F in simp)

lemma every_steps:
  assumes g: "\<And>i. guards (P i) Q W V" and K: "\<And>pk. K pk \<Longrightarrow> writable W V pk"
  shows "\<forall>s \<in> set fs. step_writes c K s \<Longrightarrow> every P Q F \<Longrightarrow> every P Q (fleet_steps c fs F)"
proof (induction fs arbitrary: F)
  case (Cons s fs)
  have "every P Q (fleet_step c s F)"
    by (rule every_step [where K = K, OF g K]) (use Cons.prems in simp_all)
  then show ?case using Cons by (simp add: fleet_steps_def)
qed (simp add: fleet_steps_def)

section \<open>Delivery\<close>

abbreviation event_of :: "string \<Rightarrow> Event" where
  "event_of pk \<equiv> \<lparr>Namespace = namespace c, ev_Kind = KindKey, Name = pk\<rparr>"

lemma publish_queues:
  "wp (publish c ctx kind name) (\<lambda>r w'. r = None \<longrightarrow>
     \<lparr>Namespace = namespace c, ev_Kind = kind, Name = name\<rparr> \<in> set (snd (fst (w_ext w')))) w"
  by (cases "w_ext w"; cases "fst (w_ext w)")
    (auto simp: publish_def channel wp_simps bus_env_def at_env_def apsnd_def map_prod_def channel_def split: prod.splits option.splits)

lemma Delete_publishes:
  "wp (cache_Delete c ctx k) (\<lambda>r w'. r = None \<longrightarrow> (\<exists>s. slotFor c k = Inr s \<and> event_of (sl_pk s) \<in> set (snd (fst (w_ext w'))))) w"
proof -
  have rest: "wp (do {
         e1 \<leftarrow> ext (st_Delete (on_l1 S1) ctx (sl_pk s));
         e2 \<leftarrow> ext (st_Delete (on_l2 S2) ctx (sl_pk s));
         e3 \<leftarrow> publish c ctx KindKey (sl_pk s);
         let err = errors_Join [e1, e2, e3];
         _ \<leftarrow> (if err = None then onInvalidate c ctx (sl_key s) '''' False else State_Monad.return ());
         State_Monad.return err }) (\<lambda>r w'. r = None \<longrightarrow> event_of (sl_pk s) \<in> set (snd (fst (w_ext w')))) w" for s w
    unfolding wp_bind wp_ext
    by (rule wp_mono [OF publish_queues])
      (auto simp: Let_def wp_simps onInvalidate_def errors_Join_None_iff)
  show ?thesis unfolding cache_Delete_def l1 l2 option.case ctxErr_def wp_bind [of "ext _"] wp_ext
    by (cases "fst (rt_Err (ca_rt c) ctx (w_ext w))"; cases "slotFor c k") (simp_all add: wp_return rest)
qed

text \<open>The event of a physical key empties the key from the L1 of the replica that gets it.\<close>

lemma Event_empties:
  assumes s: "slotFor c k = Inr s" and del: "\<And>a. ok1 a \<Longrightarrow> fst (st_Delete S1 event_ctx (sl_pk s) a) = None"
    and J: "levels ok1 (l2.confined (sl_pk s) {}) w"
  shows "holdings (sl_pk s) {} (cache_call c (CEvent (event_of (sl_pk s))) w)"
proof -
  obtain p where "physicalKey c k = Inr (sl_pk s)" using s by (auto simp: slotFor_def untagged split: sum.splits)
  then have key: "\<exists>key. eventKey c (sl_pk s) = (key, True)" by (simp add: eventKey_physicalKey)
  obtain e a b where w: "w_ext w = (e, a, b)" by (cases "w_ext w")
  have a: "ok1 a" "l2.confined (sl_pk s) {} b" using J by (simp_all add: levels_def inner_def w)
  have "wp (onEvent c (event_of (sl_pk s))) (\<lambda>_. holdings (sl_pk s) {}) w"
    using key a del l1.confined_deleted [OF a(1) del [OF a(1)]]
    by (auto simp: onEvent_def l1 Let_def wp_bind on_l1_def wp_l1 w event_ctx_def [symmetric] onInvalidate_def wp_call_hook
        holdings_def levels_def inner_def)
  then show ?thesis by (simp add: wp_run)
qed

text \<open>What replica \<open>j\<close> may still hold after the key was deleted: nothing, or the event is among the first \<open>m\<close> on
  their way to it.\<close>

definition awaits :: "string \<Rightarrow> nat \<Rightarrow> nat \<Rightarrow> ('e, 'a, 'b) fleet \<Rightarrow> bool" where
  "awaits pk j m F \<longleftrightarrow> every (\<lambda>_. ok1) (l2.confined pk {}) F
     \<and> (l1.confined pk {} (fl_l1 F j) \<or> event_of pk \<in> set (take m (fl_queue F j)))"

lemma guards_ok: "guards ok1 (l2.confined pk {}) (\<lambda>j v _. True) (other pk {})"
  by (simp add: guards_def confined_keeps t1.ok_keeps)

lemma guards_one: "guards (l1.confined pk {}) (l2.confined pk {}) (\<lambda>j v _. other pk {} j v) (other pk {})"
  by (rule guards_holdings)

lemma writable_ok: "pk' \<noteq> pk \<Longrightarrow> writable (\<lambda>j v _. True) (other pk {}) pk'"
  by (simp add: writable_def other_def)

lemma awaits_leave:
  assumes F: "awaits pk j m F" and w: "levels ok1 (l2.confined pk {}) w"
    and one: "i = j \<Longrightarrow> l1.confined pk {} (fl_l1 F j) \<Longrightarrow> holdings pk {} w"
  shows "awaits pk j m (leave i w F)"
proof -
  have "every (\<lambda>_. ok1) (l2.confined pk {}) (leave i w F)" using F w by (intro every_leave) (simp_all add: awaits_def)
  moreover have "event_of pk \<in> set (take m (fl_queue (leave i w F) j))" if "event_of pk \<in> set (take m (fl_queue F j))"
    using that by simp
  moreover have "l1.confined pk {} (fl_l1 (leave i w F) j)" if "l1.confined pk {} (fl_l1 F j)"
    using that one by (cases "i = j") (simp_all add: holdings_def levels_def inner_def)
  ultimately show ?thesis using F by (auto simp: awaits_def)
qed

lemma awaits_call:
  assumes F: "awaits pk j m F" and call: "writes_within c (\<lambda>p. p \<noteq> pk) call"
  shows "levels ok1 (l2.confined pk {}) (cache_call c call (enter i F))"
    and "l1.confined pk {} (fl_l1 F i) \<Longrightarrow> holdings pk {} (cache_call c call (enter i F))"
proof -
  have e: "every (\<lambda>_. ok1) (l2.confined pk {}) F" using F by (simp add: awaits_def)
  show "levels ok1 (l2.confined pk {}) (cache_call c call (enter i F))"
    by (rule keeps_call [OF guards_ok writable_ok call every_enter [OF e]])
  assume "l1.confined pk {} (fl_l1 F i)"
  then have h: "levels (l1.confined pk {}) (l2.confined pk {}) (enter i F)" using e by (simp add: every_def levels_def inner_def)
  show "holdings pk {} (cache_call c call (enter i F))"
    unfolding holdings_def by (rule keeps_call [OF guards_one writable_other call h])
qed

lemma awaits_step:
  assumes F: "awaits pk j m F" and s: "slotFor c k = Inr sl" "sl_pk sl = pk"
    and del: "\<And>a. ok1 a \<Longrightarrow> fst (st_Delete S1 event_ctx pk a) = None"
    and step: "step_writes c (\<lambda>p. p \<noteq> pk) st" "st \<noteq> FLose j"
  shows "awaits pk j (m - delivered j [st]) (fleet_step c st F)"
proof (cases st)
  case (FCall i call)
  then have "writes_within c (\<lambda>p. p \<noteq> pk) call" using step by simp
  note a = awaits_call [OF F this, of i]
  have "i = j \<Longrightarrow> l1.confined pk {} (fl_l1 F j) \<Longrightarrow> holdings pk {} (cache_call c call (enter i F))" using a(2) by blast
  from awaits_leave [OF F a(1) this] show ?thesis using FCall by (simp add: delivered_def)
next
  case (FDeliver i)
  show ?thesis
  proof (cases "fl_queue F i")
    case Nil
    then show ?thesis using F FDeliver by (auto simp: awaits_def delivered_def)
  next
    case (Cons ev evs)
    let ?F = "F\<lparr>fl_queue := (fl_queue F)(i := evs)\<rparr>" and ?w = "cache_call c (CEvent ev) (enter i F)"
    have "writes_within c (\<lambda>p. p \<noteq> pk) (CEvent ev)" by simp
    note a = awaits_call [OF F this, of i]
    have st: "fleet_step c st F = leave i ?w ?F" using FDeliver Cons by simp
    show ?thesis
    proof (cases "i = j")
      case False
      then have "awaits pk j m ?F" using F by (simp add: awaits_def every_def)
      then show ?thesis using awaits_leave [of pk j m ?F ?w i] a(1) False FDeliver unfolding st by (simp add: delivered_def)
    next
      case True
      have now: "l1.confined pk {} (fl_l1 F j) \<Longrightarrow> holdings pk {} ?w" using a(2) True by simp
      have ev: "ev = event_of pk \<Longrightarrow> holdings pk {} ?w"
        using Event_empties [OF s(1), of "enter i F"] del s(2) every_enter [of "\<lambda>_. ok1"] F by (simp add: awaits_def)
      have "l1.confined pk {} (fl_l1 (leave i ?w ?F) j) \<or> event_of pk \<in> set (take (m - 1) (fl_queue (leave i ?w ?F) j))"
      proof (cases "l1.confined pk {} (fl_l1 F j) \<or> ev = event_of pk")
        case True
        then show ?thesis using now ev \<open>i = j\<close> by (auto simp: holdings_def levels_def inner_def)
      next
        case False
        then have "event_of pk \<in> set (take (m - 1) evs)" using F Cons \<open>i = j\<close> by (cases m) (auto simp: awaits_def)
        then show ?thesis using \<open>i = j\<close> by auto
      qed
      moreover have "every (\<lambda>_. ok1) (l2.confined pk {}) (leave i ?w ?F)" using F a(1) by (intro every_leave) (simp_all add: awaits_def)
      ultimately show ?thesis using True FDeliver unfolding st by (simp add: awaits_def delivered_def)
    qed
  qed
next
  case (FLose i)
  then show ?thesis using F step(2) by (simp add: awaits_def delivered_def every_def)
qed

lemma awaits_steps:
  assumes s: "slotFor c k = Inr sl" "sl_pk sl = pk"
    and del: "\<And>a. ok1 a \<Longrightarrow> fst (st_Delete S1 event_ctx pk a) = None"
  shows "\<forall>st \<in> set fs. step_writes c (\<lambda>p. p \<noteq> pk) st \<Longrightarrow> FLose j \<notin> set fs \<Longrightarrow> awaits pk j m F \<Longrightarrow>
    awaits pk j (m - delivered j fs) (fleet_steps c fs F)"
proof (induction fs arbitrary: F m)
  case (Cons st fs)
  have "awaits pk j (m - delivered j [st]) (fleet_step c st F)"
    by (rule awaits_step [OF Cons.prems(3) s del]) (use Cons.prems in auto)
  from Cons.IH [OF _ _ this] Cons.prems show ?case
    by (auto simp: fleet_steps_def delivered_def)
qed (simp add: fleet_steps_def delivered_def)

lemma Delete_delivered:
  assumes F: "every (\<lambda>_. ok1) ok2 F" and run: "run_state (cache_Delete c ctx k) (enter i F) = (None, w)"
    and s: "slotFor c k = Inr sl" and del: "\<And>a. ok1 a \<Longrightarrow> fst (st_Delete S1 event_ctx (sl_pk sl) a) = None"
    and fs: "\<forall>st \<in> set fs. step_writes c (\<lambda>p. p \<noteq> sl_pk sl) st" "FLose j \<notin> set fs"
    and all: "length (fl_queue (leave i w F) j) \<le> delivered j fs"
  defines "F' \<equiv> fleet_steps c fs (leave i w F)"
  shows "fst (run_state (Get c ctx' k) (enter j F')) = Inr None
    \<or> (\<exists>e. fst (run_state (Get c ctx' k) (enter j F')) = Inl e \<and> ctx_error c ctx' e)"
proof -
  let ?F = "leave i w F" and ?pk = "sl_pk sl"
  have ok: "inner (\<lambda>x. ok1 (fst x) \<and> ok2 (snd x)) (enter i F)" using F by (simp add: every_def inner_def)
  have h: "holdings ?pk {} w" using Delete_empties [OF ok, of ctx k] run s by (auto simp: wp_def)
  have q: "event_of ?pk \<in> set (snd (fst (w_ext w)))" using Delete_publishes [of ctx k "enter i F"] run s by (auto simp: wp_def)
  have "every (\<lambda>_. ok1) (l2.confined ?pk {}) ?F"
    using F h by (auto simp: every_def holdings_def levels_def inner_def l1.confined_def l2.confined_def)
  then have "awaits ?pk j (length (fl_queue ?F j)) ?F" using q by (simp add: awaits_def)
  from awaits_steps [OF s refl del fs this] have "awaits ?pk j 0 F'" using all by (simp add: F'_def)
  then have "holdings ?pk {} (enter j F')" by (simp add: awaits_def holdings_def levels_def inner_def every_def)
  from holdings_Get [OF s this, of ctx'] show ?thesis by (auto simp: answer_def)
qed

section \<open>Bounded staleness\<close>

text \<open>Lifetimes short enough that rounding does not lengthen them, and draws in range: then no write to L1 outlives
  the lifetime of L1.\<close>

definition short_lived :: bool where
  "short_lived \<longleftrightarrow> 1 \<le> ca_l1TTL c \<and> ca_l1TTL c < 2 ^ 53 \<and> 0 \<le> ca_jitter c \<and> ca_jitter c < 1
     \<and> (\<forall>e. 0 \<le> fst (rt_Float64 rt e) \<and> fst (rt_Float64 rt e) < 1)"

lemma writable_young: "short_lived \<Longrightarrow> writable (\<lambda>_ _ ttl. ttl \<le> ca_l1TTL c) (\<lambda>_ _. True) pk"
  unfolding writable_def
proof (intro conjI allI impI)
  fix v :: bytes and ttl :: duration and e :: "'e \<times> Event list"
  let ?f = "fl (1 - fl (ca_jitter c * fst (rt_Float64 rt e)))"
  assume s: short_lived and ttl: "0 < ttl"
  then have "0 \<le> ca_jitter c" "ca_jitter c < 1" "0 \<le> fst (rt_Float64 rt e)" "fst (rt_Float64 rt e) < 1"
    unfolding short_lived_def by blast+
  from scale_range [OF this] have f: "0 \<le> ?f" "?f \<le> 1" by blast+
  have "scaled (rt_trunc (ca_rt c)) (min ttl (ca_l1TTL c)) ?f \<le> min ttl (ca_l1TTL c)"
    using s f ttl by (intro scaled_le) (auto simp: short_lived_def)
  then show "scaled (rt_trunc (ca_rt c)) (min ttl (ca_l1TTL c)) ?f \<le> ca_l1TTL c" by simp
qed simp

lemma guards_young: "guards (t1.young (ca_l1TTL c)) ok2 (\<lambda>_ _ ttl. ttl \<le> ca_l1TTL c) (\<lambda>_ _. True)"
proof -
  have "store_keeps S2 ok2 (\<lambda>_ _ _. True)" by (simp add: store_keeps_def l2.get_ok l2.set_ok l2.del_ok)
  then show ?thesis by (simp add: guards_def t1.young_keeps)
qed

text \<open>After a write at one replica: L2 has nothing but \<open>D\<close>, and what the L1 of replica \<open>i\<close> has beside it is gone by \<open>X i\<close>.\<close>

definition settles :: "string \<Rightarrow> bytes set \<Rightarrow> (nat \<Rightarrow> time) \<Rightarrow> ('e, 'a, 'b) fleet \<Rightarrow> bool" where
  "settles pk D X = every (\<lambda>i. t1.fades pk D (X i)) (l2.confined pk D)"

lemma guards_settles: "guards (t1.fades pk D t) (l2.confined pk D) (\<lambda>j v _. other pk D j v) (other pk D)"
  unfolding guards_def
proof (intro conjI confined_keeps allI ballI impI)
  show "store_keeps S1 (t1.fades pk D t) (\<lambda>j v _. other pk D j v)" using t1.fades_keeps [of pk D t] by (simp add: other_def)
  fix j v assume "v \<in> hits S2 (l2.confined pk D) j"
  then show "other pk D j v" using confined_hits(2) [of pk D] by (auto simp: other_def)
qed

lemma settles_steps:
  assumes "\<forall>st \<in> set fs. step_writes c (\<lambda>p. p \<noteq> pk) st" "settles pk D X F"
  shows "settles pk D X (fleet_steps c fs F)"
  using assms unfolding settles_def
  by (intro every_steps [where K = "\<lambda>p. p \<noteq> pk", OF guards_settles writable_other])

lemma settled_Get:
  assumes F: "settles pk D X F" and s: "slotFor c k = Inr s" "sl_pk s = pk" and t: "X j \<le> clock (fl_l1 F j)"
  shows "answer ctx D (fst (run_state (Get c ctx k) (enter j F)))"
proof -
  let ?P = "\<lambda>x. t1.fades pk D (X j) x \<and> t1.since (X j) x"
  have g: "guards ?P (l2.confined pk D) (\<lambda>j v _. other pk D j v \<and> True) (other pk D)"
    using store_keeps_conj [OF guards_settles [of pk D "X j", unfolded guards_def, THEN conjunct1] t1.since_keeps [of "X j"]]
      guards_settles [of pk D "X j"] by (simp add: guards_def)
  have "t1.since (X j) (fl_l1 F j)" using F t by (simp add: settles_def every_def t1.since_def t1.fades_def)
  then have "levels ?P (l2.confined pk D) (enter j F)" using F by (simp add: settles_def every_def levels_def inner_def)
  then show ?thesis
    using t1.fades_hits [of pk D "X j"] confined_hits(2) [of pk D] s(2) by (intro read_Get [OF g s(1)]) simp_all
qed

lemma written_settles:
  assumes young: "every (\<lambda>_. t1.young (ca_l1TTL c)) ok2 F" "levels (t1.young (ca_l1TTL c)) ok2 w"
    and h: "holdings pk D w"
  shows "settles pk D (\<lambda>j. clock (fl_l1 (leave i w F) j) + ca_l1TTL c) (leave i w F)"
proof -
  have y: "every (\<lambda>_. t1.young (ca_l1TTL c)) ok2 (leave i w F)" by (rule every_leave [OF young])
  have "l2.confined pk D (fl_l2 (leave i w F))" using h by (simp add: holdings_def levels_def inner_def)
  then show ?thesis using y t1.young_fades by (simp add: settles_def every_def)
qed

text \<open>A fleet whose levels are in states of their stores, no entry of an L1 outliving its lifetime: so it starts, and
  so it stays.\<close>

definition sound :: "('e, 'a, 'b) fleet \<Rightarrow> bool" where
  "sound = every (\<lambda>_. t1.young (ca_l1TTL c)) ok2"

lemma sound_start: "(\<And>i. ok1 (fl_l1 F i) \<and> due (fl_l1 F i) = Map.empty) \<Longrightarrow> ok2 (fl_l2 F) \<Longrightarrow> sound F"
  by (simp add: sound_def every_def t1.young_def)

lemma sound_steps:
  assumes "short_lived" "\<forall>st \<in> set fs. step_writes c (\<lambda>_. True) st" "sound F"
  shows "sound (fleet_steps c fs F)"
  using assms unfolding sound_def by (intro every_steps [where K = "\<lambda>_. True", OF guards_young writable_young])

lemma stale_bounded:
  assumes short: short_lived and F: "sound F" and s: "slotFor c k = Inr sl"
    and run: "run_state (if gone then cache_Delete c ctx k else cache_Set c ctx k v opts) (enter i F) = (None, w)"
    and codec: "\<And>p. cd_Marshal (ca_codec c) v = Inr p \<Longrightarrow> cd_Unmarshal (ca_codec c) p = Inr v"
    and fs: "\<forall>st \<in> set fs. step_writes c (\<lambda>p. p \<noteq> sl_pk sl) st"
  defines "F1 \<equiv> leave i w F"
  defines "F2 \<equiv> fleet_steps c fs F1"
  assumes late: "clock (fl_l1 F1 j) + ca_l1TTL c \<le> clock (fl_l1 F2 j)"
  shows "fst (run_state (Get c ctx' k) (enter j F2)) \<in> (if gone then {Inr None} else {Inr (Some v), Inr None})
    \<or> (\<exists>e. fst (run_state (Get c ctx' k) (enter j F2)) = Inl e \<and> ctx_error c ctx' e)"
proof -
  have ok: "inner (\<lambda>x. ok1 (fst x) \<and> ok2 (snd x)) (enter i F)"
    using F by (simp add: sound_def every_def inner_def t1.young_def)
  have y: "levels (t1.young (ca_l1TTL c)) ok2 w"
  proof -
    let ?call = "if gone then CDelete ctx k else CSet ctx k v opts"
    have "w = cache_call c ?call (enter i F)" using run by (cases gone) simp_all
    then show ?thesis
      using keeps_call [OF guards_young writable_young [OF short], where K = "\<lambda>_. True" and call = ?call]
        every_enter [OF F [unfolded sound_def]] by (cases gone) simp_all
  qed
  obtain D where D: "holdings (sl_pk sl) D w" "\<And>r. answer ctx' D r \<Longrightarrow>
      r \<in> (if gone then {Inr None} else {Inr (Some v), Inr None}) \<or> (\<exists>e. r = Inl e \<and> ctx_error c ctx' e)"
  proof (cases gone)
    case True
    have "holdings (sl_pk sl) {} w" using Delete_empties [OF ok, of ctx k] run s True by (auto simp: wp_def)
    then show thesis using that True by (auto simp: answer_def)
  next
    case False
    obtain payload x dat where p: "cd_Marshal (ca_codec c) v = Inr payload" "int (length payload) \<le> ca_maxValue c"
      "Encode \<lparr>Absent = False, Expires = x, Codec = ca_codecID c, Gens = [], Payload = payload\<rparr> = Inr dat"
      "holdings (sl_pk sl) {dat} w"
      using Set_fills [OF ok, of ctx k v opts] run s False by (auto simp: wp_def)
    have "gives c e r \<Longrightarrow> r = Inr (Some v)" if "usable c dat e" for e r
      using that Decode_Encode [OF p(3), of "ca_maxValue c"] p(2) codec [OF p(1)] by (auto simp: usable_def gives_def)
    then show thesis using that [OF p(4)] False by (auto simp: answer_def)
  qed
  have "settles (sl_pk sl) D (\<lambda>j. clock (fl_l1 F1 j) + ca_l1TTL c) F2"
    unfolding F2_def F1_def
    by (rule settles_steps [OF fs written_settles [OF F [unfolded sound_def] y D(1)]])
  then have "answer ctx' D (fst (run_state (Get c ctx' k) (enter j F2)))" by (rule settled_Get [OF _ s refl]) (rule late)
  then show ?thesis by (rule D(2))
qed

end

end
