(* ===== verification/FleetRedis.thy ===== *)
theory FleetRedis
  imports Fleet RedisCache
begin

text \<open>
  The fleet as it is deployed: an in-process store as the L1 of every replica and one Redis as the L2 of all.
  The locale of \<open>Fleet\<close> holds for any two levels that keep their contracts; here it is used for these.
\<close>

section \<open>The interpretations\<close>

interpretation mem_fleet: fleet "mem_Store ce1" mem_forward mem_may "mem_Store ce2" mem_ok mem_may
    "memory_levels ce1 ce2 rt (Some (channel pub)) c" rt mem_due mem_time pub
  for ce1 ce2 pub and rt :: "('e \<times> Event list) runtime" and c :: "(('e \<times> Event list, store, store) outside, 'k, 'v) cache"
  by (intro fleet.intro two_levels.intro two_levels_axioms.intro fleet_axioms.intro mem_timed.timed_store_axioms
      mem_timed.store_laws_axioms mem.store_laws_axioms) (auto simp: memory_levels_def)

text \<open>The configuration all replicas share.\<close>

definition deployed :: "(ctx \<Rightarrow> error option) \<Rightarrow> 'b rstore \<Rightarrow> ('b \<Rightarrow> bytes option \<times> 'b) \<Rightarrow> ('e \<times> Event list) runtime
    \<Rightarrow> (ctx \<Rightarrow> Event \<Rightarrow> 'e \<Rightarrow> error option \<times> 'e) \<Rightarrow> (('e \<times> Event list, store, 'b) outside, 'k, 'v) cache \<Rightarrow> bool" where
  "deployed ce s rnd rt pub c \<longleftrightarrow>
     ca_l1 c = Some (on_l1 (mem_Store ce)) \<and> ca_l2 c = Some (on_l2 (redis_Store rnd s))
     \<and> ca_rt c = rt_env rt \<and> ca_tagsFn c = None \<and> ca_bus c = Some (bus_env (channel pub))"

lemma deployed_fleet:
  assumes "deployed ce s rnd rt pub c" "redis_store C ok may G" "rs_client s = Some C" "rs_guard s = Some G"
  shows "fleet (mem_Store ce) mem_forward mem_may (redis_Store rnd s) ok may c rt mem_due mem_time pub"
  using assms(1) redis_store.is_store [OF assms(2), of rnd "rs_timeout s"] guarded_is [OF assms(3,4,2)]
  by (intro fleet.intro two_levels.intro two_levels_axioms.intro fleet_axioms.intro mem_timed.timed_store_axioms
      mem_timed.store_laws_axioms) (auto simp: deployed_def)

section \<open>Properties\<close>


text \<open>A fleet as it starts: every L1 just built, on a clock that does not go back.\<close>

definition just_built :: "('e, store, 'b) fleet \<Rightarrow> bool" where
  "just_built F \<longleftrightarrow> (\<forall>i. \<exists>clk r opts. mem_New clk r opts = Inr (fl_l1 F i) \<and> mono clk)"

lemma New_forward: "mem_New clk r opts = Inr s \<Longrightarrow> mono clk \<Longrightarrow> mem_forward s \<and> mem_due s = Map.empty"
  using New_rel [of clk r opts s] by (auto simp: mem_forward_def mem_ok_def lru_New_def dest: mem_view)

text \<open>C7. A lost event costs at most one lifetime of L1 (RNF-11).  Whatever the fleet did before, and whatever events
  are lost, delayed or forged after: once the L1 of replica \<open>j\<close> is \<open>ca_l1TTL\<close> past the moment a \<open>Set\<close> or
  \<open>Delete\<close> returned at replica \<open>i\<close>, a \<open>Get\<close> at \<open>j\<close> gives the new value or misses, never an older value, until
  the key is written again.\<close>

theorem staleness_is_bounded:
  assumes "deployed ce s rnd rt pub c" "redis_store C ok may G" "rs_client s = Some C" "rs_guard s = Some G"
    and "1 \<le> ca_l1TTL c" "ca_l1TTL c < 2 ^ 53" "0 \<le> ca_jitter c" "ca_jitter c < 1"
    and "\<And>e. 0 \<le> fst (rt_Float64 rt e) \<and> fst (rt_Float64 rt e) < 1"
    and "just_built F0" "ok (fl_l2 F0)" "\<forall>st \<in> set before. step_writes c (\<lambda>_. True) st" "F = fleet_steps c before F0"
    and "run_state (if gone then cache_Delete c ctx k else cache_Set c ctx k v opts) (enter i F) = (None, w)"
    and "slotFor c k = Inr sl" "\<And>p. cd_Marshal (ca_codec c) v = Inr p \<Longrightarrow> cd_Unmarshal (ca_codec c) p = Inr v"
    and "\<forall>st \<in> set fs. step_writes c (\<lambda>p. p \<noteq> sl_pk sl) st" "F' = fleet_steps c fs (leave i w F)"
    and "mem_time (fl_l1 (leave i w F) j) + ca_l1TTL c \<le> mem_time (fl_l1 F' j)"
  shows "fst (run_state (Get c ctx' k) (enter j F')) \<in> (if gone then {Inr None} else {Inr (Some v), Inr None})
    \<or> (\<exists>e. fst (run_state (Get c ctx' k) (enter j F')) = Inl e \<and> ctx_error c ctx' e)"
proof -
  note f = deployed_fleet [OF assms(1-4)]
  have short: "fleet.short_lived c rt" using assms(5-9) by (simp add: fleet.short_lived_def [OF f])
  have "mem_forward (fl_l1 F0 i) \<and> mem_due (fl_l1 F0 i) = Map.empty" for i
    using assms(10) New_forward unfolding just_built_def by blast
  from fleet.sound_steps [OF f short assms(12) fleet.sound_start [OF f this assms(11)]]
  show ?thesis
    using assms(13-19) fleet.stale_bounded [OF f short _ assms(15,14,16,17) assms(19) [unfolded assms(18)]] by simp
qed

section \<open>Witnesses\<close>

definition fleet_rt :: "(unit \<times> Event list) runtime" where
  "fleet_rt = \<lparr>rt_Err = (\<lambda>_ e. (None, e)), rt_Now = (\<lambda>e. (1000, e)), rt_Float64 = (\<lambda>e. (0, e)),
     rt_trunc = min_int64, rt_flight = (\<lambda>_ _ _ e. (Lead, e))\<rparr>"

definition open_channel :: "ctx \<Rightarrow> Event \<Rightarrow> unit \<Rightarrow> error option \<times> unit" where
  "open_channel ctx ev e = (None, e)"

text \<open>A store whose clock gains 100 with every reading.\<close>

definition ticking_store :: store where
  "ticking_store = projr (mem_New (\<lambda>n. 100 * int n) (\<lambda>_. None) [])"

definition replicas :: "(unit, store, redis) fleet" where
  "replicas = \<lparr>fl_env = (\<lambda>_. ()), fl_l1 = (\<lambda>_. ticking_store), fl_l2 = \<lparr>rd_keys = [], rd_now = 0, rd_up = True\<rparr>,
     fl_gens = (\<lambda>_. newGenCache 0), fl_trace = (\<lambda>_. []), fl_queue = (\<lambda>_. [])\<rparr>"

definition fleet_cache :: "((unit \<times> Event list, store, redis) outside, string, bytes) cache" where
  "fleet_cache = projr (fst (run_state (New (rt_env fleet_rt) demo_type raw ''tasks'' (Some (\<lambda>k. k))
     [WithL1 (Some (on_l1 (mem_Store (\<lambda>_. None)))), WithL2 (Some (on_l2 (redis_Store rd_rnd demo_redis))),
      WithTTL 60, WithBus (Some (bus_env (channel open_channel)))]) (enter 0 replicas)))"

lemma fleet_fields:
  "ca_l1 fleet_cache = Some (on_l1 (mem_Store (\<lambda>_. None)))"
  "ca_l2 fleet_cache = Some (on_l2 (redis_Store rd_rnd demo_redis))"
  "ca_rt fleet_cache = rt_env fleet_rt" "ca_tagsFn fleet_cache = None" "ca_bus fleet_cache = Some (bus_env (channel open_channel))"
  "ca_hooks fleet_cache = no_hooks" "ca_codec fleet_cache = raw" "ca_codecID fleet_cache = ''raw''" "key_fn fleet_cache = (\<lambda>k. k)"
  "ca_type fleet_cache = demo_type" "ca_ttl fleet_cache = 60" "ca_l1TTL fleet_cache = 60" "ca_jitter fleet_cache = 0"
  "ca_maxValue fleet_cache = DefaultMaxValueBytes"
  "namespace fleet_cache = ''tasks''" "prefix fleet_cache = ''cistern:v1:tasks:-:''" "hashKeys fleet_cache = False"
  by (simp_all add: fleet_cache_def New_def Let_def default_config_def WithL1_def WithL2_def WithTTL_def WithBus_def
      validate_def tasks_namespace math_IsNaN_def f64_neg_def f64_ge1_def DefaultMaxValueBytes_def raw_def
      uncacheableType_def demo_type_def floatOf_def State_Monad.return_def State_Monad.bind_def ext_def
      bus_env_def channel_def at_env_def enter_def)

lemma fleet_deployed: "deployed (\<lambda>_. None) demo_redis rd_rnd fleet_rt open_channel fleet_cache"
  by (simp add: deployed_def fleet_fields)

lemma ticking_New: "mem_New (\<lambda>n. 100 * int n) (\<lambda>_. None) [] = Inr ticking_store"
  by (simp add: ticking_store_def mem_New_def DefaultMaxEntries_def DefaultMaxBytes_def Let_def)

lemma ticking_mono: "mono (\<lambda>n. 100 * int n)"
  by (simp add: mono_def)

lemma replicas_fields [simp]: "fl_l1 replicas i = ticking_store" "fl_queue replicas i = []"
  by (simp_all add: replicas_def)

lemma ticking_ok: "mem_forward ticking_store" "mem_ok ticking_store"
  using New_forward [OF ticking_New ticking_mono] by (simp_all add: mem_forward_def)

lemma fleet_slot: "slotFor fleet_cache ''user:42''
    = Inr \<lparr>sl_key = ''user:42'', sl_pk = ''cistern:v1:tasks:-:k:user:42'', sl_genKeys = []\<rparr>"
  "slotFor fleet_cache ''user:43''
    = Inr \<lparr>sl_key = ''user:43'', sl_pk = ''cistern:v1:tasks:-:k:user:43'', sl_genKeys = []\<rparr>"
proof -
  have "validateKey ''user:42'' = None" "validateKey ''user:43'' = None" by code_simp+
  then show "slotFor fleet_cache ''user:42''
      = Inr \<lparr>sl_key = ''user:42'', sl_pk = ''cistern:v1:tasks:-:k:user:42'', sl_genKeys = []\<rparr>"
    "slotFor fleet_cache ''user:43''
      = Inr \<lparr>sl_key = ''user:43'', sl_pk = ''cistern:v1:tasks:-:k:user:43'', sl_genKeys = []\<rparr>"
    by (simp_all add: slotFor_def physicalKey_def fleet_fields MaxKeyBytes_def)
qed

lemma wp_ctxErr_fleet: "wp (ctxErr fleet_cache ctx) Q w = Q None w"
  by (cases w) (simp add: ctxErr_def wp_ext fleet_fields rt_env_def at_env_def fleet_rt_def split: prod.splits)

lemma fleet_Delete:
  "wp (cache_Delete fleet_cache Background ''user:42'') (\<lambda>r w. r = None \<and> length (snd (fst (w_ext w))) = 1) (enter 0 replicas)"
  using mem_Delete_succeeds [OF ticking_ok(2), of "\<lambda>_. None" Background]
  by (simp add: cache_Delete_def wp_bind wp_ctxErr_fleet fleet_slot fleet_fields on_l1_def on_l2_def
      wp_l1 wp_l2 enter_def replicas_def publish_def wp_return errors_Join_def List.map_filter_def Let_def
      onInvalidate_def no_hooks_def wp_call_hook redis_Store_def rs_Delete_def rs_call_def on_client_def
      passGuard_Do_def rd_client_def wp_ext bus_env_def channel_def open_channel_def at_env_def)

text \<open>The fleet after the deletion at replica 0.\<close>

definition deleted_fleet :: "(unit, store, redis) fleet" where
  "deleted_fleet = leave 0 (snd (run_state (cache_Delete fleet_cache Background ''user:42'') (enter 0 replicas))) replicas"

lemma deleted_run: "run_state (cache_Delete fleet_cache Background ''user:42'') (enter 0 replicas)
    = (None, snd (run_state (cache_Delete fleet_cache Background ''user:42'') (enter 0 replicas)))"
  using fleet_Delete by (simp add: wp_run prod_eq_iff)


lemma mem_Set_ticks:
  assumes "mem_ok s" "ce ctx = None" "0 < ttl"
  shows "mem_time (snd (st_Set (mem_Store ce) ctx k v ttl s)) = m_clock s (Suc (m_tick s))"
proof -
  obtain l where R: "rel s l" using assms(1) by (auto simp: mem_ok_def)
  let ?l = "l\<lparr>l_tick := Suc (l_tick l)\<rparr>"
  have "rel (snd (st_Set (mem_Store ce) ctx k v ttl s)) (lru_report (lru_put (k, v, lru_time l + ttl) ?l))"
    using mem_Set_go [OF R, of "ce ctx" k v ttl "Some nil_panic" s] assms
    by (simp add: mem_Store_def lru_Set_def lru_now_def lru_time_def)
  from mem_view [OF this] show ?thesis
    using lru_put_due [of k v "lru_time l + ttl" ?l] mem_view [OF R] R by (simp add: lru_time_def rel_def same_env_def)
qed

lemma fleet_Set:
  assumes "mem_ok (fl_l1 F i)" and k: "k \<in> {''user:42'', ''user:43''}"
  shows "wp (cache_Set fleet_cache Background k [7] []) (\<lambda>r w. (rd_up (fl_l2 F) \<longrightarrow> r = None)
    \<and> mem_time (fst (snd (w_ext w))) = m_clock (fl_l1 F i) (Suc (m_tick (fl_l1 F i)))) (enter i F)"
proof -
  obtain dat where d: "Encode \<lparr>Absent = False, Expires = 1060, Codec = ''raw'', Gens = [], Payload = [7]\<rparr> = Inr dat"
    using demo_Encode by blast
  show ?thesis
    using k mem_Set_succeeds [OF assms(1), of "\<lambda>_. None" Background 60] mem_Set_ticks [OF assms(1), of "\<lambda>_. None" Background 60]
    by (auto simp: cache_Set_def wp_bind wp_ctxErr_fleet fleet_slot fleet_fields on_l1_def on_l2_def
        entryOptions_def uncacheable_def demo_type_def raw_def DefaultMaxValueBytes_def elems_def wp_return
        cache_write_def wp_ext now_def rt_env_def fleet_rt_def at_env_def demo_scaled d
        enter_def errors_Join_def List.map_filter_def Let_def wp_l1 wp_l2
        redis_Store_def rs_Set_def rs_call_def on_client_def passGuard_Do_def rd_client_def split: prod.splits)
qed

text \<open>The fleet after a write at replica 0, and after one of another key at replica 1.\<close>

definition written_fleet :: "(unit, store, redis) fleet" where
  "written_fleet = leave 0 (snd (run_state (cache_Set fleet_cache Background ''user:42'' [7] []) (enter 0 replicas))) replicas"

definition later_fleet :: "(unit, store, redis) fleet" where
  "later_fleet = fleet_steps fleet_cache [FCall 1 (CSet Background ''user:43'' [7] [])] written_fleet"

lemma written_run: "run_state (cache_Set fleet_cache Background ''user:42'' [7] []) (enter 0 replicas)
    = (None, snd (run_state (cache_Set fleet_cache Background ''user:42'' [7] []) (enter 0 replicas)))"
  using fleet_Set [of replicas 0 "''user:42''"] by (simp add: wp_run prod_eq_iff ticking_ok replicas_def)

lemma later_time: "mem_time (fl_l1 written_fleet 1) + 60 \<le> mem_time (fl_l1 later_fleet 1)"
proof -
  have one: "fl_l1 written_fleet (Suc 0) = ticking_store" by (simp add: written_fleet_def)
  have clk: "m_clock ticking_store = (\<lambda>n. 100 * int n)" "m_tick ticking_store = 0"
    using mem_view [OF New_rel [OF ticking_New]] New_rel [OF ticking_New] by (simp_all add: lru_New_def rel_def same_env_def)
  then have "mem_time ticking_store = 0" by (simp add: mem_time_def)
  then show ?thesis
    using fleet_Set [of written_fleet 1 "''user:43''"] clk
    by (simp add: wp_run later_fleet_def fleet_steps_def one ticking_ok)
qed

theorem staleness_is_bounded_witness:
  "fst (run_state (Get fleet_cache Background ''user:42'') (enter 1 later_fleet)) \<in> {Inr (Some [7]), Inr None}
    \<or> (\<exists>e. fst (run_state (Get fleet_cache Background ''user:42'') (enter 1 later_fleet)) = Inl e
       \<and> ctx_error fleet_cache Background e)"
proof -
  have j: "just_built replicas" using ticking_New ticking_mono by (auto simp: just_built_def)
  have "fst (run_state (Get fleet_cache Background ''user:42'') (enter 1 later_fleet))
        \<in> (if False then {Inr None} else {Inr (Some [7]), Inr None})
      \<or> (\<exists>e. fst (run_state (Get fleet_cache Background ''user:42'') (enter 1 later_fleet)) = Inl e
         \<and> ctx_error fleet_cache Background e)"
    by (rule staleness_is_bounded [OF fleet_deployed rds.redis_store_axioms _ _ _ _ _ _ _ _ _ _ _ _ fleet_slot(1),
          where before = "[]" and F = replicas
          and i = 0 and ctx = Background and opts = "[]" and fs = "[FCall 1 (CSet Background ''user:43'' [7] [])]"
          and w = "snd (run_state (cache_Set fleet_cache Background ''user:42'' [7] []) (enter 0 replicas))"])
      (use j written_run later_time in \<open>simp_all add: fleet_fields fleet_rt_def raw_def fleet_slot fleet_steps_def
        later_fleet_def written_fleet_def [symmetric]\<close>)
  then show ?thesis by simp
qed

end
