(* ===== verification/Examples.thy ===== *)
theory Examples
  imports CacheEvents BusWire
begin

text \<open>
  Consumers of the cache, \<open>examples/\<close>: the repository decorator of \<open>taskapi\<close>, which caches each owner's list
  of tasks, and the hooks of \<open>crierhooks\<close>, which log swallowed errors.  The repository and the logger are
  parameters.
\<close>

section \<open>taskapi\<close>

record Task =
  ID :: int
  Owner :: int
  Title :: string

record 'x Repository =
  rp_ListByOwner :: "ctx \<Rightarrow> int \<Rightarrow> 'x \<Rightarrow> Task list result \<times> 'x"
  rp_Create :: "ctx \<Rightarrow> Task \<Rightarrow> 'x \<Rightarrow> Task result \<times> 'x"

record 'x CachedRepository =
  cr_next :: "'x Repository"
  cr_lists :: "('x, int, Task list) cache"
  cr_OnInvalidationError :: "(error \<Rightarrow> 'x \<Rightarrow> 'x) option"

text \<open>\<open>%d\<close>\<close>

definition show_int :: "int \<Rightarrow> string" where
  "show_int i = (if i < 0 then CHR ''-'' # decimal (nat (- i)) else decimal (nat i))"

definition listsTag :: "int \<Rightarrow> string" where
  "listsTag owner = ''user:'' @ show_int owner @ '':lists''"

definition NewCachedRepository :: "'x runtime \<Rightarrow> Task list gotype \<Rightarrow> Task list Codec \<Rightarrow> 'x Repository
    \<Rightarrow> ('x, int, Task list) Option list \<Rightarrow> ('x world, 'x CachedRepository result) state" where
  "NewCachedRepository rt ty json next opts = do {
     lists \<leftarrow> New rt ty json ''tasks'' (Some listsTag) (opts @ [WithTags (TagsFn (\<lambda>owner. [listsTag owner]))]);
     State_Monad.return (map_sum id (\<lambda>lists. \<lparr>cr_next = next, cr_lists = lists, cr_OnInvalidationError = None\<rparr>) lists) }"

definition ListByOwner :: "'x CachedRepository \<Rightarrow> ctx \<Rightarrow> int \<Rightarrow> ('x world, Task list result) state" where
  "ListByOwner r ctx owner =
     GetOrLoad (cr_lists r) ctx owner (Some (\<lambda>ctx. rp_ListByOwner (cr_next r) ctx owner)) []"

definition Create :: "'x CachedRepository \<Rightarrow> ctx \<Rightarrow> Task \<Rightarrow> ('x world, Task result) state" where
  "Create r ctx t = do {
     created \<leftarrow> ext (rp_Create (cr_next r) ctx t);
     case created of
       Inl err \<Rightarrow> State_Monad.return (Inl err)
     | Inr task \<Rightarrow> do {
         err \<leftarrow> InvalidateTag (cr_lists r) ctx (listsTag (Owner task));
         _ \<leftarrow> (case (err, cr_OnInvalidationError r) of
           (Some e, Some handler) \<Rightarrow> ext (\<lambda>x. ((), handler e x))
         | _ \<Rightarrow> State_Monad.return ());
         State_Monad.return (Inr task) } }"

section \<open>One owner's lists\<close>

lemma show_int_chars: "ch \<in> set (show_int i) \<Longrightarrow> ch = CHR ''-'' \<or> digit ch"
  using decimal_digits by (auto simp: show_int_def split: if_splits)

lemma minus_not_digit: "\<not> digit (CHR ''-'')"
  by (simp add: digit_def)

lemma show_int_inj: "show_int i = show_int j \<Longrightarrow> i = j"
proof -
  assume eq: "show_int i = show_int j"
  have dec: "decimal m = decimal n \<Longrightarrow> m = n" for m n by (metis decimal_digits)
  have first: "hd (show_int k) = CHR ''-'' \<longleftrightarrow> k < 0" for k
  proof -
    have "hd (decimal n) \<noteq> CHR ''-''" for n
      using decimal_digits [of n] minus_not_digit hd_in_set [of "decimal n"] by metis
    then show ?thesis by (simp add: show_int_def)
  qed
  have "i < 0 \<longleftrightarrow> j < 0" using eq first by metis
  then show ?thesis using eq dec [of "nat (- i)" "nat (- j)"] dec [of "nat i" "nat j"]
    by (auto simp: show_int_def split: if_splits)
qed

lemma listsTag_inj: "listsTag i = listsTag j \<Longrightarrow> i = j"
  by (simp add: listsTag_def show_int_inj)

lemma decimal_length: "n < 10 ^ Suc d \<Longrightarrow> length (decimal n) \<le> Suc d"
proof (induction d arbitrary: n)
  case (Suc d)
  show ?case
  proof (cases "n < 10")
    case False
    have "n div 10 < 10 ^ Suc d" using Suc.prems by (simp add: div_less_iff_less_mult algebra_simps)
    then have "length (decimal (n div 10)) \<le> Suc d" by (rule Suc.IH)
    then show ?thesis using False by (subst decimal.simps) simp
  qed (subst decimal.simps, simp)
qed (subst decimal.simps, simp)

lemma listsTag_length: "in_int64 i \<Longrightarrow> length (listsTag i) \<le> 32"
proof -
  assume i: "in_int64 i"
  then have "nat (- i) < 10 ^ Suc 19" "nat i < 10 ^ Suc 19" by (auto simp: in_int64_def min_int64_def max_int64_def)
  then have "length (show_int i) \<le> 21"
    using decimal_length [of "nat (- i)" 19] decimal_length [of "nat i" 19] by (simp add: show_int_def)
  then show ?thesis by (simp add: listsTag_def)
qed

lemma listsTag_valid: "validateKey (listsTag i) = None"
proof -
  have plain: "48 \<le> (of_char ch :: nat) \<and> of_char ch < (123 :: nat) \<or> ch = CHR ''-''" if "ch \<in> set (listsTag i)" for ch
    using that show_int_chars [of ch i] by (auto simp: listsTag_def digit_def)
  then have "runes (ascii (listsTag i)) = Some (ascii (listsTag i))" by (intro runes_plain) (auto simp: ascii_def dest!: plain)
  moreover have "\<not> list_ex IsControl (ascii (listsTag i))" by (auto simp: list_ex_iff ascii_def IsControl_def dest!: plain)
  ultimately show ?thesis by (simp add: validateKey_def ValidString_def utf8_runes_def ascii_def [symmetric]) (simp add: listsTag_def)
qed

text \<open>The slot of an owner.\<close>

definition list_slot :: "int \<Rightarrow> slot" where
  "list_slot i = \<lparr>sl_key = listsTag i, sl_pk = ''cistern:v1:tasks:-:k:'' @ listsTag i,
     sl_genKeys = [''cistern:v1:tasks:g:'' @ listsTag i]\<rparr>"

lemma NewCachedRepository_shape:
  assumes "run_state (NewCachedRepository rt ty json next opts) w = (Inr r, w')"
  shows "built (cr_lists r)" "cr_next r = next" "cr_OnInvalidationError r = None"
    "key_fn (cr_lists r) = listsTag" "ca_tagsFn (cr_lists r) = Some (\<lambda>owner. [listsTag owner])"
    "prefix (cr_lists r) = ''cistern:v1:tasks:-:''" "genPrefix (cr_lists r) = ''cistern:v1:tasks:g:''"
proof -
  let ?opts = "opts @ [WithTags (TagsFn (\<lambda>owner. [listsTag owner]))]"
  let ?cfg = "fold (\<lambda>opt c. opt c) ?opts (default_config json)"
  obtain c where c: "run_state (New rt ty json ''tasks'' (Some listsTag) ?opts) w = (Inr c, w')"
    "r = \<lparr>cr_next = next, cr_lists = c, cr_OnInvalidationError = None\<rparr>"
    using assms unfolding NewCachedRepository_def
    by (cases "run_state (New rt ty json ''tasks'' (Some listsTag) ?opts) w"; cases "fst (run_state (New rt ty json ''tasks'' (Some listsTag) ?opts) w)")
      (auto simp: run_simps)
  show "built (cr_lists r)" using New_built [OF c(1)] c(2) by simp
  show "cr_next r = next" "cr_OnInvalidationError r = None" using c(2) by simp_all
  show "key_fn (cr_lists r) = listsTag" "ca_tagsFn (cr_lists r) = Some (\<lambda>owner. [listsTag owner])"
    "prefix (cr_lists r) = ''cistern:v1:tasks:-:''" "genPrefix (cr_lists r) = ''cistern:v1:tasks:g:''"
  proof (rule_tac [!] New_shape [OF c(1)])
    fix fn auth u
    assume t: "(if cf_tagsSet ?cfg then map_sum id (\<lambda>(fn, auth). (Some fn, auth)) (tagging ?cfg) else Inr (None, no_auth)) = Inr (fn, auth)"
      and s: "c = (New_cache rt ty ''tasks'' (Some listsTag) ?cfg fn auth)\<lparr>ca_unsubscribe := u\<rparr>"
    have "fn = Some (\<lambda>owner. [listsTag owner])"
      using t by (auto simp: WithTags_def tagging_def Let_def split: option.splits sum.splits)
    then show "key_fn (cr_lists r) = listsTag" "ca_tagsFn (cr_lists r) = Some (\<lambda>owner. [listsTag owner])"
      "prefix (cr_lists r) = ''cistern:v1:tasks:-:''" "genPrefix (cr_lists r) = ''cistern:v1:tasks:g:''"
      by (simp_all add: c(2) s New_cache_def)
  qed
qed

lemma list_slot:
  assumes "run_state (NewCachedRepository rt ty json next opts) w = (Inr r, w')" "in_int64 i"
  shows "slotFor (cr_lists r) i = Inr (list_slot i)"
  using NewCachedRepository_shape [OF assms(1)] listsTag_valid [of i] listsTag_length [OF assms(2)]
  by (simp add: slotFor_def physicalKey_def genKey_def list_slot_def MaxKeyBytes_def MaxTags_def)

text \<open>C40. No owner is served another's list: in every decorated repository, two owners have different physical
  keys and different tag counters, and their loads never share a flight.\<close>

theorem owners_are_separate:
  assumes "run_state (NewCachedRepository rt ty json next opts) w = (Inr r, w')" "in_int64 i" "in_int64 j" "i \<noteq> j"
  shows "\<exists>s t. slotFor (cr_lists r) i = Inr s \<and> slotFor (cr_lists r) j = Inr t \<and> sl_pk s \<noteq> sl_pk t
    \<and> set (sl_genKeys s) \<inter> set (sl_genKeys t) = {}
    \<and> (\<forall>g h. flightKey (sl_pk s) True (sl_genKeys s) g \<noteq> flightKey (sl_pk t) True (sl_genKeys t) h)"
proof -
  note s = list_slot [OF assms(1,2)] and t = list_slot [OF assms(1,3)]
  have ok: "keyspace_ok (cr_lists r)" using NewCachedRepository_shape(1) [OF assms(1)] by (simp add: built_def)
  have ne: "sl_pk (list_slot i) \<noteq> sl_pk (list_slot j)" using assms(4) listsTag_inj by (auto simp: list_slot_def)
  moreover have "set (sl_genKeys (list_slot i)) \<inter> set (sl_genKeys (list_slot j)) = {}"
    using assms(4) listsTag_inj by (auto simp: list_slot_def)
  moreover have "flightKey (sl_pk (list_slot i)) True (sl_genKeys (list_slot i)) g
      \<noteq> flightKey (sl_pk (list_slot j)) True (sl_genKeys (list_slot j)) h" for g h
    using flightKey_inj [OF ok s t, of True g h] ne by auto
  ultimately show ?thesis using s t by blast
qed

text \<open>\<open>Create\<close> answers what the repository answers, whatever the cache, its stores and its bus do: a failed
  invalidation neither undoes the write nor reports it as failed.\<close>

theorem Create_answers_as_repository:
  "fst (run_state (Create r ctx t) w) = fst (rp_Create (cr_next r) ctx t (w_ext w))"
proof -
  have "wp (Create r ctx t) (\<lambda>a w1. a = fst (rp_Create (cr_next r) ctx t (w_ext w))) w"
    by (auto simp: Create_def wp_simps wp_run [of "InvalidateTag _ _ _"] split: sum.split option.split)
  then show ?thesis by (simp add: wp_run)
qed

section \<open>crierhooks\<close>

text \<open>The attributes of a log record; the text of an error is its value.\<close>

datatype attr = AttrString string | AttrError error

record LogRecord =
  Timestamp :: time
  SeverityText :: string
  Body :: string
  Attributes :: "string \<rightharpoonup> attr"

definition Op_string :: "Op \<Rightarrow> string" where
  "Op_string op = (case op of OpRead \<Rightarrow> ''read'' | OpDecode \<Rightarrow> ''decode'' | OpPopulate \<Rightarrow> ''populate''
     | OpBackfill \<Rightarrow> ''backfill'' | OpEvent \<Rightarrow> ''event'')"

fun crier_record :: "time \<Rightarrow> hook_event \<Rightarrow> LogRecord option" where
  "crier_record t (ErrorEvent ns key op level err) =
     (let attrs = [''cistern.namespace'' \<mapsto> AttrString ns, ''cistern.op'' \<mapsto> AttrString (Op_string op),
                   ''cistern.level'' \<mapsto> AttrString (Level_String level), ''error'' \<mapsto> AttrError err];
          attrs = (if key \<noteq> '''' then attrs(''cistern.key'' \<mapsto> AttrString key) else attrs) in
      Some \<lparr>Timestamp = t, SeverityText = ''WARN'',
        Body = ''cistern: a cache operation failed and was treated as a miss'', Attributes = attrs\<rparr>)"
| "crier_record t _ = None"

text \<open>\<open>lg\<close> is \<open>c.Log\<close>, as far as a hook can tell: whether it panics.  Its error is dropped.\<close>

definition crier_Hooks :: "(ctx \<Rightarrow> LogRecord \<Rightarrow> bool) \<Rightarrow> time \<Rightarrow> Hooks" where
  "crier_Hooks lg t = no_hooks\<lparr>OnError := Some (\<lambda>ctx e.
     case crier_record t e of None \<Rightarrow> False | Some r \<Rightarrow> lg ctx r)\<rparr>"

text \<open>The log never learns a key: from a cache built without \<open>WithHookKeys\<close>, through any calls and bus events,
  every record \<open>crierhooks\<close> makes of what the hooks see carries the name space and no key.\<close>

theorem crier_logs_no_key:
  assumes "\<not> ca_hookKeys c"
  shows "\<exists>es. w_trace (cache_calls c cs w) = w_trace w @ es
    \<and> (\<forall>e \<in> set es. case crier_record t e of None \<Rightarrow> True
        | Some r \<Rightarrow> Attributes r ''cistern.key'' = None \<and> Attributes r ''cistern.namespace'' = Some (AttrString (namespace c)))"
proof -
  obtain es where es: "w_trace (cache_calls c cs w) = w_trace w @ es"
    "\<forall>e \<in> set es. he_ns e = namespace c \<and> he_key e = ''''" using calls_withhold_keys [OF assms, of cs w] by blast
  have "case crier_record t e of None \<Rightarrow> True
      | Some r \<Rightarrow> Attributes r ''cistern.key'' = None \<and> Attributes r ''cistern.namespace'' = Some (AttrString (namespace c))"
    if "e \<in> set es" for e
    using es(2) that by (cases e) (auto simp: Let_def)
  then show ?thesis using es(1) by blast
qed

section \<open>Witnesses\<close>

theorem crier_logs_no_key_witness:
  "\<exists>es. w_trace (cache_calls demo_cache [CGet Background ''user:42'', CDelete Background ''user:42''] demo_world)
      = w_trace demo_world @ es
    \<and> (\<forall>e \<in> set es. case crier_record 0 e of None \<Rightarrow> True
        | Some r \<Rightarrow> Attributes r ''cistern.key'' = None \<and> Attributes r ''cistern.namespace'' = Some (AttrString (namespace demo_cache)))"
  by (rule crier_logs_no_key) (simp add: demo_cache_fields)

definition task_type :: "Task list gotype" where
  "task_type = \<lparr>ty_zero = [], ty_NoCache = (\<lambda>_. False), ty_ptr_NoCache = False\<rparr>"

definition task_codec :: "Task list Codec" where
  "task_codec = \<lparr>cd_ID = ''json'', cd_Marshal = (\<lambda>_. Inr []), cd_Unmarshal = (\<lambda>_. Inr [])\<rparr>"

definition no_tasks :: "unit Repository" where
  "no_tasks = \<lparr>rp_ListByOwner = (\<lambda>_ _ x. (Inr [], x)), rp_Create = (\<lambda>_ t x. (Inr t, x))\<rparr>"

definition demo_repository :: "unit CachedRepository" where
  "demo_repository = projr (fst (run_state (NewCachedRepository demo_rt task_type task_codec no_tasks
     [WithL1 (Some tagged_store), WithTTL 60]) \<lparr>w_ext = (), w_gens = newGenCache 0, w_trace = []\<rparr>))"

lemma demo_repository_New: "\<exists>w'. run_state (NewCachedRepository demo_rt task_type task_codec no_tasks
    [WithL1 (Some tagged_store), WithTTL 60]) \<lparr>w_ext = (), w_gens = newGenCache 0, w_trace = []\<rparr> = (Inr demo_repository, w')"
  by (simp add: demo_repository_def NewCachedRepository_def New_def Let_def default_config_def WithL1_def WithTTL_def WithTags_def
      validate_def tasks_namespace math_IsNaN_def f64_neg_def f64_ge1_def DefaultMaxValueBytes_def task_codec_def
      uncacheableType_def task_type_def floatOf_def tagging_def tagged_store_def
      State_Monad.return_def State_Monad.bind_def)

theorem owners_are_separate_witness:
  "\<exists>s t. slotFor (cr_lists demo_repository) 42 = Inr s \<and> slotFor (cr_lists demo_repository) 43 = Inr t \<and> sl_pk s \<noteq> sl_pk t
    \<and> set (sl_genKeys s) \<inter> set (sl_genKeys t) = {}
    \<and> (\<forall>g h. flightKey (sl_pk s) True (sl_genKeys s) g \<noteq> flightKey (sl_pk t) True (sl_genKeys t) h)"
proof -
  obtain w' where w': "run_state (NewCachedRepository demo_rt task_type task_codec no_tasks
    [WithL1 (Some tagged_store), WithTTL 60]) \<lparr>w_ext = (), w_gens = newGenCache 0, w_trace = []\<rparr> = (Inr demo_repository, w')"
    using demo_repository_New by blast
  show ?thesis
    by (rule owners_are_separate [OF w']) (simp_all add: in_int64_def min_int64_def max_int64_def)
qed

end
