(* ===== verification/MemoryBytes.thy ===== *)
theory MemoryBytes
  imports MemoryCalls
begin

text \<open>
  \<open>memory/memory.go\<close> once more, with the bytes in memory instead of in values: a \<open>[]byte\<close> is a slice of an
  array, arrays live in one memory that the store and its callers share, and \<open>clone\<close> is what keeps the two
  apart (ADR-0014).  The definitions are those of \<open>Memory\<close>, line by line, with a slice wherever the code has
  one; the lemmas show that the store never keeps an array a caller can write to, and so that it answers as the
  store of values does, whatever callers write into the slices they passed or were given.
\<close>

section \<open>Slices\<close>

record slice =
  sl_arr :: nat
  sl_off :: nat
  sl_len :: nat

type_synonym arrays = "nat \<Rightarrow> bytes"

text \<open>The nil slice: array 0 is never allocated.\<close>

definition slice_nil :: slice where
  "slice_nil = \<lparr>sl_arr = 0, sl_off = 0, sl_len = 0\<rparr>"

definition sl_read :: "arrays \<Rightarrow> slice \<Rightarrow> bytes" where
  "sl_read m v = take (sl_len v) (drop (sl_off v) (m (sl_arr v)))"

text \<open>Go's \<open>copy(v, src)\<close>.\<close>

definition sl_copy :: "slice \<Rightarrow> bytes \<Rightarrow> arrays \<Rightarrow> arrays" where
  "sl_copy v src m =
     (let a = m (sl_arr v); n = min (sl_len v) (length src) in
      m(sl_arr v := take (sl_off v) a @ take n src @ drop (sl_off v + n) a))"

section \<open>State\<close>

record bnode =
  bn_key :: string
  bn_value :: slice
  bn_expires :: time
  bn_prev :: "addr option"
  bn_next :: "addr option"

type_synonym bheap = "addr \<Rightarrow> bnode option"

text \<open>The fields of \<open>Memory.store\<close>, then the memory: the arrays, and the next one to allocate.\<close>

record bstore =
  b_maxEntries :: int
  b_maxBytes :: int
  b_size :: int
  b_count :: int
  b_heap :: bheap
  b_items :: "string \<Rightarrow> addr option"
  b_fresh :: addr
  b_onEvict :: bool
  b_evicted :: "EvictReason list"
  b_reported :: "EvictReason list"
  b_clock :: "nat \<Rightarrow> time"
  b_tick :: nat
  b_rand :: "nat \<Rightarrow> bytes option"
  b_draw :: nat
  b_mem :: arrays
  b_brk :: nat

definition bmem_New :: "(nat \<Rightarrow> time) \<Rightarrow> (nat \<Rightarrow> bytes option) \<Rightarrow> (mconfig \<Rightarrow> mconfig) list
    \<Rightarrow> bstore result" where
  "bmem_New clk rnd opts =
     (let cfg = fold (\<lambda>opt c. opt c) opts
            \<lparr>mc_maxEntries = DefaultMaxEntries, mc_maxBytes = DefaultMaxBytes, mc_onEvict = False\<rparr> in
      if mc_maxEntries cfg \<le> 0
        then Inl (Wrap ''%w: memory: max entries must be positive'' [ErrInvalidConfig])
      else if mc_maxBytes cfg \<le> 0
        then Inl (Wrap ''%w: memory: max bytes must be positive'' [ErrInvalidConfig])
      else Inr \<lparr>b_maxEntries = mc_maxEntries cfg, b_maxBytes = mc_maxBytes cfg, b_size = 0, b_count = 0,
        b_heap = (\<lambda>_. None)(head \<mapsto> \<lparr>bn_key = [], bn_value = slice_nil, bn_expires = 0,
                                    bn_prev = Some head, bn_next = Some head\<rparr>),
        b_items = (\<lambda>_. None), b_fresh = 1, b_onEvict = mc_onEvict cfg, b_evicted = [],
        b_reported = [], b_clock = clk, b_tick = 0, b_rand = rnd, b_draw = 0,
        b_mem = (\<lambda>_. []), b_brk = 1\<rparr>)"

section \<open>Allocation\<close>

text \<open>\<open>append([]byte(nil), bs...)\<close>: nil when there is nothing to append, a new array otherwise.\<close>

definition append_nil :: "bytes \<Rightarrow> bstore \<Rightarrow> slice \<times> bstore" where
  "append_nil bs s =
     (if bs = [] then (slice_nil, s)
      else (\<lparr>sl_arr = b_brk s, sl_off = 0, sl_len = length bs\<rparr>,
            s\<lparr>b_mem := (b_mem s)(b_brk s := bs), b_brk := Suc (b_brk s)\<rparr>))"

definition clone :: "slice \<Rightarrow> bstore \<Rightarrow> slice \<times> bstore" where
  "clone v s = append_nil (sl_read (b_mem s) v) s"

section \<open>The list operations\<close>

definition bset_next :: "addr option \<Rightarrow> addr option \<Rightarrow> bheap \<Rightarrow> bheap option" where
  "bset_next p v h = do { a \<leftarrow> p; n \<leftarrow> h a; Some (h(a \<mapsto> n\<lparr>bn_next := v\<rparr>)) }"

definition bset_prev :: "addr option \<Rightarrow> addr option \<Rightarrow> bheap \<Rightarrow> bheap option" where
  "bset_prev p v h = do { a \<leftarrow> p; n \<leftarrow> h a; Some (h(a \<mapsto> n\<lparr>bn_prev := v\<rparr>)) }"

definition bunlink :: "addr \<Rightarrow> bheap \<Rightarrow> bheap option" where
  "bunlink e h = do {
     n \<leftarrow> h e;
     h \<leftarrow> bset_next (bn_prev n) (bn_next n) h;
     h \<leftarrow> bset_prev (bn_next n) (bn_prev n) h;
     h \<leftarrow> bset_prev (Some e) None h;
     bset_next (Some e) None h }"

definition bpushFront :: "addr \<Rightarrow> bheap \<Rightarrow> bheap option" where
  "bpushFront e h = do {
     hd \<leftarrow> h head;
     h \<leftarrow> bset_prev (Some e) (Some head) h;
     h \<leftarrow> bset_next (Some e) (bn_next hd) h;
     hd \<leftarrow> h head;
     h \<leftarrow> bset_prev (bn_next hd) (Some e) h;
     bset_next (Some head) (Some e) h }"

section \<open>The locked operations\<close>

definition bentry_size :: "bnode \<Rightarrow> int" where
  "bentry_size e = int (length (bn_key e) + sl_len (bn_value e))"

definition bmem_now :: "bstore \<Rightarrow> time \<times> bstore" where
  "bmem_now s = (b_clock s (b_tick s), s\<lparr>b_tick := Suc (b_tick s)\<rparr>)"

definition bremove :: "addr \<Rightarrow> bstore \<Rightarrow> bstore option" where
  "bremove a s = do {
     h \<leftarrow> bunlink a (b_heap s);
     e \<leftarrow> h a;
     Some (s\<lparr>b_heap := h, b_items := (b_items s)(bn_key e := None),
             b_count := b_count s - 1, b_size := b_size s - bentry_size e\<rparr>) }"

definition bevict :: "addr option \<Rightarrow> EvictReason \<Rightarrow> bstore \<Rightarrow> bstore option" where
  "bevict p reason s = do {
     a \<leftarrow> p;
     s \<leftarrow> bremove a s;
     Some (if b_onEvict s then s\<lparr>b_evicted := b_evicted s @ [reason]\<rparr> else s) }"

definition bgetLocked :: "string \<Rightarrow> bstore \<Rightarrow> (slice option \<times> bstore) option" where
  "bgetLocked key s =
     (case b_items s key of
        None \<Rightarrow> Some (None, s)
      | Some a \<Rightarrow> do {
          e \<leftarrow> b_heap s a;
          let (now, s) = bmem_now s;
          if \<not> now < bn_expires e then do {
            s \<leftarrow> bevict (Some a) EvictExpired s;
            Some (None, s) }
          else do {
            h \<leftarrow> bunlink a (b_heap s);
            h \<leftarrow> bpushFront a h;
            let (v, s) = clone (bn_value e) (s\<lparr>b_heap := h\<rparr>);
            Some (Some v, s) } })"

partial_function (option) bevict_loop :: "int \<Rightarrow> bstore \<Rightarrow> bstore option" where
  "bevict_loop sz s =
     (if b_count s \<ge> b_maxEntries s \<or> b_size s + sz > b_maxBytes s
      then do {
        hd \<leftarrow> b_heap s head;
        s \<leftarrow> bevict (bn_prev hd) EvictCapacity s;
        bevict_loop sz s }
      else Some s)"

definition bnew_entry :: "string \<Rightarrow> slice \<Rightarrow> time \<Rightarrow> bstore \<Rightarrow> addr \<times> bstore" where
  "bnew_entry key value expires s =
     (b_fresh s,
      s\<lparr>b_heap := (b_heap s)(b_fresh s \<mapsto> \<lparr>bn_key = key, bn_value = value, bn_expires = expires,
                                          bn_prev = None, bn_next = None\<rparr>),
        b_fresh := Suc (b_fresh s)\<rparr>)"

definition bsetLocked :: "addr \<Rightarrow> bstore \<Rightarrow> bstore option" where
  "bsetLocked a s = do {
     e \<leftarrow> b_heap s a;
     s \<leftarrow> (case b_items s (bn_key e) of Some old \<Rightarrow> bremove old s | None \<Rightarrow> Some s);
     if bentry_size e > b_maxBytes s then Some s
     else do {
       s \<leftarrow> bevict_loop (bentry_size e) s;
       h \<leftarrow> bpushFront a (b_heap s);
       Some (s\<lparr>b_items := (b_items s)(bn_key e \<mapsto> a), b_heap := h,
               b_count := b_count s + 1, b_size := b_size s + bentry_size e\<rparr>) } }"

text \<open>\<open>s.setLocked(&entry{key: key, value: binary.BigEndian.AppendUint64(nil, g), expires: s.now().Add(ttl)})\<close>.\<close>

definition bset_counter :: "string \<Rightarrow> u64 \<Rightarrow> duration \<Rightarrow> bstore \<Rightarrow> bstore option" where
  "bset_counter gk g ttl s =
     (let (v, s) = append_nil (be64 g) s;
          (now, s) = bmem_now s;
          (a, s) = bnew_entry gk v (now + ttl) s
      in bsetLocked a s)"

definition bcounterLocked :: "string \<Rightarrow> duration \<Rightarrow> bstore \<Rightarrow> (u64 result \<times> bstore) option" where
  "bcounterLocked gk ttl s = do {
     (v, s) \<leftarrow> bgetLocked gk s;
     let create = (let drawn = b_rand s (b_draw s); s = s\<lparr>b_draw := Suc (b_draw s)\<rparr> in
       case NewGeneration drawn of
         Inl err \<Rightarrow> Some (Inl err, s)
       | Inr g \<Rightarrow> do {
           s \<leftarrow> bset_counter gk g ttl s;
           Some (Inr g, s) });
     case v of Some v \<Rightarrow> if sl_len v = 8 then Some (Inr (un_be64 (sl_read (b_mem s) v)), s) else create
     | None \<Rightarrow> create }"

section \<open>The exported methods\<close>

definition breportEvictions :: "bstore \<Rightarrow> bstore" where
  "breportEvictions s =
     (if \<not> b_onEvict s then s
      else s\<lparr>b_evicted := [], b_reported := b_reported s @ b_evicted s\<rparr>)"

definition bmem_Get :: "error option \<Rightarrow> string \<Rightarrow> bstore \<Rightarrow> (slice option result \<times> bstore) option" where
  "bmem_Get ctxErr key s =
     (case ctxErr of Some err \<Rightarrow> Some (Inl err, s)
      | None \<Rightarrow> do {
          (v, s) \<leftarrow> bgetLocked key s;
          Some (Inr v, breportEvictions s) })"

fun bcounters :: "string list \<Rightarrow> duration \<Rightarrow> bstore \<Rightarrow> (u64 list result \<times> bstore) option" where
  "bcounters [] ttl s = Some (Inr [], s)"
| "bcounters (gk # gks) ttl s = do {
     (g, s) \<leftarrow> bcounterLocked gk ttl s;
     case g of Inl err \<Rightarrow> Some (Inl err, s)
     | Inr g \<Rightarrow> do {
         (gs, s) \<leftarrow> bcounters gks ttl s;
         Some (map_sum id (\<lambda>gs. g # gs) gs, s) } }"

definition bmem_GetTagged :: "error option \<Rightarrow> string \<Rightarrow> string list \<Rightarrow> duration \<Rightarrow> bstore
    \<Rightarrow> ((slice option \<times> u64 list) result \<times> bstore) option" where
  "bmem_GetTagged ctxErr key genKeys genTTL s =
     (case ctxErr of Some err \<Rightarrow> Some (Inl err, s)
      | None \<Rightarrow>
          if genTTL \<le> 0 then Some (Inl (errors_New ''memory: counter ttl must be positive''), s)
          else do {
            (v, s) \<leftarrow> bgetLocked key s;
            (gens, s) \<leftarrow> bcounters genKeys genTTL s;
            Some (map_sum id (\<lambda>gs. (v, gs)) gens, breportEvictions s) })"

fun bbump_loop :: "string list \<Rightarrow> duration \<Rightarrow> bstore \<Rightarrow> (error option \<times> bstore) option" where
  "bbump_loop [] ttl s = Some (None, s)"
| "bbump_loop (gk # gks) ttl s = do {
     (g, s) \<leftarrow> bcounterLocked gk ttl s;
     case g of Inl err \<Rightarrow> Some (Some err, s)
     | Inr g \<Rightarrow> do {
         s \<leftarrow> bset_counter gk (g + 1) ttl s;
         bbump_loop gks ttl s } }"

definition bmem_Bump :: "error option \<Rightarrow> string list \<Rightarrow> duration \<Rightarrow> bstore
    \<Rightarrow> (error option \<times> bstore) option" where
  "bmem_Bump ctxErr genKeys genTTL s =
     (case ctxErr of Some err \<Rightarrow> Some (Some err, s)
      | None \<Rightarrow>
          if genTTL \<le> 0 then Some (Some (errors_New ''memory: counter ttl must be positive''), s)
          else do {
            (err, s) \<leftarrow> bbump_loop genKeys genTTL s;
            Some (err, breportEvictions s) })"

definition bmem_Set :: "error option \<Rightarrow> string \<Rightarrow> slice \<Rightarrow> duration \<Rightarrow> bstore
    \<Rightarrow> (error option \<times> bstore) option" where
  "bmem_Set ctxErr key value ttl s =
     (case ctxErr of Some err \<Rightarrow> Some (Some err, s)
      | None \<Rightarrow>
          if ttl \<le> 0 then Some (Some (errors_New ''memory: ttl must be positive''), s)
          else do {
            let (v, s) = clone value s;
            let (now, s) = bmem_now s;
            let (a, s) = bnew_entry key v (now + ttl) s;
            s \<leftarrow> bsetLocked a s;
            Some (None, breportEvictions s) })"

definition bmem_Delete :: "error option \<Rightarrow> string \<Rightarrow> bstore \<Rightarrow> (error option \<times> bstore) option" where
  "bmem_Delete ctxErr key s =
     (case ctxErr of Some err \<Rightarrow> Some (Some err, s)
      | None \<Rightarrow>
          case b_items s key of
            Some a \<Rightarrow> do { s \<leftarrow> bremove a s; Some (None, s) }
          | None \<Rightarrow> Some (None, s))"

end
