(* ===== verification/BytesRefine.thy ===== *)
theory BytesRefine
  imports MemoryBytes MemorySpec
begin

text \<open>
  The store of \<open>MemoryBytes\<close> refines the one of \<open>Memory\<close>: \<open>view\<close> reads every slice, and every operation
  commutes with it.  What makes it so is \<open>apart C\<close>: no slice of the store lies in an array of \<open>C\<close>, the arrays
  callers can write to.  Every operation keeps it, and what it returns lies in an array of its own.
\<close>

section \<open>The view\<close>

definition view_node :: "arrays \<Rightarrow> bnode \<Rightarrow> node" where
  "view_node m n = \<lparr>n_key = bn_key n, n_value = sl_read m (bn_value n), n_expires = bn_expires n,
     n_prev = bn_prev n, n_next = bn_next n\<rparr>"

definition view_heap :: "arrays \<Rightarrow> bheap \<Rightarrow> heap" where
  "view_heap m h = (\<lambda>a. map_option (view_node m) (h a))"

definition view :: "bstore \<Rightarrow> store" where
  "view s = \<lparr>maxEntries = b_maxEntries s, maxBytes = b_maxBytes s, m_size = b_size s, m_count = b_count s,
     m_heap = view_heap (b_mem s) (b_heap s), m_items = b_items s, m_fresh = b_fresh s, m_onEvict = b_onEvict s,
     m_evicted = b_evicted s, m_reported = b_reported s, m_clock = b_clock s, m_tick = b_tick s,
     m_rand = b_rand s, m_draw = b_draw s\<rparr>"

lemma view_node_simps [simp]:
  "n_key (view_node m n) = bn_key n" "n_value (view_node m n) = sl_read m (bn_value n)"
  "n_expires (view_node m n) = bn_expires n" "n_prev (view_node m n) = bn_prev n" "n_next (view_node m n) = bn_next n"
  "view_node m (n\<lparr>bn_next := v\<rparr>) = (view_node m n)\<lparr>n_next := v\<rparr>"
  "view_node m (n\<lparr>bn_prev := v\<rparr>) = (view_node m n)\<lparr>n_prev := v\<rparr>"
  by (simp_all add: view_node_def)

lemma view_heap_app [simp]: "view_heap m h a = map_option (view_node m) (h a)"
  by (simp add: view_heap_def)

lemma view_heap_upd: "view_heap m (h(a \<mapsto> n)) = (view_heap m h)(a \<mapsto> view_node m n)"
  by (simp add: view_heap_def fun_eq_iff)

lemma view_simps [simp]:
  "maxEntries (view s) = b_maxEntries s" "maxBytes (view s) = b_maxBytes s" "m_size (view s) = b_size s"
  "m_count (view s) = b_count s" "m_heap (view s) = view_heap (b_mem s) (b_heap s)" "m_items (view s) = b_items s"
  "m_fresh (view s) = b_fresh s" "m_onEvict (view s) = b_onEvict s" "m_evicted (view s) = b_evicted s"
  "m_reported (view s) = b_reported s" "m_clock (view s) = b_clock s" "m_tick (view s) = b_tick s"
  "m_rand (view s) = b_rand s" "m_draw (view s) = b_draw s"
  by (simp_all add: view_def)

section \<open>The list operations\<close>

text \<open>What the list operations leave alone: the slice of every node.\<close>

definition slices :: "bheap \<Rightarrow> addr \<Rightarrow> slice option" where
  "slices h a = map_option bn_value (h a)"

lemma map_bind:
  "map_option f m = m' \<Longrightarrow> (\<And>x. m = Some x \<Longrightarrow> map_option g (k x) = k' (f x)) \<Longrightarrow> map_option g (m \<bind> k) = m' \<bind> k'"
  by (cases m) auto

lemma view_set_next: "map_option (view_heap m) (bset_next p v h) = set_next p v (view_heap m h)"
  by (cases p) (auto simp: bset_next_def set_next_def view_heap_upd Option.bind_map_option split: bind_splits)

lemma view_set_prev: "map_option (view_heap m) (bset_prev p v h) = set_prev p v (view_heap m h)"
  by (cases p) (auto simp: bset_prev_def set_prev_def view_heap_upd split: bind_splits)

lemma view_unlink: "map_option (view_heap m) (bunlink e h) = unlink e (view_heap m h)"
  unfolding bunlink_def unlink_def
  by (rule map_bind [of "view_node m"], simp,
      rule map_bind [of "view_heap m"], simp add: view_set_next,
      rule map_bind [of "view_heap m"], simp add: view_set_prev,
      rule map_bind [of "view_heap m"], simp add: view_set_prev, simp add: view_set_next)

lemma view_pushFront: "map_option (view_heap m) (bpushFront e h) = pushFront e (view_heap m h)"
  unfolding bpushFront_def pushFront_def
  by (rule map_bind [of "view_node m"], simp,
      rule map_bind [of "view_heap m"], simp add: view_set_prev,
      rule map_bind [of "view_heap m"], simp add: view_set_next,
      rule map_bind [of "view_node m"], simp,
      rule map_bind [of "view_heap m"], simp add: view_set_prev, simp add: view_set_next)

lemma slices_set_next: "bset_next p v h = Some h' \<Longrightarrow> slices h' = slices h"
  by (auto simp: bset_next_def bind_eq_Some_conv) (simp add: slices_def fun_eq_iff)

lemma slices_set_prev: "bset_prev p v h = Some h' \<Longrightarrow> slices h' = slices h"
  by (auto simp: bset_prev_def bind_eq_Some_conv) (simp add: slices_def fun_eq_iff)

lemma slices_unlink: "bunlink e h = Some h' \<Longrightarrow> slices h' = slices h"
  by (auto simp: bunlink_def bind_eq_Some_conv dest!: slices_set_next slices_set_prev)

lemma slices_pushFront: "bpushFront e h = Some h' \<Longrightarrow> slices h' = slices h"
  by (auto simp: bpushFront_def bind_eq_Some_conv dest!: slices_set_next slices_set_prev)

section \<open>Arrays of the store and of its callers\<close>

definition apart :: "nat set \<Rightarrow> bstore \<Rightarrow> bool" where
  "apart C s \<longleftrightarrow> 0 < b_brk s \<and> (\<forall>x \<in> C. x < b_brk s) \<and>
     (\<forall>a v. slices (b_heap s) a = Some v \<longrightarrow> sl_arr v < b_brk s \<and>
        (sl_len v = 0 \<or> sl_off v + sl_len v \<le> length (b_mem s (sl_arr v)) \<and> sl_arr v \<notin> insert 0 C))"

text \<open>No operation of the store writes to an array that exists.\<close>

definition grown :: "bstore \<Rightarrow> bstore \<Rightarrow> bool" where
  "grown s t \<longleftrightarrow> b_brk s \<le> b_brk t \<and> (\<forall>x < b_brk s. b_mem t x = b_mem s x)"

lemma grown_refl [simp]: "grown s s"
  by (simp add: grown_def)

lemma grown_trans: "grown s t \<Longrightarrow> grown t u \<Longrightarrow> grown s u"
  by (auto simp: grown_def)

lemma apart_mono: "apart C s \<Longrightarrow> D \<subseteq> C \<Longrightarrow> apart D s"
  unfolding apart_def by blast

lemma apart_cong:
  "apart C s \<Longrightarrow> slices (b_heap t) = slices (b_heap s) \<Longrightarrow> b_mem t = b_mem s \<Longrightarrow> b_brk t = b_brk s \<Longrightarrow> apart C t"
  by (simp add: apart_def)

lemma grown_cong: "b_mem t = b_mem s \<Longrightarrow> b_brk t = b_brk s \<Longrightarrow> grown s t"
  by (simp add: grown_def)

lemma apartD:
  "apart C s \<Longrightarrow> slices (b_heap s) a = Some v \<Longrightarrow> sl_arr v < b_brk s \<and>
     (sl_len v = 0 \<or> sl_off v + sl_len v \<le> length (b_mem s (sl_arr v)) \<and> sl_arr v \<notin> insert 0 C)"
  unfolding apart_def by blast

lemma apart_brk: "apart C s \<Longrightarrow> 0 < b_brk s \<and> (\<forall>x \<in> C. x < b_brk s)"
  by (simp add: apart_def)

lemma apart_len:
  "apart C s \<Longrightarrow> slices (b_heap s) a = Some v \<Longrightarrow> length (sl_read (b_mem s) v) = sl_len v"
  using apartD [of C s a v] by (auto simp: sl_read_def)

lemma apart_size:
  assumes "apart C s" "slices h = slices (b_heap s)" "h a = Some n"
  shows "bentry_size n = entry_size (view_node (b_mem s) n)"
proof -
  have "slices (b_heap s) a = Some (bn_value n)" using assms(3) by (simp add: assms(2) [symmetric] slices_def)
  from apart_len [OF assms(1) this] show ?thesis by (simp add: bentry_size_def entry_size_def)
qed

text \<open>The arrays under a slice that an operation returned.\<close>

definition arrs :: "slice option \<Rightarrow> nat set" where
  "arrs v = sl_arr ` set_option v"

lemma read_grown: "sl_arr v < b_brk s \<Longrightarrow> grown s t \<Longrightarrow> sl_read (b_mem t) v = sl_read (b_mem s) v"
  by (simp add: grown_def sl_read_def)

lemma view_grown:
  assumes "apart C s" "grown s t"
  shows "view_heap (b_mem t) (b_heap s) = view_heap (b_mem s) (b_heap s)"
proof
  fix a
  show "view_heap (b_mem t) (b_heap s) a = view_heap (b_mem s) (b_heap s) a"
  proof (cases "b_heap s a")
    case (Some n)
    then have "slices (b_heap s) a = Some (bn_value n)" by (simp add: slices_def)
    then have "sl_arr (bn_value n) < b_brk s" using assms(1) by (auto simp: apart_def)
    then show ?thesis using Some read_grown [OF _ assms(2)] by (simp add: view_node_def)
  qed simp
qed

text \<open>Allocation: the store looks as before, and the new slice is in an array of its own.\<close>

lemma append_nil_apart:
  assumes A: "apart C s" and a: "append_nil bs s = (v, t)"
  shows "view t = view s" "apart (insert (sl_arr v) C) t" "grown s t" "sl_read (b_mem t) v = bs"
    "sl_arr v < b_brk t" "sl_off v + sl_len v \<le> length (b_mem t (sl_arr v))" "sl_len v = length bs"
    "sl_len v = 0 \<or> sl_arr v \<notin> insert 0 C" "slices (b_heap t) = slices (b_heap s)"
proof -
  have g: "grown s t" using a by (auto simp: append_nil_def grown_def split: if_splits)
  have h: "b_heap t = b_heap s" using a by (auto simp: append_nil_def split: if_splits)
  have "view_heap (b_mem t) (b_heap t) = view_heap (b_mem s) (b_heap s)" using view_grown [OF A g] h by simp
  then show "view t = view s" using a by (auto simp: append_nil_def view_def split: if_splits)
  show "grown s t" "slices (b_heap t) = slices (b_heap s)" using g h by simp_all
  show "apart (insert (sl_arr v) C) t"
  proof (cases "bs = []")
    case True
    then have "v = slice_nil" "t = s" using a by (simp_all add: append_nil_def)
    then show ?thesis using A by (simp add: apart_def slice_nil_def)
  next
    case False
    then have v: "sl_arr v = b_brk s" and t: "b_heap t = b_heap s" "b_brk t = Suc (b_brk s)"
      "b_mem t = (b_mem s)(b_brk s := bs)" using a by (auto simp: append_nil_def)
    have "sl_arr u < b_brk t \<and> (sl_len u = 0 \<or> sl_off u + sl_len u \<le> length (b_mem t (sl_arr u))
        \<and> sl_arr u \<notin> insert 0 (insert (sl_arr v) C))" if "slices (b_heap t) x = Some u" for x u
    proof -
      have "slices (b_heap s) x = Some u" using that t(1) by simp
      then have "sl_arr u < b_brk s \<and> (sl_len u = 0 \<or> sl_off u + sl_len u \<le> length (b_mem s (sl_arr u))
          \<and> sl_arr u \<notin> insert 0 C)" by (rule apartD [OF A])
      then show ?thesis using v t by simp
    qed
    moreover have "0 < b_brk t" "\<forall>x \<in> insert (sl_arr v) C. x < b_brk t"
      using A v t(2) by (auto simp: apart_def less_Suc_eq)
    ultimately show ?thesis unfolding apart_def by blast
  qed
  have new: "sl_read (b_mem t) v = bs \<and> sl_arr v < b_brk t \<and> sl_off v + sl_len v \<le> length (b_mem t (sl_arr v))
      \<and> sl_len v = length bs \<and> (sl_len v = 0 \<or> sl_arr v \<notin> insert 0 C)"
  proof (cases "bs = []")
    case True
    then have "v = slice_nil" "t = s" using a by (simp_all add: append_nil_def)
    then show ?thesis using True apart_brk [OF A] by (simp add: slice_nil_def sl_read_def)
  next
    case False
    then have "v = \<lparr>sl_arr = b_brk s, sl_off = 0, sl_len = length bs\<rparr>" "b_brk t = Suc (b_brk s)"
      "b_mem t = (b_mem s)(b_brk s := bs)" using a by (auto simp: append_nil_def)
    moreover have "b_brk s \<notin> insert 0 C" using apart_brk [OF A] by auto
    ultimately show ?thesis by (simp add: sl_read_def)
  qed
  then show "sl_read (b_mem t) v = bs" "sl_arr v < b_brk t"
    "sl_off v + sl_len v \<le> length (b_mem t (sl_arr v))" "sl_len v = length bs"
    "sl_len v = 0 \<or> sl_arr v \<notin> insert 0 C" by blast+
qed

section \<open>Steps\<close>

text \<open>An operation on stores of slices is a step of the operation on their views.\<close>

definition b_step :: "nat set \<Rightarrow> bstore \<Rightarrow> bstore option \<Rightarrow> store option \<Rightarrow> bool" where
  "b_step C s q m \<longleftrightarrow>
     (case q of None \<Rightarrow> m = None | Some t \<Rightarrow> m = Some (view t) \<and> apart C t \<and> grown s t)"

lemma b_stepI: "q = Some t \<Longrightarrow> m = Some (view t) \<Longrightarrow> apart C t \<Longrightarrow> grown s t \<Longrightarrow> b_step C s q m"
  by (simp add: b_step_def)

lemma b_step_None: "q = None \<Longrightarrow> m = None \<Longrightarrow> b_step C s q m"
  by (simp add: b_step_def)

lemma b_stepE:
  assumes "b_step C s q m"
  obtains "q = None" "m = None" | t where "q = Some t" "m = Some (view t)" "apart C t" "grown s t"
  using assms by (cases q) (auto simp: b_step_def)

lemma b_step_same: "apart C s \<Longrightarrow> b_step C s (Some s) (Some (view s))"
  by (simp add: b_step_def)

lemma b_step_bind:
  assumes "b_step C s q m" "\<And>t. q = Some t \<Longrightarrow> apart C t \<Longrightarrow> grown s t \<Longrightarrow> b_step C t (k t) (k' (view t))"
  shows "b_step C s (q \<bind> k) (m \<bind> k')"
proof (rule b_stepE [OF assms(1)])
  fix t assume t: "q = Some t" "m = Some (view t)" "apart C t" "grown s t"
  show ?thesis
    by (rule b_stepE [OF assms(2) [OF t(1,3,4)]]) (use t grown_trans in \<open>auto simp: b_step_def\<close>)
qed (simp add: b_step_def)

lemma remove_step:
  assumes A: "apart C s"
  shows "b_step C s (bremove a s) (mem_remove a (view s))"
proof (cases "bunlink a (b_heap s)")
  case None
  then have "unlink a (view_heap (b_mem s) (b_heap s)) = None" by (simp add: view_unlink [symmetric])
  with None show ?thesis by (simp add: b_step_None bremove_def mem_remove_def)
next
  case (Some h)
  then have h: "unlink a (view_heap (b_mem s) (b_heap s)) = Some (view_heap (b_mem s) h)"
    by (simp add: view_unlink [symmetric])
  have sl: "slices h = slices (b_heap s)" by (rule slices_unlink [OF Some])
  show ?thesis
  proof (cases "h a")
    case None
    with Some h show ?thesis by (simp add: b_step_None bremove_def mem_remove_def)
  next
    case (Some n)
    let ?t = "s\<lparr>b_heap := h, b_items := (b_items s)(bn_key n := None), b_count := b_count s - 1,
        b_size := b_size s - bentry_size n\<rparr>"
    have "bremove a s = Some ?t" using \<open>bunlink a (b_heap s) = Some h\<close> Some by (simp add: bremove_def)
    moreover have "mem_remove a (view s) = Some (view ?t)"
      using h Some apart_size [OF A sl Some] by (simp add: mem_remove_def view_def)
    moreover have "apart C ?t" using sl by (intro apart_cong [OF A]) simp_all
    ultimately show ?thesis by (rule b_stepI) (simp add: grown_cong)
  qed
qed

lemma evict_step: "apart C s \<Longrightarrow> b_step C s (bevict p r s) (mem_evict p r (view s))"
proof (cases p)
  case (Some a)
  assume "apart C s"
  from remove_step [OF this, of a] show ?thesis
    unfolding bevict_def mem_evict_def Some Option.bind.bind_lunit
    by (rule b_step_bind) (auto simp: b_step_def view_def intro: apart_cong grown_cong)
qed (simp add: b_step_None bevict_def mem_evict_def)

lemma evict_loop_down: "bevict_loop sz s = Some t \<Longrightarrow> apart C s \<longrightarrow>
    evict_loop sz (view s) = Some (view t) \<and> apart C t \<and> grown s t"
proof (induction rule: bevict_loop.raw_induct [rotated, consumes 1, case_names 1])
  case (1 loop sz s t)
  show ?case
  proof (intro impI, cases "b_count s \<ge> b_maxEntries s \<or> b_size s + sz > b_maxBytes s")
    assume A: "apart C s" and True: "b_count s \<ge> b_maxEntries s \<or> b_size s + sz > b_maxBytes s"
    then obtain hd s1 where s1: "b_heap s head = Some hd" "bevict (bn_prev hd) EvictCapacity s = Some s1"
      "loop sz s1 = Some t" using 1(2) by (auto simp: bind_eq_Some_conv)
    have v: "mem_evict (bn_prev hd) EvictCapacity (view s) = Some (view s1)" "apart C s1" "grown s s1"
      using evict_step [OF A, of "bn_prev hd" EvictCapacity] s1(2) by (simp_all add: b_step_def)
    have "evict_loop sz (view s) = evict_loop sz (view s1)"
      using True s1(1) v(1) by (subst evict_loop.simps) simp
    with 1(1) [OF s1(3)] v(2,3) show "evict_loop sz (view s) = Some (view t) \<and> apart C t \<and> grown s t"
      using grown_trans by auto
  next
    assume A: "apart C s" and False: "\<not> (b_count s \<ge> b_maxEntries s \<or> b_size s + sz > b_maxBytes s)"
    then have "evict_loop sz (view s) = Some (view s)" by (subst evict_loop.simps) simp
    with A False 1(2) show "evict_loop sz (view s) = Some (view t) \<and> apart C t \<and> grown s t" by simp
  qed
qed

lemma evict_loop_up: "evict_loop sz v = Some u \<Longrightarrow> \<forall>s. v = view s \<longrightarrow> apart C s \<longrightarrow> (\<exists>t. bevict_loop sz s = Some t)"
proof (induction rule: evict_loop.raw_induct [rotated, consumes 1, case_names 1])
  case (1 loop sz v u)
  show ?case
  proof (intro allI impI)
    fix s assume v: "v = view s" and A: "apart C s"
    show "\<exists>t. bevict_loop sz s = Some t"
    proof (cases "b_count s \<ge> b_maxEntries s \<or> b_size s + sz > b_maxBytes s")
      case True
      then obtain hd v1 where v1: "b_heap s head = Some hd" "mem_evict (bn_prev hd) EvictCapacity (view s) = Some v1"
        "loop sz v1 = Some u" using 1(2) v by (auto simp: bind_eq_Some_conv)
      obtain s1 where s1: "bevict (bn_prev hd) EvictCapacity s = Some s1" "v1 = view s1" "apart C s1"
        by (rule b_stepE [OF evict_step [OF A, of "bn_prev hd" EvictCapacity]]) (use v1(2) in auto)
      have "bevict_loop sz s = bevict_loop sz s1" using True v1(1) s1(1) by (subst bevict_loop.simps) simp
      then show ?thesis using 1(1) [OF v1(3)] s1(2,3) by simp
    next
      case False
      then show ?thesis by (subst bevict_loop.simps) simp
    qed
  qed
qed

lemma evict_loop_step:
  assumes "apart C s"
  shows "b_step C s (bevict_loop sz s) (evict_loop sz (view s))"
proof (cases "bevict_loop sz s")
  case None
  then have "evict_loop sz (view s) = None" using evict_loop_up [of sz "view s" _ C] assms
    by (metis option.distinct(1) option.exhaust)
  with None show ?thesis by (rule b_step_None)
qed (use evict_loop_down [of sz s _ C] assms in \<open>auto simp: b_step_def\<close>)

lemma pushFront_step:
  assumes A: "apart C s" and f: "\<And>h. slices h = slices (b_heap s) \<Longrightarrow>
    slices (b_heap (f h)) = slices h \<and> b_mem (f h) = b_mem s \<and> b_brk (f h) = b_brk s \<and> view (f h) = g (view_heap (b_mem s) h)"
  shows "b_step C s (bpushFront a (b_heap s) \<bind> (\<lambda>h. Some (f h)))
    (pushFront a (view_heap (b_mem s) (b_heap s)) \<bind> (\<lambda>h. Some (g h)))"
proof (cases "bpushFront a (b_heap s)")
  case None
  then show ?thesis by (simp add: b_step_None view_pushFront [symmetric])
next
  case (Some h)
  have sl: "slices h = slices (b_heap s)" by (rule slices_pushFront [OF Some])
  show ?thesis
    by (rule b_stepI [of _ "f h"])
      (use Some f [OF sl] sl in \<open>auto simp: view_pushFront [symmetric] intro: apart_cong [OF A] grown_cong\<close>)
qed

text \<open>A new entry may hold any slice in an array that no caller knows.\<close>

lemma setLocked_step:
  assumes A: "apart C s"
  shows "b_step C s (bsetLocked a s) (setLocked a (view s))"
proof (cases "b_heap s a")
  case (Some n)
  have sz: "bentry_size n = entry_size (view_node (b_mem s) n)" by (rule apart_size [OF A refl Some])
  have old: "b_step C s (case b_items s (bn_key n) of Some old \<Rightarrow> bremove old s | None \<Rightarrow> Some s)
      (case b_items s (bn_key n) of Some old \<Rightarrow> mem_remove old (view s) | None \<Rightarrow> Some (view s))"
    using remove_step [OF A] b_step_same [OF A] by (simp split: option.split)
  have rest: "b_step C t
     (if bentry_size n > b_maxBytes t then Some t
      else do {
        s \<leftarrow> bevict_loop (bentry_size n) t;
        h \<leftarrow> bpushFront a (b_heap s);
        Some (s\<lparr>b_items := (b_items s)(bn_key n \<mapsto> a), b_heap := h,
                b_count := b_count s + 1, b_size := b_size s + bentry_size n\<rparr>) })
     (if bentry_size n > maxBytes (view t) then Some (view t)
      else do {
        s \<leftarrow> evict_loop (bentry_size n) (view t);
        h \<leftarrow> pushFront a (m_heap s);
        Some (s\<lparr>m_items := (m_items s)(bn_key n \<mapsto> a), m_heap := h,
                m_count := m_count s + 1, m_size := m_size s + bentry_size n\<rparr>) })"
    if t: "apart C t" for t
  proof (cases "bentry_size n > b_maxBytes t")
    case True
    then show ?thesis using b_step_same [OF t] by simp
  next
    case False
    show ?thesis unfolding view_simps if_not_P [OF False]
    proof (rule b_step_bind [OF evict_loop_step [OF t]])
      fix u assume u: "apart C u"
      show "b_step C u
        (do { h \<leftarrow> bpushFront a (b_heap u);
           Some (u\<lparr>b_items := (b_items u)(bn_key n \<mapsto> a), b_heap := h,
             b_count := b_count u + 1, b_size := b_size u + bentry_size n\<rparr>) })
        (do { h \<leftarrow> pushFront a (m_heap (view u));
           Some ((view u)\<lparr>m_items := (m_items (view u))(bn_key n \<mapsto> a), m_heap := h,
             m_count := m_count (view u) + 1, m_size := m_size (view u) + bentry_size n\<rparr>) })"
        unfolding view_simps by (rule pushFront_step [OF u]) (simp add: view_def)
    qed
  qed
  show ?thesis
    unfolding bsetLocked_def setLocked_def view_simps view_heap_app Some option.map Option.bind.bind_lunit
      view_node_simps sz [symmetric]
    by (rule b_step_bind [OF old]) (use rest in simp)
qed (simp add: b_step_None bsetLocked_def setLocked_def)

section \<open>Results\<close>

text \<open>The same with a result: \<open>rd\<close> reads its slices, and \<open>own\<close> gives their arrays, which are the caller's now.\<close>

definition b_sim :: "nat set \<Rightarrow> bstore \<Rightarrow> (arrays \<Rightarrow> 'a \<Rightarrow> 'b) \<Rightarrow> ('a \<Rightarrow> nat set) \<Rightarrow> ('a \<times> bstore) option
    \<Rightarrow> ('b \<times> store) option \<Rightarrow> bool" where
  "b_sim C s rd own q m \<longleftrightarrow>
     (case q of None \<Rightarrow> m = None
      | Some (r, t) \<Rightarrow> m = Some (rd (b_mem t) r, view t) \<and> apart (C \<union> own r) t \<and> grown s t)"

abbreviation b_plain :: "nat set \<Rightarrow> bstore \<Rightarrow> ('a \<times> bstore) option \<Rightarrow> ('a \<times> store) option \<Rightarrow> bool" where
  "b_plain C s \<equiv> b_sim C s (\<lambda>_ r. r) (\<lambda>_. {})"

abbreviation read_opt :: "arrays \<Rightarrow> slice option \<Rightarrow> bytes option" where
  "read_opt m \<equiv> map_option (sl_read m)"

lemma b_simI:
  "q = Some (r, t) \<Longrightarrow> m = Some (rd (b_mem t) r, view t) \<Longrightarrow> apart (C \<union> own r) t \<Longrightarrow> grown s t \<Longrightarrow> b_sim C s rd own q m"
  by (simp add: b_sim_def)

lemma b_simE:
  assumes "b_sim C s rd own q m"
  obtains "q = None" "m = None"
  | r t where "q = Some (r, t)" "m = Some (rd (b_mem t) r, view t)" "apart (C \<union> own r) t" "grown s t"
  using assms by (cases q) (auto simp: b_sim_def)

lemma b_sim_grown: "b_sim C t rd own q m \<Longrightarrow> grown s t \<Longrightarrow> b_sim C s rd own q m"
  by (auto simp: b_sim_def split: option.splits intro: grown_trans)

lemma step_sim:
  assumes "b_step C s q m" "\<And>t. q = Some t \<Longrightarrow> apart C t \<Longrightarrow> b_sim C t rd own (k t) (k' (view t))"
  shows "b_sim C s rd own (q \<bind> k) (m \<bind> k')"
proof (rule b_stepE [OF assms(1)])
  fix t assume t: "q = Some t" "m = Some (view t)" "apart C t" "grown s t"
  with b_sim_grown [OF assms(2) [OF t(1,3)] t(4)] show ?thesis by simp
qed (simp add: b_sim_def)

lemma plain_sim:
  assumes "b_plain C s q m" "\<And>r t. q = Some (r, t) \<Longrightarrow> apart C t \<Longrightarrow> b_sim C t rd own (k (r, t)) (k' (r, view t))"
  shows "b_sim C s rd own (q \<bind> k) (m \<bind> k')"
proof (rule b_simE [OF assms(1)])
  fix r t assume t: "q = Some (r, t)" "m = Some (r, view t)" "apart (C \<union> {}) t" "grown s t"
  with b_sim_grown [OF assms(2) [OF t(1)] t(4)] show ?thesis by simp
qed (simp add: b_sim_def)

section \<open>The clock, new entries, reports\<close>

lemma view_now: "mem_now (view s) = (fst (bmem_now s), view (snd (bmem_now s)))"
  by (simp add: mem_now_def bmem_now_def view_def)

lemma apart_now: "apart C s \<Longrightarrow> apart C (snd (bmem_now s)) \<and> grown s (snd (bmem_now s))"
  by (auto simp: bmem_now_def intro: apart_cong grown_cong)

lemma view_report: "reportEvictions (view s) = view (breportEvictions s)"
  by (simp add: reportEvictions_def breportEvictions_def view_def)

lemma apart_report: "apart C s \<Longrightarrow> apart C (breportEvictions s) \<and> b_mem (breportEvictions s) = b_mem s
    \<and> b_brk (breportEvictions s) = b_brk s"
  by (auto simp: breportEvictions_def intro: apart_cong)

lemma view_entry: "new_entry k (sl_read (b_mem s) v) x (view s) = (fst (bnew_entry k v x s), view (snd (bnew_entry k v x s)))"
  by (simp add: new_entry_def bnew_entry_def view_def view_heap_upd view_node_def)

lemma apart_entry:
  assumes A: "apart C s" and v: "sl_arr v < b_brk s" "sl_off v + sl_len v \<le> length (b_mem s (sl_arr v))"
    "sl_len v = 0 \<or> sl_arr v \<notin> insert 0 C"
  shows "apart C (snd (bnew_entry k v x s)) \<and> grown s (snd (bnew_entry k v x s))"
proof -
  let ?t = "snd (bnew_entry k v x s)"
  have t: "b_mem ?t = b_mem s" "b_brk ?t = b_brk s" "slices (b_heap ?t) = (slices (b_heap s))(b_fresh s \<mapsto> v)"
    by (auto simp: bnew_entry_def slices_def fun_eq_iff)
  have "sl_arr u < b_brk s \<and> (sl_len u = 0 \<or> sl_off u + sl_len u \<le> length (b_mem s (sl_arr u)) \<and> sl_arr u \<notin> insert 0 C)"
    if "slices (b_heap ?t) a = Some u" for a u
    using that v apartD [OF A, of a u] unfolding t(3) by (cases "a = b_fresh s") auto
  then show ?thesis using apart_brk [OF A] t(1,2) by (simp add: apart_def grown_cong)
qed

text \<open>A write of fresh bytes: what \<open>Set\<close>, \<open>Bump\<close> and \<open>counterLocked\<close> do.\<close>

lemma write_step:
  assumes A: "apart C s" and a: "append_nil bs s = (v, s1)"
  shows "b_step C s
      (let (now, s) = bmem_now s1; (a, s) = bnew_entry k v (now + ttl) s in bsetLocked a s)
      (let (now, s) = mem_now (view s); (a, s) = new_entry k bs (now + ttl) s in setLocked a s)"
proof -
  note N = append_nil_apart [OF A a]
  obtain now s2 where n: "bmem_now s1 = (now, s2)" by (cases "bmem_now s1")
  have s1: "apart C s1" by (rule apart_mono [OF N(2)]) blast
  have s2: "apart C s2" "grown s1 s2" "b_mem s2 = b_mem s1" "b_brk s2 = b_brk s1"
    using apart_now [OF s1] n by (auto simp: bmem_now_def)
  obtain a s3 where e: "bnew_entry k v (now + ttl) s2 = (a, s3)" by (cases "bnew_entry k v (now + ttl) s2")
  have s3: "apart C s3" "grown s2 s3"
    using apart_entry [OF s2(1), of v k "now + ttl"] N(5,6,8) s2(3,4) e by simp_all
  have "mem_now (view s) = (now, view s2)" using view_now [of s1] N(1) n by simp
  moreover have "new_entry k bs (now + ttl) (view s2) = (a, view s3)"
    using view_entry [of k s2 v "now + ttl"] N(4) s2(3) e by simp
  moreover have "grown s s3" using N(3) s2(2) s3(2) grown_trans by blast
  moreover have "b_step C s (bsetLocked a s3) (setLocked a (view s3))"
    by (rule b_stepE [OF setLocked_step [OF s3(1), of a]])
      (use \<open>grown s s3\<close> grown_trans in \<open>auto simp: b_step_def\<close>)
  ultimately show ?thesis using n e by simp
qed

section \<open>getLocked\<close>

lemma getLocked_bytes:
  assumes A: "apart C s"
  shows "b_sim C s read_opt arrs (bgetLocked key s) (getLocked key (view s))"
proof (cases "b_items s key")
  case None
  then show ?thesis using A by (simp add: b_sim_def bgetLocked_def getLocked_def arrs_def)
next
  case it: (Some a)
  show ?thesis
  proof (cases "b_heap s a")
    case None
    with it show ?thesis by (simp add: b_sim_def bgetLocked_def getLocked_def)
  next
    case n: (Some n)
    obtain now s1 where now: "bmem_now s = (now, s1)" by (cases "bmem_now s")
    have s1: "apart C s1" "grown s s1" "b_heap s1 = b_heap s" "b_mem s1 = b_mem s"
      using apart_now [OF A] now by (auto simp: bmem_now_def)
    have vn: "mem_now (view s) = (now, view s1)" using view_now [of s] now by simp
    show ?thesis
    proof (cases "now < bn_expires n")
      case False
      have "b_sim C s1 read_opt arrs
          (do { s \<leftarrow> bevict (Some a) EvictExpired s1; Some (None, s) })
          (do { s \<leftarrow> mem_evict (Some a) EvictExpired (view s1); Some (None, s) })"
        by (rule step_sim [OF evict_step [OF s1(1)]]) (simp add: b_sim_def arrs_def)
      from b_sim_grown [OF this s1(2)] show ?thesis
        using it n now vn False by (simp add: bgetLocked_def getLocked_def)
    next
      case True
      show ?thesis
      proof (cases "bunlink a (b_heap s) \<bind> bpushFront a")
        case None
        then have "unlink a (view_heap (b_mem s) (b_heap s)) \<bind> pushFront a = None"
          by (cases "bunlink a (b_heap s)") (auto simp: view_unlink [symmetric] view_pushFront [symmetric])
        with None it n now vn True s1 show ?thesis
          by (auto simp: b_sim_def bgetLocked_def getLocked_def bind_eq_None_conv split: bind_splits)
      next
        case (Some h)
        then obtain h1 where h: "bunlink a (b_heap s) = Some h1" "bpushFront a h1 = Some h"
          by (auto simp: bind_eq_Some_conv)
        have vh: "unlink a (view_heap (b_mem s) (b_heap s)) = Some (view_heap (b_mem s) h1)"
          "pushFront a (view_heap (b_mem s) h1) = Some (view_heap (b_mem s) h)"
          using h by (simp_all add: view_unlink [symmetric] view_pushFront [symmetric])
        let ?s = "s1\<lparr>b_heap := h\<rparr>"
        have sl: "slices h = slices (b_heap s)" using slices_unlink [OF h(1)] slices_pushFront [OF h(2)] by simp
        have A2: "apart C ?s" using sl s1(3) by (intro apart_cong [OF s1(1)]) simp_all
        obtain v t where c: "clone (bn_value n) ?s = (v, t)" by (cases "clone (bn_value n) ?s")
        note N = append_nil_apart [OF A2 c [unfolded clone_def]]
        have "bgetLocked key s = Some (Some v, t)" using it n now True h s1(3) c by (simp add: bgetLocked_def)
        moreover have "getLocked key (view s) = Some (Some (sl_read (b_mem s) (bn_value n)), (view s1)\<lparr>m_heap := view_heap (b_mem s) h\<rparr>)"
          using it n vn True vh s1(3,4) by (simp add: getLocked_def)
        moreover have "(view s1)\<lparr>m_heap := view_heap (b_mem s) h\<rparr> = view t"
          unfolding N(1) using s1(4) by (simp add: view_def)
        moreover have "grown s t" using s1(2) N(3) by (auto simp: grown_def)
        ultimately show ?thesis using N(2,4) s1(4) by (simp add: b_sim_def arrs_def)
      qed
    qed
  qed
qed

section \<open>Counters\<close>

lemma set_counter_step:
  assumes A: "apart C s"
  shows "b_step C s (bset_counter gk g ttl s)
      (let (now, s) = mem_now (view s); (a, s) = new_entry gk (be64 g) (now + ttl) s in setLocked a s)"
proof -
  obtain v s1 where a: "append_nil (be64 g) s = (v, s1)" by (cases "append_nil (be64 g) s")
  show ?thesis using write_step [OF A a, of gk ttl] by (simp add: bset_counter_def a)
qed

lemma clone_len: "length (sl_read (b_mem (snd (clone u s))) (fst (clone u s))) = sl_len (fst (clone u s))"
  by (simp add: clone_def append_nil_def slice_nil_def sl_read_def)

lemma get_len: "bgetLocked gk s = Some (Some v, t) \<Longrightarrow> length (sl_read (b_mem t) v) = sl_len v"
  by (auto simp: bgetLocked_def Let_def split_beta bind_eq_Some_conv clone_len split: option.splits if_splits)

lemma mem_write_bind:
  "(do { let (now, s) = mem_now s; let (a, s) = new_entry k b (now + ttl) s; s \<leftarrow> setLocked a s; f s })
     = (let (now, s) = mem_now s; (a, s) = new_entry k b (now + ttl) s in setLocked a s) \<bind> f"
  by (simp add: split_beta Let_def)

lemma view_draw: "view (s\<lparr>b_draw := n\<rparr>) = (view s)\<lparr>m_draw := n\<rparr>"
  by (simp add: view_def)

lemma apart_draw: "apart C s \<Longrightarrow> apart C (s\<lparr>b_draw := n\<rparr>) \<and> grown s (s\<lparr>b_draw := n\<rparr>)"
  by (auto intro: apart_cong grown_cong)

lemma create_bytes:
  assumes A: "apart C s"
  shows "b_plain C s
      (let drawn = b_rand s (b_draw s); s = s\<lparr>b_draw := Suc (b_draw s)\<rparr> in
       case NewGeneration drawn of
         Inl err \<Rightarrow> Some (Inl err, s)
       | Inr g \<Rightarrow> do { s \<leftarrow> bset_counter gk g ttl s; Some (Inr g, s) })
      (let drawn = m_rand (view s) (m_draw (view s)); s = (view s)\<lparr>m_draw := Suc (m_draw (view s))\<rparr> in
       case NewGeneration drawn of
         Inl err \<Rightarrow> Some (Inl err, s)
       | Inr g \<Rightarrow> do {
           let (now, s) = mem_now s;
           let (a, s) = new_entry gk (be64 g) (now + ttl) s;
           s \<leftarrow> setLocked a s;
           Some (Inr g, s) })"
proof -
  define s1 where "s1 = s\<lparr>b_draw := Suc (b_draw s)\<rparr>"
  have s1: "apart C s1" "grown s s1" "(view s)\<lparr>m_draw := Suc (b_draw s)\<rparr> = view s1"
    using apart_draw [OF A] by (simp_all add: s1_def view_draw)
  have body: "b_plain C s1 (do { s \<leftarrow> bset_counter gk g ttl s1; Some (Inr g, s) })
      (do { let (now, s) = mem_now (view s1); let (a, s) = new_entry gk (be64 g) (now + ttl) s;
            s \<leftarrow> setLocked a s; Some (Inr g, s) })" for g
    unfolding mem_write_bind by (rule step_sim [OF set_counter_step [OF s1(1)]]) (simp add: b_sim_def)
  show ?thesis
  proof (cases "NewGeneration (b_rand s (b_draw s))")
    case (Inl err)
    with s1 show ?thesis by (simp add: s1_def [symmetric] b_sim_def)
  next
    case (Inr g)
    with b_sim_grown [OF body s1(2), of g] s1(3) show ?thesis
      by (simp add: s1_def [symmetric])
  qed
qed

lemma counterLocked_bytes:
  assumes A: "apart C s"
  shows "b_plain C s (bcounterLocked gk ttl s) (counterLocked gk ttl (view s))"
proof (rule b_simE [OF getLocked_bytes [OF A, of gk]])
  assume "bgetLocked gk s = None" "getLocked gk (view s) = None"
  then show ?thesis by (simp add: b_sim_def bcounterLocked_def counterLocked_def)
next
  fix v t
  assume r: "bgetLocked gk s = Some (v, t)" "getLocked gk (view s) = Some (read_opt (b_mem t) v, view t)"
    "apart (C \<union> arrs v) t" "grown s t"
  have t: "apart C t" by (rule apart_mono [OF r(3)]) blast
  note new = b_sim_grown [OF create_bytes [OF t, of gk ttl] r(4)]
  show ?thesis
  proof (cases v)
    case None
    with r(1,2) new show ?thesis unfolding bcounterLocked_def counterLocked_def by simp
  next
    case (Some b)
    have "length (sl_read (b_mem t) b) = sl_len b"
      using get_len r(1) Some by simp
    then show ?thesis
      using r t new unfolding bcounterLocked_def counterLocked_def
      by (cases "sl_len b = 8") (simp_all add: Some b_sim_def)
  qed
qed

lemma counters_bytes: "apart C s \<Longrightarrow> b_plain C s (bcounters gks ttl s) (counters gks ttl (view s))"
proof (induction gks arbitrary: s)
  case Nil
  then show ?case by (simp add: b_sim_def)
next
  case (Cons gk gks)
  have rest: "b_plain C t
      (case g of Inl err \<Rightarrow> Some (Inl err, t)
       | Inr g \<Rightarrow> do { (gs, s) \<leftarrow> bcounters gks ttl t; Some (map_sum id (\<lambda>gs. g # gs) gs, s) })
      (case g of Inl err \<Rightarrow> Some (Inl err, view t)
       | Inr g \<Rightarrow> do { (gs, s) \<leftarrow> counters gks ttl (view t); Some (map_sum id (\<lambda>gs. g # gs) gs, s) })"
    if t: "apart C t" for g t
  proof (cases g)
    case (Inr n)
    show ?thesis unfolding Inr sum.case
      by (rule plain_sim [OF Cons.IH [OF t]]) (simp add: b_sim_def)
  qed (simp add: b_sim_def t)
  show ?case unfolding bcounters.simps counters.simps
    by (rule plain_sim [OF counterLocked_bytes [OF Cons.prems]]) (use rest in simp)
qed

lemma bump_loop_bytes: "apart C s \<Longrightarrow> b_plain C s (bbump_loop gks ttl s) (bump_loop gks ttl (view s))"
proof (induction gks arbitrary: s)
  case Nil
  then show ?case by (simp add: b_sim_def)
next
  case (Cons gk gks)
  have rest: "b_plain C t
      (case g of Inl err \<Rightarrow> Some (Some err, t)
       | Inr g \<Rightarrow> do { s \<leftarrow> bset_counter gk (g + 1) ttl t; bbump_loop gks ttl s })
      (case g of Inl err \<Rightarrow> Some (Some err, view t)
       | Inr g \<Rightarrow> do {
           let (now, s) = mem_now (view t);
           let (a, s) = new_entry gk (be64 (g + 1)) (now + ttl) s;
           s \<leftarrow> setLocked a s;
           bump_loop gks ttl s })"
    if t: "apart C t" for g t
  proof (cases g)
    case (Inr n)
    show ?thesis unfolding Inr sum.case mem_write_bind
      by (rule step_sim [OF set_counter_step [OF t]]) (rule Cons.IH)
  qed (simp add: b_sim_def t)
  show ?case unfolding bbump_loop.simps bump_loop.simps
    by (rule plain_sim [OF counterLocked_bytes [OF Cons.prems]]) (use rest in simp)
qed

section \<open>The exported methods\<close>

abbreviation get_own :: "slice option result \<Rightarrow> nat set" where
  "get_own \<equiv> case_sum (\<lambda>_. {}) arrs"

abbreviation tagged_own :: "(slice option \<times> u64 list) result \<Rightarrow> nat set" where
  "tagged_own \<equiv> case_sum (\<lambda>_. {}) (\<lambda>(v, _). arrs v)"

lemma report_sim:
  "apart (C \<union> own r) t \<Longrightarrow> b_sim C t rd own (Some (r, breportEvictions t)) (Some (rd (b_mem t) r, reportEvictions (view t)))"
  using apart_report [of "C \<union> own r" t] by (simp add: b_sim_def view_report grown_cong)

lemma report_plain:
  "apart C t \<Longrightarrow> b_plain C t (Some (r, breportEvictions t)) (Some (r, reportEvictions (view t)))"
  using report_sim [of C "\<lambda>_. {}" r t "\<lambda>_ r. r"] by simp

lemma Get_bytes:
  assumes A: "apart C s"
  shows "b_sim C s (\<lambda>m. map_sum id (read_opt m)) get_own (bmem_Get e k s) (mem_Get e k (view s))"
proof (cases e)
  case None
  show ?thesis
  proof (rule b_simE [OF getLocked_bytes [OF A, of k]])
    fix v t
    assume r: "bgetLocked k s = Some (v, t)" "getLocked k (view s) = Some (read_opt (b_mem t) v, view t)"
      "apart (C \<union> arrs v) t" "grown s t"
    have "b_sim C t (\<lambda>m. map_sum id (read_opt m)) get_own
        (Some (Inr v, breportEvictions t)) (Some (Inr (read_opt (b_mem t) v), reportEvictions (view t)))"
      using report_sim [of C get_own "Inr v" t "\<lambda>m. map_sum id (read_opt m)"] r(3) by simp
    from b_sim_grown [OF this r(4)] show ?thesis using None r(1,2) by (simp add: bmem_Get_def mem_Get_def)
  qed (simp add: None b_sim_def bmem_Get_def mem_Get_def)
qed (simp add: b_sim_def bmem_Get_def mem_Get_def A)

lemma GetTagged_bytes:
  assumes A: "apart C s"
  shows "b_sim C s (\<lambda>m. map_sum id (apfst (read_opt m))) tagged_own
    (bmem_GetTagged e k gks ttl s) (mem_GetTagged e k gks ttl (view s))"
proof (cases "e = None \<and> ttl > 0")
  case True
  show ?thesis
  proof (rule b_simE [OF getLocked_bytes [OF A, of k]])
    fix v t
    assume r: "bgetLocked k s = Some (v, t)" "getLocked k (view s) = Some (read_opt (b_mem t) v, view t)"
      "apart (C \<union> arrs v) t" "grown s t"
    show ?thesis
    proof (rule b_simE [OF counters_bytes [OF r(3), of gks ttl]])
      fix g u
      assume c: "bcounters gks ttl t = Some (g, u)" "counters gks ttl (view t) = Some (g, view u)"
        "apart (C \<union> arrs v \<union> {}) u" "grown t u"
      have "\<forall>x \<in> arrs v. x < b_brk t" using apart_brk [OF r(3)] by blast
      then have same: "read_opt (b_mem u) v = read_opt (b_mem t) v"
        using read_grown [OF _ c(4)] by (cases v) (simp_all add: arrs_def)
      let ?r = "map_sum id (\<lambda>gs. (v, gs)) g"
      have "apart (C \<union> tagged_own ?r) u"
        by (rule apart_mono [OF c(3)]) (auto split: sum.split simp: map_sum_def)
      from report_sim [of C tagged_own ?r u "\<lambda>m. map_sum id (apfst (read_opt m))", OF this]
      have "b_sim C u (\<lambda>m. map_sum id (apfst (read_opt m))) tagged_own (Some (?r, breportEvictions u))
          (Some (map_sum id (\<lambda>gs. (read_opt (b_mem t) v, gs)) g, reportEvictions (view u)))"
        using same by (cases g) simp_all
      from b_sim_grown [OF this grown_trans [OF r(4) c(4)]] show ?thesis
        using True r(1,2) c(1,2) by (simp add: bmem_GetTagged_def mem_GetTagged_def)
    qed (use True r in \<open>simp add: b_sim_def bmem_GetTagged_def mem_GetTagged_def\<close>)
  qed (use True in \<open>simp add: b_sim_def bmem_GetTagged_def mem_GetTagged_def\<close>)
qed (auto simp: b_sim_def bmem_GetTagged_def mem_GetTagged_def A split: option.split)

lemma Bump_bytes:
  assumes A: "apart C s"
  shows "b_plain C s (bmem_Bump e gks ttl s) (mem_Bump e gks ttl (view s))"
proof (cases "e = None \<and> ttl > 0")
  case True
  have "b_plain C s
      (do { (err, s) \<leftarrow> bbump_loop gks ttl s; Some (err, breportEvictions s) })
      (do { (err, s) \<leftarrow> bump_loop gks ttl (view s); Some (err, reportEvictions s) })"
    by (rule plain_sim [OF bump_loop_bytes [OF A]]) (simp add: report_plain)
  with True show ?thesis by (simp add: bmem_Bump_def mem_Bump_def)
qed (auto simp: b_sim_def bmem_Bump_def mem_Bump_def A split: option.split)

lemma Set_bytes:
  assumes A: "apart C s"
  shows "b_plain C s (bmem_Set e k v ttl s) (mem_Set e k (sl_read (b_mem s) v) ttl (view s))"
proof (cases "e = None \<and> ttl > 0")
  case True
  obtain u s1 where c: "clone v s = (u, s1)" by (cases "clone v s")
  define bs where "bs = sl_read (b_mem s) v"
  have "b_plain C s
      ((let (now, s) = bmem_now s1; (a, s) = bnew_entry k u (now + ttl) s in bsetLocked a s)
         \<bind> (\<lambda>s. Some (None, breportEvictions s)))
      ((let (now, s) = mem_now (view s); (a, s) = new_entry k bs (now + ttl) s in setLocked a s)
         \<bind> (\<lambda>s. Some (None, reportEvictions s)))"
    by (rule step_sim [OF write_step [OF A c [unfolded clone_def bs_def [symmetric]]]]) (simp add: report_plain)
  with True c show ?thesis by (simp add: bs_def) (simp add: bmem_Set_def mem_Set_def split_beta Let_def)
qed (auto simp: b_sim_def bmem_Set_def mem_Set_def A split: option.split)

lemma Delete_bytes:
  assumes A: "apart C s"
  shows "b_plain C s (bmem_Delete e k s) (mem_Delete e k (view s))"
proof (cases "e = None \<and> b_items s k \<noteq> None")
  case True
  then obtain a where a: "b_items s k = Some a" by blast
  have "b_plain C s (do { s \<leftarrow> bremove a s; Some (None, s) }) (do { s \<leftarrow> mem_remove a (view s); Some (None, s) })"
    by (rule step_sim [OF remove_step [OF A]]) (simp add: b_sim_def)
  with True a show ?thesis by (simp add: bmem_Delete_def mem_Delete_def)
qed (auto simp: b_sim_def bmem_Delete_def mem_Delete_def A split: option.split)

end
