(* ===== verification/Conformance.thy ===== *)
theory Conformance
  imports Cache
begin

text \<open>
  \<open>cisterntest/\<close>: the conformance suites for stores and tag stores, as programs on any implementation.  A
  test is a function from the state of the outside to its verdict: \<open>Some True\<close> when it passes, \<open>Some False\<close>
  when it fails, and \<open>None\<close> when it never ends.  Each helper takes the rest of the test as its last argument,
  and the first failure is the verdict: what a test does after \<open>t.Error\<close> cannot change it.  The two
  tests of byte sharing are in \<open>BytesConforms\<close>, as values have no identity here.
\<close>

section \<open>What a test uses\<close>

text \<open>The store under test, a context that is cancelled, \<open>time.Now\<close> and \<open>time.Sleep\<close>.\<close>

record 'x lab =
  lb_Store :: "'x Store"
  lb_TagStore :: "'x TagStore"
  lb_cancelled :: ctx
  lb_Now :: "'x \<Rightarrow> time \<times> 'x"
  lb_Sleep :: "duration \<Rightarrow> 'x \<Rightarrow> 'x"

type_synonym 'x test = "'x \<Rightarrow> bool option"

definition pass :: "'x test" where "pass x = Some True"

definition fail :: "'x test" where "fail x = Some False"

text \<open>A condition the test requires.\<close>

definition require :: "bool \<Rightarrow> 'x test \<Rightarrow> 'x test" where
  "require b k = (if b then k else fail)"

definition ms :: duration where "ms = 1000000"

definition Second :: duration where "Second = 1000 * ms"

definition Minute :: duration where "Minute = 60 * Second"

section \<open>cisterntest.go\<close>

definition keyA :: string where "keyA = ''cistern:v1:cisterntest:-:k:user:42:list''"

definition keyB :: string where "keyB = ''cistern:v1:cisterntest:-:k:user:43:list''"

definition t_set :: "'x lab \<Rightarrow> string \<Rightarrow> bytes \<Rightarrow> duration \<Rightarrow> 'x test \<Rightarrow> 'x test" where
  "t_set lb key v ttl k x =
     (case st_Set (lb_Store lb) Background key v ttl x of (err, x) \<Rightarrow> require (err = None) k x)"

definition wantValue :: "'x lab \<Rightarrow> string \<Rightarrow> bytes \<Rightarrow> 'x test \<Rightarrow> 'x test" where
  "wantValue lb key want k x =
     (case st_Get (lb_Store lb) Background key x of (r, x) \<Rightarrow> require (r = Inr (Some want)) k x)"

definition wantMiss :: "'x lab \<Rightarrow> 'x test \<Rightarrow> 'x test" where
  "wantMiss lb k x =
     (case st_Get (lb_Store lb) Background keyA x of (r, x) \<Rightarrow> require (r = Inr None) k x)"

definition t_delete :: "'x lab \<Rightarrow> string \<Rightarrow> 'x test \<Rightarrow> 'x test" where
  "t_delete lb key k x =
     (case st_Delete (lb_Store lb) Background key x of (err, x) \<Rightarrow> require (err = None) k x)"

definition missingKeyIsAMiss :: "'x lab \<Rightarrow> 'x test" where
  "missingKeyIsAMiss lb = wantMiss lb pass"

definition setThenGet :: "'x lab \<Rightarrow> 'x test" where
  "setThenGet lb =
     t_set lb keyA (bytes_of ''value'') Minute (
     wantValue lb keyA (bytes_of ''value'') pass)"

definition setReplaces :: "'x lab \<Rightarrow> 'x test" where
  "setReplaces lb =
     t_set lb keyA (bytes_of ''old'') Minute (
     t_set lb keyA (bytes_of ''new'') Minute (
     wantValue lb keyA (bytes_of ''new'') pass))"

definition deleteRemoves :: "'x lab \<Rightarrow> 'x test" where
  "deleteRemoves lb =
     t_set lb keyA (bytes_of ''value'') Minute (
     t_delete lb keyA (
     wantMiss lb (
     t_delete lb keyA pass)))"

definition keysAreIndependent :: "'x lab \<Rightarrow> 'x test" where
  "keysAreIndependent lb =
     t_set lb keyA (bytes_of ''a'') Minute (
     t_set lb keyB (bytes_of ''b'') Minute (
     t_delete lb keyA (
     wantMiss lb (
     wantValue lb keyB (bytes_of ''b'') pass))))"

text \<open>The keys in UTF-8: one with accents, a digest, and one with spaces.\<close>

definition shapes :: "string list" where
  "shapes =
     [''cistern:v1:cisterntest:-:k:tarefa:a'' @ [CHR 0xC3, CHR 0xA7, CHR 0xC3, CHR 0xA3] @ ''o:'' @ [CHR 0xC3, CHR 0xBC]
        @ ''n'' @ [CHR 0xC3, CHR 0xAF] @ ''code'',
      ''cistern:v1:cisterntest:-:h:'' @ replicate 63 CHR ''0'' @ ''7'',
      ''cistern:v1:cisterntest:g7.3:k:a key with spaces'']"

definition keysOfAnyShape :: "'x lab \<Rightarrow> 'x test" where
  "keysOfAnyShape lb =
     foldr (\<lambda>key k. t_set lb key (bytes_of key) Minute (wantValue lb key (bytes_of key) k)) shapes pass"

definition valuesAreBinarySafe :: "'x lab \<Rightarrow> 'x test" where
  "valuesAreBinarySafe lb =
     (let v = map word_of_nat [0..<256] in
      t_set lb keyA v Minute (wantValue lb keyA v pass))"

text \<open>The wait of \<open>entriesExpire\<close>: it reads every ten milliseconds until the entry is gone, or the deadline.\<close>

partial_function (option) awaitMiss :: "'x lab \<Rightarrow> time \<Rightarrow> 'x test" where
  "awaitMiss lb deadline x =
     (case st_Get (lb_Store lb) Background keyA x of
        (Inl _, x) \<Rightarrow> Some False
      | (Inr None, x) \<Rightarrow> Some True
      | (Inr (Some _), x) \<Rightarrow>
          (case lb_Now lb x of (t, x) \<Rightarrow>
             if t > deadline then Some False else awaitMiss lb deadline (lb_Sleep lb (10 * ms) x)))"

definition entriesExpire :: "'x lab \<Rightarrow> 'x test" where
  "entriesExpire lb =
     t_set lb keyA (bytes_of ''short-lived'') (100 * ms) (
     wantValue lb keyA (bytes_of ''short-lived'') (\<lambda>x.
       case lb_Now lb x of (t, x) \<Rightarrow> awaitMiss lb (t + 5 * Second) x))"

definition nonPositiveTTLIsRejected :: "'x lab \<Rightarrow> 'x test" where
  "nonPositiveTTLIsRejected lb =
     foldr (\<lambda>ttl k x. case st_Set (lb_Store lb) Background keyA (bytes_of ''v'') ttl x of (err, x) \<Rightarrow>
              require (err \<noteq> None) k x) [0, - Second]
       (wantMiss lb pass)"

definition cancelledContextIsAnError :: "'x lab \<Rightarrow> 'x test" where
  "cancelledContextIsAnError lb x =
     (case st_Get (lb_Store lb) (lb_cancelled lb) keyA x of (r, x) \<Rightarrow> require (isl r) (\<lambda>x.
      case st_Set (lb_Store lb) (lb_cancelled lb) keyA (bytes_of ''v'') Minute x of (err, x) \<Rightarrow> require (err \<noteq> None) (\<lambda>x.
      case st_Delete (lb_Store lb) (lb_cancelled lb) keyA x of (err, x) \<Rightarrow> require (err \<noteq> None)
      (wantMiss lb pass) x) x) x)"

text \<open>The eight goroutines of \<open>concurrentUse\<close>: each is the list of its calls.  A call is atomic in the store, so
  an execution is a schedule that interleaves the lists; a goroutine that fails stops, but the test has failed then.\<close>

inductive interleaving :: "'a list list \<Rightarrow> 'a list \<Rightarrow> bool" where
  finished: "\<forall>xs \<in> set xss. xs = [] \<Longrightarrow> interleaving xss []"
| step: "i < length xss \<Longrightarrow> xss ! i = y # ys \<Longrightarrow> interleaving (xss[i := ys]) zs \<Longrightarrow> interleaving xss (y # zs)"

datatype use = USet string | UGet string | UDelete string

definition use_key :: "nat \<Rightarrow> string" where
  "use_key n = ''cistern:v1:cisterntest:-:k:'' @ decimal n"

definition user :: "nat \<Rightarrow> use list" where
  "user g = concat (map (\<lambda>i. let key = use_key (g * i mod 32) in
     [USet key, UGet key] @ (if i mod 5 = 0 then [UDelete key] else [])) [0..<200])"

fun run_uses :: "'x lab \<Rightarrow> use list \<Rightarrow> 'x test" where
  "run_uses lb [] x = Some True"
| "run_uses lb (USet key # us) x =
     (case st_Set (lb_Store lb) Background key (bytes_of key) Minute x of (err, x) \<Rightarrow>
        require (err = None) (run_uses lb us) x)"
| "run_uses lb (UGet key # us) x =
     (case st_Get (lb_Store lb) Background key x of (r, x) \<Rightarrow>
        require (case r of Inl _ \<Rightarrow> False | Inr None \<Rightarrow> True | Inr (Some got) \<Rightarrow> string_of got = key) (run_uses lb us) x)"
| "run_uses lb (UDelete key # us) x =
     (case st_Delete (lb_Store lb) Background key x of (err, x) \<Rightarrow> require (err = None) (run_uses lb us) x)"

definition concurrentUse :: "'x lab \<Rightarrow> use list \<Rightarrow> 'x test" where
  "concurrentUse lb schedule = run_uses lb schedule"

section \<open>tagstore.go\<close>

definition genA :: string where "genA = ''cistern:v1:cisterntest:g:user:42:lists''"

definition genB :: string where "genB = ''cistern:v1:cisterntest:g:user:43:lists''"

definition t_gens :: "'x lab \<Rightarrow> string list \<Rightarrow> (u64 list \<Rightarrow> 'x test) \<Rightarrow> 'x test" where
  "t_gens lb genKeys k x =
     (case ts_GetTagged (lb_TagStore lb) Background keyA genKeys Minute x of
        (Inl _, x) \<Rightarrow> Some False
      | (Inr (_, g), x) \<Rightarrow> require (length (elems g) = length genKeys) (k (elems g)) x)"

definition t_bump :: "'x lab \<Rightarrow> string list \<Rightarrow> 'x test \<Rightarrow> 'x test" where
  "t_bump lb genKeys k x =
     (case ts_Bump (lb_TagStore lb) Background genKeys Minute x of (err, x) \<Rightarrow> require (err = None) k x)"

definition inRange :: "u64 \<Rightarrow> bool" where
  "inRange g \<longleftrightarrow> g \<ge> 1 \<and> g < push_bit 62 1"

definition missingCounterIsCreatedUnpredictably :: "'x lab \<Rightarrow> 'x test" where
  "missingCounterIsCreatedUnpredictably lb =
     t_gens lb [genA, genB] (\<lambda>g.
       require (\<forall>v \<in> set g. inRange v \<and> v \<ge> push_bit 20 1) (
       require (g ! 0 \<noteq> g ! 1) pass))"

definition generationsAreStable :: "'x lab \<Rightarrow> 'x test" where
  "generationsAreStable lb =
     t_gens lb [genA] (\<lambda>first. t_gens lb [genA] (\<lambda>again. require (again ! 0 = first ! 0) pass))"

definition valueAndGenerationsTogether :: "'x lab \<Rightarrow> 'x test" where
  "valueAndGenerationsTogether lb =
     t_set lb keyA (bytes_of ''value'') Minute (\<lambda>x.
       case ts_GetTagged (lb_TagStore lb) Background keyA [genA] Minute x of
         (Inl _, x) \<Rightarrow> Some False
       | (Inr (v, g), x) \<Rightarrow> require (v = Some (bytes_of ''value'') \<and> length (elems g) = 1) pass x)"

definition missingValueStillReturnsGenerations :: "'x lab \<Rightarrow> 'x test" where
  "missingValueStillReturnsGenerations lb x =
     (case ts_GetTagged (lb_TagStore lb) Background keyA [genA] Minute x of
        (Inl _, x) \<Rightarrow> Some False
      | (Inr (v, g), x) \<Rightarrow> require (v = None \<and> length (elems g) = 1 \<and> inRange (elems g ! 0)) pass x)"

definition bumpAdvances :: "'x lab \<Rightarrow> 'x test" where
  "bumpAdvances lb =
     t_gens lb [genA, genB] (\<lambda>before.
     t_bump lb [genA] (
     t_gens lb [genA, genB] (\<lambda>after.
       require (after ! 0 \<noteq> before ! 0) (
       require (after ! 1 = before ! 1) pass))))"

definition bumpOfAMissingCounterIsUnpredictable :: "'x lab \<Rightarrow> 'x test" where
  "bumpOfAMissingCounterIsUnpredictable lb =
     t_bump lb [genA] (
     t_gens lb [genA] (\<lambda>g. require (inRange (g ! 0) \<and> g ! 0 \<ge> push_bit 20 1) pass))"

definition vanishedCounterNeverRepeats :: "'x lab \<Rightarrow> 'x test" where
  "vanishedCounterNeverRepeats lb =
     t_gens lb [genA] (\<lambda>g1.
     t_bump lb [genA] (
     t_gens lb [genA] (\<lambda>g2.
     t_delete lb genA (
     t_gens lb [genA] (\<lambda>g. require (g ! 0 \<notin> {g1 ! 0, g2 ! 0}) pass)))))"

partial_function (option) awaitNew :: "'x lab \<Rightarrow> u64 \<Rightarrow> time \<Rightarrow> 'x test" where
  "awaitNew lb g deadline x =
     (case ts_GetTagged (lb_TagStore lb) Background keyA [genA] Minute x of
        (Inl _, x) \<Rightarrow> Some False
      | (Inr (_, cur), x) \<Rightarrow>
          if elems cur ! 0 \<noteq> g then Some True
          else (case lb_Now lb x of (t, x) \<Rightarrow>
            if t > deadline then Some False else awaitNew lb g deadline (lb_Sleep lb (10 * ms) x)))"

definition countersExpire :: "'x lab \<Rightarrow> 'x test" where
  "countersExpire lb x =
     (case ts_GetTagged (lb_TagStore lb) Background keyA [genA] (100 * ms) x of
        (Inl _, x) \<Rightarrow> Some False
      | (Inr (_, g), x) \<Rightarrow>
          (case lb_Now lb x of (t, x) \<Rightarrow> awaitNew lb (elems g ! 0) (t + 5 * Second) x))"

definition nonPositiveCounterTTLIsRejected :: "'x lab \<Rightarrow> 'x test" where
  "nonPositiveCounterTTLIsRejected lb x =
     (case ts_GetTagged (lb_TagStore lb) Background keyA [genA] 0 x of (r, x) \<Rightarrow> require (isl r) (\<lambda>x.
      case ts_Bump (lb_TagStore lb) Background [genA] 0 x of (err, x) \<Rightarrow> require (err \<noteq> None) pass x) x)"

definition taggedCancelledContextIsAnError :: "'x lab \<Rightarrow> 'x test" where
  "taggedCancelledContextIsAnError lb x =
     (case ts_GetTagged (lb_TagStore lb) (lb_cancelled lb) keyA [genA] Minute x of (r, x) \<Rightarrow> require (isl r) (\<lambda>x.
      case ts_Bump (lb_TagStore lb) (lb_cancelled lb) [genA] Minute x of (err, x) \<Rightarrow> require (err \<noteq> None) pass x) x)"

text \<open>Two hundred bumps, of eight goroutines: all the same call, so every interleaving is the same list.\<close>

definition concurrentBumpsAreAtomic :: "'x lab \<Rightarrow> 'x test" where
  "concurrentBumpsAreAtomic lb =
     t_gens lb [genA] (\<lambda>start.
     foldr (\<lambda>_ k. t_bump lb [genA] k) [0..<8 * 25] (
     t_gens lb [genA] (\<lambda>got. require (got ! 0 = start ! 0 + 8 * 25) pass)))"

definition bumpRefreshesTheCounterTTL :: "'x lab \<Rightarrow> 'x test" where
  "bumpRefreshesTheCounterTTL lb x =
     (case ts_GetTagged (lb_TagStore lb) Background keyA [genA] (200 * ms) x of
        (Inl _, x) \<Rightarrow> Some False
      | (Inr _, x) \<Rightarrow>
          (case ts_Bump (lb_TagStore lb) Background [genA] Minute x of (err, x) \<Rightarrow> require (err = None) (
             t_gens lb [genA] (\<lambda>bumped x.
               t_gens lb [genA] (\<lambda>cur. require (cur ! 0 = bumped ! 0) pass) (lb_Sleep lb (400 * ms) x))) x))"

section \<open>The suites\<close>

definition RunStore :: "'x lab \<Rightarrow> use list \<Rightarrow> (string \<times> 'x test) list" where
  "RunStore lb schedule =
     [(''MissingKeyIsAMiss'', missingKeyIsAMiss lb), (''SetThenGet'', setThenGet lb), (''SetReplaces'', setReplaces lb),
      (''DeleteRemoves'', deleteRemoves lb), (''KeysAreIndependent'', keysAreIndependent lb),
      (''KeysOfAnyShape'', keysOfAnyShape lb), (''ValuesAreBinarySafe'', valuesAreBinarySafe lb),
      (''EntriesExpire'', entriesExpire lb), (''NonPositiveTTLIsRejected'', nonPositiveTTLIsRejected lb),
      (''CancelledContextIsAnError'', cancelledContextIsAnError lb), (''ConcurrentUse'', concurrentUse lb schedule)]"

definition RunTagStore :: "'x lab \<Rightarrow> (string \<times> 'x test) list" where
  "RunTagStore lb =
     [(''MissingCounterIsCreatedUnpredictably'', missingCounterIsCreatedUnpredictably lb),
      (''GenerationsAreStable'', generationsAreStable lb), (''ValueAndGenerationsTogether'', valueAndGenerationsTogether lb),
      (''MissingValueStillReturnsGenerations'', missingValueStillReturnsGenerations lb), (''BumpAdvances'', bumpAdvances lb),
      (''BumpOfAMissingCounterIsUnpredictable'', bumpOfAMissingCounterIsUnpredictable lb),
      (''VanishedCounterNeverRepeats'', vanishedCounterNeverRepeats lb), (''CountersExpire'', countersExpire lb),
      (''BumpRefreshesTheCounterTTL'', bumpRefreshesTheCounterTTL lb),
      (''NonPositiveCounterTTLIsRejected'', nonPositiveCounterTTLIsRejected lb),
      (''CancelledContextIsAnError'', taggedCancelledContextIsAnError lb),
      (''ConcurrentBumpsAreAtomic'', concurrentBumpsAreAtomic lb)]"

end
