(* ===== verification/MemoryConforms.thy ===== *)
theory MemoryConforms
  imports Conformance StoreLaws
begin

text \<open>
  The in-process store passes the conformance suites of \<open>cisterntest\<close>.  The store of a test is one \<open>New\<close> built
  with room for what the test writes, a clock that, apart from what the test sleeps, stays within
  fifty milliseconds, and draws that differ; then it is a map with expiry times, which is what \<open>hold\<close> says.
\<close>

section \<open>The store as a map\<close>

text \<open>\<open>hold r n M T d\<close>: the store has the entries \<open>M\<close>, room for \<open>n\<close> more of at most 512 bytes, readings of its
  clock within fifty milliseconds of \<open>T\<close>, and is at draw \<open>d\<close> of the source \<open>r\<close>.\<close>

definition jiffy :: duration where "jiffy = 50 * ms"

definition lhold :: "(nat \<Rightarrow> bytes option) \<Rightarrow> nat \<Rightarrow> (string \<rightharpoonup> bytes \<times> time) \<Rightarrow> time \<Rightarrow> nat \<Rightarrow> lru \<Rightarrow> bool" where
  "lhold r n M T d l \<longleftrightarrow> int (length (l_es l)) + int n \<le> l_maxEntries l \<and> lru_total (l_es l) + 512 * int n \<le> l_maxBytes l
     \<and> map_of (l_es l) = M \<and> (\<forall>i. T \<le> l_clock l i \<and> l_clock l i \<le> T + jiffy) \<and> l_rand l = r \<and> l_draw l = d"

definition hold :: "(nat \<Rightarrow> bytes option) \<Rightarrow> nat \<Rightarrow> (string \<rightharpoonup> bytes \<times> time) \<Rightarrow> time \<Rightarrow> nat \<Rightarrow> store \<Rightarrow> bool" where
  "hold r n M T d s \<longleftrightarrow> (\<exists>l. rel s l \<and> lhold r n M T d l)"

lemma lhold_now: "lhold r n M T d l \<Longrightarrow> lhold r n M T d (snd (lru_now l)) \<and> T \<le> fst (lru_now l) \<and> fst (lru_now l) \<le> T + jiffy"
  by (simp add: lhold_def lru_now_def)

lemma lhold_same [simp]: "lhold r n M T d (lru_report l) = lhold r n M T d l" "lhold r n M T d (lru_note e m l) = lhold r n M T d l"
  by (simp_all add: lhold_def lru_report_def lru_note_def)

lemma without_room: "map_of es k = Some (v, x) \<Longrightarrow>
    length (without k es) < length es \<and> lru_total (without k es) + lsize (k, v, x) \<le> lru_total es"
proof (induction es)
  case (Cons e es)
  show ?case
  proof (cases "fst e = k")
    case True
    then have "e = (k, v, x)" using Cons.prems by (cases e) auto
    then have "without k (e # es) = without k es" by (simp add: without_def)
    then show ?thesis using \<open>e = _\<close> length_without [of k es] lru_total_without [of k es] by simp
  next
    case False
    then show ?thesis using Cons by (cases e) (auto simp: without_def)
  qed
qed simp

lemma lhold_get:
  assumes "lhold r n M T d l"
  shows "M k = None \<Longrightarrow> lru_get k l = (None, l)"
    and "M k = Some (v, x) \<Longrightarrow> T + jiffy < x \<Longrightarrow> fst (lru_get k l) = Some v \<and> lhold r n M T d (snd (lru_get k l))"
    and "M k = Some (v, x) \<Longrightarrow> x \<le> T \<Longrightarrow> fst (lru_get k l) = None \<and> lhold r n (M(k := None)) T d (snd (lru_get k l))"
proof -
  show "M k = None \<Longrightarrow> lru_get k l = (None, l)" using assms by (simp add: lru_get_def lhold_def)
  assume k: "M k = Some (v, x)"
  then have es: "map_of (l_es l) k = Some (v, x)" using assms by (simp add: lhold_def)
  have t: "T \<le> l_clock l (l_tick l)" "l_clock l (l_tick l) \<le> T + jiffy" using assms by (simp_all add: lhold_def)
  show "fst (lru_get k l) = Some v \<and> lhold r n M T d (snd (lru_get k l))" if "T + jiffy < x"
  proof -
    have "lru_get k l = (Some v, l\<lparr>l_tick := Suc (l_tick l), l_es := (k, v, x) # without k (l_es l)\<rparr>)"
      using es t that by (simp add: lru_get_def lru_now_def)
    then show ?thesis using es assms without_room [OF es] by (auto simp: lhold_def fun_eq_iff)
  qed
  show "fst (lru_get k l) = None \<and> lhold r n (M(k := None)) T d (snd (lru_get k l))" if "x \<le> T"
  proof -
    have "lru_get k l = (None, lru_note EvictExpired 1 (l\<lparr>l_tick := Suc (l_tick l), l_es := without k (l_es l)\<rparr>))"
      using es t that by (simp add: lru_get_def lru_now_def)
    then show ?thesis using es assms without_room [OF es] by (auto simp: lhold_def fun_eq_iff)
  qed
qed

lemma lhold_put:
  assumes "lhold r (Suc n) M T d l" "length k + length v \<le> 512"
  shows "lhold r n (M(k \<mapsto> (v, x))) T d (lru_put (k, v, x) l)"
proof -
  let ?es = "without k (l_es l)"
  have "fits (l_maxEntries l) (l_maxBytes l) (lsize (k, v, x)) ?es"
    using assms length_without [of k "l_es l"] lru_total_without [of k "l_es l"] by (auto simp: fits_def lhold_def)
  then have "trim (l_maxEntries l) (l_maxBytes l) (lsize (k, v, x)) ?es = ?es" by (subst trim.simps) simp
  moreover have "\<not> lsize (k, v, x) > l_maxBytes l"
  proof -
    have "lru_total (l_es l) + 512 * int (Suc n) \<le> l_maxBytes l" using assms(1) by (simp add: lhold_def)
    moreover have "lsize (k, v, x) \<le> 512" using assms(2) by simp
    moreover have "512 \<le> 512 * int (Suc n)" by simp
    ultimately show ?thesis using lru_total_nonneg [of "l_es l"] by linarith
  qed
  ultimately have "lru_put (k, v, x) l = lru_note EvictCapacity 0 (l\<lparr>l_es := (k, v, x) # ?es\<rparr>)"
    by (simp add: lru_put_def Let_def)
  then show ?thesis
    using assms length_without [of k "l_es l"] lru_total_without [of k "l_es l"] by (auto simp: lhold_def fun_eq_iff)
qed

text \<open>The generations the source \<open>r\<close> would give.  None is small or the last of the range, and the second is
  neither the first nor its successor: what the tests ask of them, and what chance nearly always grants.\<close>

definition gen :: "(nat \<Rightarrow> bytes option) \<Rightarrow> nat \<Rightarrow> u64" where
  "gen r i = projr (NewGeneration (r i))"

definition good_draws :: "(nat \<Rightarrow> bytes option) \<Rightarrow> bool" where
  "good_draws r \<longleftrightarrow> (\<forall>i. r i \<noteq> None \<and> gen r i \<ge> push_bit 20 1 \<and> gen r i + 1 < push_bit 62 1) \<and> gen r 1 \<notin> {gen r 0, gen r 0 + 1}"

lemma NewGeneration_gen: "good_draws r \<Longrightarrow> NewGeneration (r i) = Inr (gen r i)"
proof -
  assume "good_draws r"
  then obtain b where "r i = Some b" unfolding good_draws_def by blast
  then show ?thesis by (simp add: gen_def NewGeneration_def)
qed

lemma lhold_counter:
  assumes "lhold r (Suc n) M T d l" "good_draws r" "length gk \<le> 500"
  shows "M gk = Some (be64 g, x) \<Longrightarrow> T + jiffy < x \<Longrightarrow>
      fst (lru_counter gk ttl l) = Inr g \<and> lhold r (Suc n) M T d (snd (lru_counter gk ttl l))"
    and "M gk = None \<or> (\<exists>v x. M gk = Some (v, x) \<and> x \<le> T) \<Longrightarrow> fst (lru_counter gk ttl l) = Inr (gen r d) \<and>
      (\<exists>x. T + ttl \<le> x \<and> x \<le> T + jiffy + ttl \<and>
        lhold r n (M(gk \<mapsto> (be64 (gen r d), x))) T (Suc d) (snd (lru_counter gk ttl l)))"
proof -
  assume "M gk = Some (be64 g, x)" "T + jiffy < x"
  from lhold_get(2) [OF assms(1) this]
  show "fst (lru_counter gk ttl l) = Inr g \<and> lhold r (Suc n) M T d (snd (lru_counter gk ttl l))"
    by (simp add: lru_counter_def split_beta Let_def)
next
  assume M: "M gk = None \<or> (\<exists>v x. M gk = Some (v, x) \<and> x \<le> T)"
  define l1 where "l1 = snd (lru_get gk l)"
  have l1: "fst (lru_get gk l) = None" "lhold r (Suc n) (M(gk := None)) T d l1"
    using M lhold_get(1,3) [OF assms(1), of gk] assms(1) by (auto simp: l1_def fun_upd_idem)
  let ?l = "l1\<lparr>l_draw := Suc d\<rparr>"
  have l2: "lhold r (Suc n) (M(gk := None)) T (Suc d) ?l" using l1(2) by (simp add: lhold_def)
  have d: "l_draw l1 = d" "l_rand l1 = r" using l1(2) by (simp_all add: lhold_def)
  let ?x = "fst (lru_now ?l) + ttl"
  have "lhold r n (M(gk \<mapsto> (be64 (gen r d), ?x))) T (Suc d) (lru_put (gk, be64 (gen r d), ?x) (snd (lru_now ?l)))"
    using lhold_put [OF conjunct1 [OF lhold_now [OF l2]], of gk "be64 (gen r d)" ?x] assms(3) by simp
  moreover have "lru_counter gk ttl l = (Inr (gen r d), lru_put (gk, be64 (gen r d), ?x) (snd (lru_now ?l)))"
    using l1(1) d NewGeneration_gen [OF assms(2), of d]
    by (simp add: lru_counter_def split_beta Let_def l1_def [symmetric])
  ultimately show "fst (lru_counter gk ttl l) = Inr (gen r d) \<and>
      (\<exists>x. T + ttl \<le> x \<and> x \<le> T + jiffy + ttl \<and>
        lhold r n (M(gk \<mapsto> (be64 (gen r d), x))) T (Suc d) (snd (lru_counter gk ttl l)))"
    using lhold_now [OF l2] by (intro conjI exI [of _ ?x]) simp_all
qed

section \<open>Lists of counters\<close>

definition lives :: "(string \<rightharpoonup> bytes \<times> time) \<Rightarrow> time \<Rightarrow> string \<Rightarrow> bytes \<Rightarrow> bool" where
  "lives M T k v \<longleftrightarrow> (\<exists>x. M k = Some (v, x) \<and> T + jiffy < x)"

definition gone :: "(string \<rightharpoonup> bytes \<times> time) \<Rightarrow> time \<Rightarrow> string \<Rightarrow> bool" where
  "gone M T k \<longleftrightarrow> M k = None \<or> (\<exists>v x. M k = Some (v, x) \<and> x \<le> T)"

lemma lhold_counters_live:
  assumes "lhold r (Suc n) M T d l" "good_draws r" "\<forall>gk \<in> set gks. length gk \<le> 500 \<and> lives M T gk (be64 (g gk))"
  shows "fst (lru_counters gks ttl l) = Inr (map g gks) \<and> lhold r (Suc n) M T d (snd (lru_counters gks ttl l))"
  using assms(1,3)
proof (induction gks arbitrary: l)
  case (Cons gk gks)
  then obtain x where x: "M gk = Some (be64 (g gk), x)" "T + jiffy < x" "length gk \<le> 500" by (auto simp: lives_def)
  note c = lhold_counter(1) [OF Cons.prems(1) assms(2) x(3,1,2), of ttl]
  show ?case using c Cons.IH [OF conjunct2 [OF c]] Cons.prems(2)
    by (cases "lru_counter gk ttl l") (auto simp: split_beta)
qed simp

lemma lhold_counters_gone:
  assumes "lhold r (length gks + n) M T d l" "good_draws r" "distinct gks" "\<forall>gk \<in> set gks. length gk \<le> 500 \<and> gone M T gk"
    and "0 < n"
  shows "\<exists>M'. fst (lru_counters gks ttl l) = Inr (map (\<lambda>i. gen r (d + i)) [0..<length gks])
    \<and> lhold r n M' T (d + length gks) (snd (lru_counters gks ttl l))
    \<and> (\<forall>i < length gks. \<exists>x. M' (gks ! i) = Some (be64 (gen r (d + i)), x) \<and> T + ttl \<le> x \<and> x \<le> T + jiffy + ttl)
    \<and> (\<forall>k. k \<notin> set gks \<longrightarrow> M' k = M k)"
  using assms(1,3,4)
proof (induction gks arbitrary: l M d)
  case (Cons gk gks)
  let ?l = "snd (lru_counter gk ttl l)"
  have h: "lhold r (Suc (length gks + n)) M T d l" using Cons.prems(1) by simp
  obtain x where c: "fst (lru_counter gk ttl l) = Inr (gen r d)" "T + ttl \<le> x" "x \<le> T + jiffy + ttl"
    "lhold r (length gks + n) (M(gk \<mapsto> (be64 (gen r d), x))) T (Suc d) ?l"
    using lhold_counter(2) [OF h assms(2), of gk ttl] Cons.prems(3) by (auto simp: gone_def)
  have gks: "\<forall>k \<in> set gks. length k \<le> 500 \<and> gone (M(gk \<mapsto> (be64 (gen r d), x))) T k" using Cons.prems(2,3) by (auto simp: gone_def)
  obtain M' where M': "fst (lru_counters gks ttl ?l) = Inr (map (\<lambda>i. gen r (Suc d + i)) [0..<length gks])"
    "lhold r n M' T (Suc d + length gks) (snd (lru_counters gks ttl ?l))"
    "\<forall>i < length gks. \<exists>x. M' (gks ! i) = Some (be64 (gen r (Suc d + i)), x) \<and> T + ttl \<le> x \<and> x \<le> T + jiffy + ttl"
    "\<forall>k. k \<notin> set gks \<longrightarrow> M' k = (M(gk \<mapsto> (be64 (gen r d), x))) k"
    using Cons.IH [OF c(4) _ gks] Cons.prems(2) unfolding distinct.simps by blast
  have "[0..<Suc (length gks)] = 0 # map Suc [0..<length gks]" by (simp add: upt_conv_Cons map_Suc_upt del: upt_Suc)
  then have "fst (lru_counters (gk # gks) ttl l) = Inr (map (\<lambda>i. gen r (d + i)) [0..<Suc (length gks)])"
    using c(1) M'(1) by (cases "lru_counter gk ttl l") (auto simp: split_beta comp_def)
  moreover have "lhold r n M' T (d + length (gk # gks)) (snd (lru_counters (gk # gks) ttl l))"
    using c(1) M'(2) by (cases "lru_counter gk ttl l") (auto simp: split_beta)
  moreover have "\<forall>i < length (gk # gks). \<exists>x. M' ((gk # gks) ! i) = Some (be64 (gen r (d + i)), x) \<and> T + ttl \<le> x \<and> x \<le> T + jiffy + ttl"
    using M'(3,4) c(2,3) Cons.prems(2) by (auto simp: less_Suc_eq_0_disj)
  moreover have "\<forall>k. k \<notin> set (gk # gks) \<longrightarrow> M' k = M k" using M'(4) by auto
  ultimately show ?case by auto
qed (use assms(5) in auto)

section \<open>The laboratory\<close>

definition test_ctx :: "ctx \<Rightarrow> error option" where
  "test_ctx ctx = (if ctx = Caller 0 then Some (Sentinel ''context canceled'') else None)"

definition mem_lab :: "store lab" where
  "mem_lab = \<lparr>lb_Store = mem_Store test_ctx, lb_TagStore = mem_TagStore test_ctx, lb_cancelled = Caller 0,
     lb_Now = mem_now, lb_Sleep = (\<lambda>d s. s\<lparr>m_clock := (\<lambda>i. m_clock s i + d)\<rparr>)\<rparr>"

lemma test_Background [simp]: "test_ctx Background = None"
  by (simp add: test_ctx_def)

lemmas lab = mem_lab_def mem_Store_def mem_TagStore_def

lemma hold_Set:
  assumes "hold r (Suc n) M T d s" "0 < ttl" "length k + length v \<le> 512"
  obtains x s' where "st_Set (lb_Store mem_lab) Background k v ttl s = (None, s')" "T + ttl \<le> x" "x \<le> T + jiffy + ttl"
    "hold r n (M(k \<mapsto> (v, x))) T d s'"
proof -
  obtain l where l: "rel s l" "lhold r (Suc n) M T d l" using assms(1) by (auto simp: hold_def)
  note now = lhold_now [OF l(2)]
  let ?x = "fst (lru_now l) + ttl"
  have "lru_Set None k v ttl l = (None, lru_report (lru_put (k, v, ?x) (snd (lru_now l))))"
    using assms(2) by (simp add: lru_Set_def split_beta)
  moreover have "lhold r n (M(k \<mapsto> (v, ?x))) T d (lru_put (k, v, ?x) (snd (lru_now l)))"
    using lhold_put [OF conjunct1 [OF now] assms(3)] .
  ultimately show thesis
    using mem_Set_go [OF l(1), of None k v ttl "Some nil_panic" s] now
    by (intro that [of "snd (st_Set (lb_Store mem_lab) Background k v ttl s)" ?x]) (auto simp: lab hold_def prod_eq_iff)
qed

lemma hold_Get:
  assumes "hold r n M T d s"
  shows "M k = None \<Longrightarrow> \<exists>s'. st_Get (lb_Store mem_lab) Background k s = (Inr None, s') \<and> hold r n M T d s'"
    and "lives M T k v \<Longrightarrow> \<exists>s'. st_Get (lb_Store mem_lab) Background k s = (Inr (Some v), s') \<and> hold r n M T d s'"
    and "gone M T k \<Longrightarrow> \<exists>s'. st_Get (lb_Store mem_lab) Background k s = (Inr None, s') \<and> hold r n (M(k := None)) T d s'"
proof -
  obtain l where l: "rel s l" "lhold r n M T d l" using assms by (auto simp: hold_def)
  note g = mem_Get_go [OF l(1), of None k "Inl nil_panic" s]
  have step: "\<exists>s'. st_Get (lb_Store mem_lab) Background k s = (Inr u, s') \<and> hold r n N T d s'"
    if "fst (lru_get k l) = u" "lhold r n N T d (snd (lru_get k l))" for u N
    using g that by (auto simp: lab hold_def lru_Get_def split_beta prod_eq_iff)
  show none: "M k = None \<Longrightarrow> \<exists>s'. st_Get (lb_Store mem_lab) Background k s = (Inr None, s') \<and> hold r n M T d s'"
    using step [of None M] lhold_get(1) [OF l(2), of k] l(2) by simp
  show "lives M T k v \<Longrightarrow> \<exists>s'. st_Get (lb_Store mem_lab) Background k s = (Inr (Some v), s') \<and> hold r n M T d s'"
    using step [of "Some v" M] lhold_get(2) [OF l(2), of k v] by (auto simp: lives_def)
  show "gone M T k \<Longrightarrow> \<exists>s'. st_Get (lb_Store mem_lab) Background k s = (Inr None, s') \<and> hold r n (M(k := None)) T d s'"
    using none step [of None "M(k := None)"] lhold_get(3) [OF l(2), of k] by (auto simp: gone_def fun_upd_idem)
qed

lemma hold_Delete:
  assumes "hold r n M T d s"
  obtains s' where "st_Delete (lb_Store mem_lab) Background k s = (None, s')" "hold r n (M(k := None)) T d s'"
proof -
  obtain l where l: "rel s l" "lhold r n M T d l" using assms by (auto simp: hold_def)
  have "lhold r n (M(k := None)) T d (l\<lparr>l_es := without k (l_es l)\<rparr>)"
    using l(2) length_without [of k "l_es l"] lru_total_without [of k "l_es l"] by (auto simp: lhold_def fun_eq_iff)
  then show thesis using mem_Delete_go [OF l(1), of None k "Some nil_panic" s]
    by (intro that [of "snd (st_Delete (lb_Store mem_lab) Background k s)"]) (auto simp: lab hold_def lru_Delete_def prod_eq_iff)
qed

text \<open>A key that is not there, or there to stay.\<close>

definition sure :: "(string \<rightharpoonup> bytes \<times> time) \<Rightarrow> time \<Rightarrow> string \<Rightarrow> bytes option \<Rightarrow> bool" where
  "sure M T k v \<longleftrightarrow> (case v of None \<Rightarrow> M k = None | Some u \<Rightarrow> lives M T k u)"

lemma lhold_sure:
  assumes "lhold r n M T d l" "sure M T k v"
  shows "fst (lru_get k l) = v \<and> lhold r n M T d (snd (lru_get k l))"
  using lhold_get(1,2) [OF assms(1), of k] assms by (auto simp: sure_def lives_def split: option.splits)

lemma hold_GetTagged_step:
  assumes l: "rel s l" "lhold r m M T d l" and "0 < ttl" "sure M T key v"
    and c: "\<And>l. lhold r m M T d l \<Longrightarrow> fst (lru_counters gks ttl l) = Inr gs \<and> Q (snd (lru_counters gks ttl l))"
    and Q: "\<And>l. Q l \<Longrightarrow> Q (lru_report l)"
  shows "\<exists>s'. ts_GetTagged (lb_TagStore mem_lab) Background key gks ttl s = (Inr (v, Some gs), s') \<and> (\<exists>l'. rel s' l' \<and> Q l')"
proof -
  note g = lhold_sure [OF l(2) assms(4)]
  note k = c [OF conjunct2 [OF g]]
  have "lru_GetTagged None key gks ttl l = (Inr (v, gs), lru_report (snd (lru_counters gks ttl (snd (lru_get key l)))))"
    using g k assms(3) by (simp add: lru_GetTagged_def split_beta)
  then show ?thesis using sim_go [OF mem_GetTagged_sim [OF l(1), of None key gks ttl], of "Inl nil_panic" s] Q [OF conjunct2 [OF k]]
    by (auto simp: lab apfst_def map_prod_def split_beta)
qed

lemma hold_GetTagged_live:
  assumes "hold r (Suc n) M T d s" "good_draws r" "0 < ttl" "sure M T key v"
    "\<forall>gk \<in> set gks. length gk \<le> 500 \<and> lives M T gk (be64 (g gk))"
  shows "\<exists>s'. ts_GetTagged (lb_TagStore mem_lab) Background key gks ttl s = (Inr (v, Some (map g gks)), s')
    \<and> hold r (Suc n) M T d s'"
proof -
  obtain l where l: "rel s l" "lhold r (Suc n) M T d l" using assms(1) by (auto simp: hold_def)
  show ?thesis unfolding hold_def
    by (rule hold_GetTagged_step [OF l assms(3,4)]) (use lhold_counters_live [OF _ assms(2,5)] in auto)
qed

lemma hold_GetTagged_gone:
  assumes "hold r (length gks + n) M T d s" "good_draws r" "0 < ttl" "0 < n" "sure M T key v" "distinct gks"
    "\<forall>gk \<in> set gks. length gk \<le> 500 \<and> gone M T gk"
  obtains s' M' where "ts_GetTagged (lb_TagStore mem_lab) Background key gks ttl s
      = (Inr (v, Some (map (\<lambda>i. gen r (d + i)) [0..<length gks])), s')" "hold r n M' T (d + length gks) s'"
    "\<forall>i < length gks. \<exists>x. M' (gks ! i) = Some (be64 (gen r (d + i)), x) \<and> T + ttl \<le> x \<and> x \<le> T + jiffy + ttl"
    "\<forall>k. k \<notin> set gks \<longrightarrow> M' k = M k"
proof -
  obtain l where l: "rel s l" "lhold r (length gks + n) M T d l" using assms(1) by (auto simp: hold_def)
  let ?Q = "\<lambda>l. \<exists>M'. lhold r n M' T (d + length gks) l
    \<and> (\<forall>i < length gks. \<exists>x. M' (gks ! i) = Some (be64 (gen r (d + i)), x) \<and> T + ttl \<le> x \<and> x \<le> T + jiffy + ttl)
    \<and> (\<forall>k. k \<notin> set gks \<longrightarrow> M' k = M k)"
  have "\<exists>s'. ts_GetTagged (lb_TagStore mem_lab) Background key gks ttl s
      = (Inr (v, Some (map (\<lambda>i. gen r (d + i)) [0..<length gks])), s') \<and> (\<exists>l'. rel s' l' \<and> ?Q l')"
    by (rule hold_GetTagged_step [OF l assms(3,5)])
      (use lhold_counters_gone [OF _ assms(2,6,7,4)] in \<open>auto 0 3\<close>)
  then show thesis using that unfolding hold_def by blast
qed

lemma hold_Bump:
  assumes "hold r (Suc (Suc n)) M T d s" "good_draws r" "0 < ttl" "length gk \<le> 500"
    "lives M T gk (be64 g) \<and> d' = d \<or> gone M T gk \<and> g = gen r d \<and> d' = Suc d"
  obtains s' x where "ts_Bump (lb_TagStore mem_lab) Background [gk] ttl s = (None, s')" "T + ttl \<le> x" "x \<le> T + jiffy + ttl"
    "hold r n (M(gk \<mapsto> (be64 (g + 1), x))) T d' s'"
proof -
  obtain l where l: "rel s l" "lhold r (Suc (Suc n)) M T d l" using assms(1) by (auto simp: hold_def)
  define l1 where "l1 = snd (lru_counter gk ttl l)"
  obtain M1 where c: "fst (lru_counter gk ttl l) = Inr g" "lhold r (Suc n) M1 T d' l1" "\<And>y. M1(gk \<mapsto> y) = M(gk \<mapsto> y)"
  proof (cases "lives M T gk (be64 g) \<and> d' = d")
    case True
    then have "fst (lru_counter gk ttl l) = Inr g \<and> lhold r (Suc (Suc n)) M T d l1"
      using lhold_counter(1) [OF l(2) assms(2,4), of g] by (auto simp: lives_def l1_def)
    then show thesis using that [of M] True by (auto simp: lhold_def)
  next
    case False
    then show thesis using that lhold_counter(2) [OF l(2) assms(2,4), of ttl] assms(5)
      by (fastforce simp: gone_def l1_def)
  qed
  note now = lhold_now [OF c(2)]
  let ?x = "fst (lru_now l1) + ttl"
  have "lhold r n (M1(gk \<mapsto> (be64 (g + 1), ?x))) T d' (lru_put (gk, be64 (g + 1), ?x) (snd (lru_now l1)))"
    using lhold_put [OF conjunct1 [OF now], of gk "be64 (g + 1)" ?x] assms(4) by simp
  moreover have "lru_Bump None [gk] ttl l = (None, lru_report (lru_put (gk, be64 (g + 1), ?x) (snd (lru_now l1))))"
    using c(1) assms(3) by (cases "lru_counter gk ttl l") (simp add: lru_Bump_def split_beta l1_def)
  ultimately show thesis
    using sim_go [OF mem_Bump_sim [OF l(1), of None "[gk]" ttl], of "Some nil_panic" s] now c(3)
    by (intro that [of "snd (ts_Bump (lb_TagStore mem_lab) Background [gk] ttl s)" ?x]) (auto simp: lab hold_def prod_eq_iff)
qed

lemma hold_Now:
  assumes "hold r n M T d s"
  obtains t s' where "lb_Now mem_lab s = (t, s')" "T \<le> t" "t \<le> T + jiffy" "hold r n M T d s'"
proof -
  obtain l where l: "rel s l" "lhold r n M T d l" using assms by (auto simp: hold_def)
  obtain t s' l' where n: "mem_now s = (t, s')" "lru_now l = (t, l')" "rel s' l'" by (rule now_cases [OF l(1)])
  then show thesis using lhold_now [OF l(2)] by (intro that [of t s']) (auto simp: lab hold_def)
qed

lemma hold_Sleep: "hold r n M T d s \<Longrightarrow> hold r n M (T + e) d (lb_Sleep mem_lab e s)"
proof -
  assume "hold r n M T d s"
  then obtain l where l: "rel s l" "lhold r n M T d l" by (auto simp: hold_def)
  have "rel (s\<lparr>m_clock := \<lambda>i. m_clock s i + e\<rparr>) (l\<lparr>l_clock := \<lambda>i. l_clock l i + e\<rparr>)"
    using l(1) by (auto simp: rel_def same_env_def links_def)
  moreover have "lhold r n M (T + e) d (l\<lparr>l_clock := \<lambda>i. l_clock l i + e\<rparr>)" using l(2) by (simp add: lhold_def algebra_simps)
  ultimately show ?thesis by (auto simp: hold_def lab)
qed

section \<open>The steps of a test\<close>

lemma pass_rule: "pass s = Some True"
  by (simp add: pass_def)

lemma require_rule: "b \<Longrightarrow> K s = Some True \<Longrightarrow> require b K s = Some True"
  by (simp add: require_def)

lemma t_set_rule:
  assumes "hold r n M T d s" "0 < n" "0 < ttl" "length k + length v \<le> 512"
    "\<And>x s'. T + ttl \<le> x \<Longrightarrow> x \<le> T + jiffy + ttl \<Longrightarrow> hold r (n - 1) (M(k \<mapsto> (v, x))) T d s' \<Longrightarrow> K s' = Some True"
  shows "t_set mem_lab k v ttl K s = Some True"
proof -
  have "hold r (Suc (n - 1)) M T d s" using assms(1,2) by simp
  from hold_Set [OF this assms(3,4)] obtain x s' where
    "st_Set (lb_Store mem_lab) Background k v ttl s = (None, s')" "T + ttl \<le> x" "x \<le> T + jiffy + ttl"
    "hold r (n - 1) (M(k \<mapsto> (v, x))) T d s'" by blast
  then show ?thesis using assms(5) [of x s'] by (simp add: t_set_def require_def)
qed

lemma wantValue_rule:
  "hold r n M T d s \<Longrightarrow> lives M T k v \<Longrightarrow> (\<And>s'. hold r n M T d s' \<Longrightarrow> K s' = Some True) \<Longrightarrow>
   wantValue mem_lab k v K s = Some True"
  using hold_Get(2) [of r n M T d s k v] by (auto simp: wantValue_def require_def)

lemma wantMiss_rule:
  "hold r n M T d s \<Longrightarrow> M keyA = None \<Longrightarrow> (\<And>s'. hold r n M T d s' \<Longrightarrow> K s' = Some True) \<Longrightarrow>
   wantMiss mem_lab K s = Some True"
  using hold_Get(1) [of r n M T d s keyA] by (auto simp: wantMiss_def require_def)

lemma t_delete_rule:
  "hold r n M T d s \<Longrightarrow> (\<And>s'. hold r n (M(k := None)) T d s' \<Longrightarrow> K s' = Some True) \<Longrightarrow>
   t_delete mem_lab k K s = Some True"
  by (erule hold_Delete [of r n M T d s k]) (simp add: t_delete_def require_def)

lemma t_gens_live_rule:
  assumes "hold r n M T d s" "0 < n" "good_draws r" "M keyA = None"
    "\<forall>gk \<in> set gks. length gk \<le> 500 \<and> lives M T gk (be64 (g gk))"
    "\<And>s'. hold r n M T d s' \<Longrightarrow> K (map g gks) s' = Some True"
  shows "t_gens mem_lab gks K s = Some True"
proof -
  have h: "hold r (Suc (n - 1)) M T d s" using assms(1,2) by simp
  have "0 < Minute" by (simp add: Minute_def Second_def ms_def)
  from hold_GetTagged_live [OF h assms(3) this, of keyA None gks g] assms(2,4-)
  show ?thesis by (auto simp: t_gens_def require_def sure_def elems_def)
qed

lemma t_gens_gone_rule:
  assumes "hold r n M T d s" "length gks < n" "good_draws r" "M keyA = None" "distinct gks"
    "\<forall>gk \<in> set gks. length gk \<le> 500 \<and> gone M T gk"
    "\<And>M' s'. hold r (n - length gks) M' T (d + length gks) s' \<Longrightarrow>
      \<forall>i < length gks. \<exists>x. M' (gks ! i) = Some (be64 (gen r (d + i)), x) \<and> T + Minute \<le> x \<Longrightarrow>
      \<forall>k. k \<notin> set gks \<longrightarrow> M' k = M k \<Longrightarrow> K (map (\<lambda>i. gen r (d + i)) [0..<length gks]) s' = Some True"
  shows "t_gens mem_lab gks K s = Some True"
proof -
  have h: "hold r (length gks + (n - length gks)) M T d s" "0 < n - length gks" using assms(1,2) by simp_all
  have m: "0 < Minute" by (simp add: Minute_def Second_def ms_def)
  have "sure M T keyA None" using assms(4) by (simp add: sure_def)
  from hold_GetTagged_gone [OF h(1) assms(3) m h(2) this assms(5,6)] obtain s' M' where
    g: "ts_GetTagged (lb_TagStore mem_lab) Background keyA gks Minute s
      = (Inr (None, Some (map (\<lambda>i. gen r (d + i)) [0..<length gks])), s')" "hold r (n - length gks) M' T (d + length gks) s'"
    "\<forall>i < length gks. \<exists>x. M' (gks ! i) = Some (be64 (gen r (d + i)), x) \<and> T + Minute \<le> x \<and> x \<le> T + jiffy + Minute"
    "\<forall>k. k \<notin> set gks \<longrightarrow> M' k = M k" by blast
  then have "K (map (\<lambda>i. gen r (d + i)) [0..<length gks]) s' = Some True" by (intro assms(7)) blast+
  then show ?thesis using g(1) by (simp add: t_gens_def require_def elems_def)
qed

lemma t_bump_rule:
  assumes "hold r n M T d s" "2 \<le> n" "good_draws r" "length gk \<le> 500"
    "lives M T gk (be64 g) \<and> d' = d \<or> gone M T gk \<and> g = gen r d \<and> d' = Suc d"
    "\<And>x s'. T + Minute \<le> x \<Longrightarrow> hold r (n - 2) (M(gk \<mapsto> (be64 (g + 1), x))) T d' s' \<Longrightarrow> K s' = Some True"
  shows "t_bump mem_lab [gk] K s = Some True"
proof -
  have "Suc (Suc (n - 2)) = n" using assms(2) by simp
  then have h: "hold r (Suc (Suc (n - 2))) M T d s" using assms(1) by simp
  have m: "0 < Minute" by (simp add: Minute_def Second_def ms_def)
  from hold_Bump [OF h assms(3) m assms(4,5)] obtain s' x where
    "ts_Bump (lb_TagStore mem_lab) Background [gk] Minute s = (None, s')" "T + Minute \<le> x"
    "hold r (n - 2) (M(gk \<mapsto> (be64 (g + 1), x))) T d' s'" by blast
  then show ?thesis using assms(6) [of x s'] by (simp add: t_bump_def require_def)
qed

lemma lives_upd [simp]: "lives (M(k \<mapsto> (v, x))) T k u \<longleftrightarrow> u = v \<and> T + jiffy < x"
  "j \<noteq> k \<Longrightarrow> lives (M(k := e)) T j u = lives M T j u"
  by (auto simp: lives_def)

lemma gone_empty [simp]: "M k = None \<Longrightarrow> gone M T k"
  by (simp add: gone_def)

lemmas times = jiffy_def Minute_def Second_def ms_def

lemmas test_keys = keyA_def keyB_def genA_def genB_def

text \<open>The store at the start of a test: nothing in it, and room for five hundred writes.\<close>

definition fresh_store :: "(nat \<Rightarrow> bytes option) \<Rightarrow> store \<Rightarrow> bool" where
  "fresh_store r s \<longleftrightarrow> good_draws r \<and> (\<exists>T. hold r 500 Map.empty T 0 s)"

section \<open>The suite for stores\<close>

lemma test_sets:
  assumes h: "hold r 500 Map.empty T 0 s"
  shows "missingKeyIsAMiss mem_lab s = Some True" "setThenGet mem_lab s = Some True"
    "setReplaces mem_lab s = Some True" "deleteRemoves mem_lab s = Some True" "keysAreIndependent mem_lab s = Some True"
proof -
  show "missingKeyIsAMiss mem_lab s = Some True" unfolding missingKeyIsAMiss_def
    by (rule wantMiss_rule [OF h]) (simp_all add: pass_rule)
  show "setThenGet mem_lab s = Some True" unfolding setThenGet_def
    by (rule t_set_rule [OF h]; (erule wantValue_rule)?) (simp_all add: pass_rule times test_keys)
  show "setReplaces mem_lab s = Some True" unfolding setReplaces_def
    by (rule t_set_rule [OF h]; (erule t_set_rule)?; (erule wantValue_rule)?) (simp_all add: pass_rule times test_keys)
  show "deleteRemoves mem_lab s = Some True" unfolding deleteRemoves_def
    by (rule t_set_rule [OF h]; (erule t_delete_rule)?; (erule wantMiss_rule)?; (erule t_delete_rule)?)
      (simp_all add: pass_rule times test_keys)
  show "keysAreIndependent mem_lab s = Some True" unfolding keysAreIndependent_def
    by (rule t_set_rule [OF h]; (erule t_set_rule)?; (erule t_delete_rule)?; (erule wantMiss_rule)?; (erule wantValue_rule)?)
      (simp_all add: pass_rule times test_keys)
qed

lemma test_values:
  assumes h: "hold r 500 Map.empty T 0 s"
  shows "keysOfAnyShape mem_lab s = Some True" "valuesAreBinarySafe mem_lab s = Some True"
proof -
  show "keysOfAnyShape mem_lab s = Some True" unfolding keysOfAnyShape_def shapes_def foldr.simps comp_def id_def
    by (rule t_set_rule [OF h]; (erule wantValue_rule)?; (erule t_set_rule)?; (erule wantValue_rule)?; (erule t_set_rule)?;
        (erule wantValue_rule)?) (simp_all add: pass_rule times)
  show "valuesAreBinarySafe mem_lab s = Some True" unfolding valuesAreBinarySafe_def Let_def
    by (rule t_set_rule [OF h]; (erule wantValue_rule)?) (simp_all add: pass_rule times test_keys)
qed

lemma mem_refuses:
  assumes "hold r n M T d s"
  shows "ttl \<le> 0 \<Longrightarrow> \<exists>e s'. st_Set (lb_Store mem_lab) Background k v ttl s = (Some e, s') \<and> hold r n M T d s'"
    and "\<exists>e s'. st_Get (lb_Store mem_lab) (lb_cancelled mem_lab) k s = (Inl e, s') \<and> hold r n M T d s'"
    and "\<exists>e s'. st_Set (lb_Store mem_lab) (lb_cancelled mem_lab) k v ttl s = (Some e, s') \<and> hold r n M T d s'"
    and "\<exists>e s'. st_Delete (lb_Store mem_lab) (lb_cancelled mem_lab) k s = (Some e, s') \<and> hold r n M T d s'"
    and "ttl \<le> 0 \<Longrightarrow> \<exists>e s'. ts_GetTagged (lb_TagStore mem_lab) Background k gks ttl s = (Inl e, s') \<and> hold r n M T d s'"
    and "ttl \<le> 0 \<Longrightarrow> \<exists>e s'. ts_Bump (lb_TagStore mem_lab) Background gks ttl s = (Some e, s') \<and> hold r n M T d s'"
    and "\<exists>e s'. ts_GetTagged (lb_TagStore mem_lab) (lb_cancelled mem_lab) k gks ttl s = (Inl e, s') \<and> hold r n M T d s'"
    and "\<exists>e s'. ts_Bump (lb_TagStore mem_lab) (lb_cancelled mem_lab) gks ttl s = (Some e, s') \<and> hold r n M T d s'"
  using assms
  by (simp_all add: lab go_def mem_Set_def mem_Get_def mem_Delete_def mem_GetTagged_def mem_Bump_def test_ctx_def)

lemma test_refusals:
  assumes h: "hold r 500 Map.empty T 0 s"
  shows "nonPositiveTTLIsRejected mem_lab s = Some True" "cancelledContextIsAnError mem_lab s = Some True"
    "nonPositiveCounterTTLIsRejected mem_lab s = Some True" "taggedCancelledContextIsAnError mem_lab s = Some True"
proof -
  have miss: "wantMiss mem_lab pass s' = Some True" if "hold r 500 Map.empty T 0 s'" for s'
    by (rule wantMiss_rule [OF that]) (simp_all add: pass_rule)
  have "- Second \<le> 0" by (simp add: times)
  obtain e s1 where 1: "st_Set (lb_Store mem_lab) Background keyA (bytes_of ''v'') 0 s = (Some e, s1)" "hold r 500 Map.empty T 0 s1"
    using mem_refuses(1) [OF h] by blast
  obtain e' s2 where 2: "st_Set (lb_Store mem_lab) Background keyA (bytes_of ''v'') (- Second) s1 = (Some e', s2)" "hold r 500 Map.empty T 0 s2"
    using mem_refuses(1) [OF 1(2) \<open>- Second \<le> 0\<close>] by blast
  show "nonPositiveTTLIsRejected mem_lab s = Some True"
    using 1 2 miss by (simp add: nonPositiveTTLIsRejected_def require_def)
  obtain e s1 where 1: "st_Get (lb_Store mem_lab) (lb_cancelled mem_lab) keyA s = (Inl e, s1)" "hold r 500 Map.empty T 0 s1"
    using mem_refuses(2) [OF h] by blast
  obtain e' s2 where 2: "st_Set (lb_Store mem_lab) (lb_cancelled mem_lab) keyA (bytes_of ''v'') Minute s1 = (Some e', s2)" "hold r 500 Map.empty T 0 s2"
    using mem_refuses(3) [OF 1(2)] by blast
  obtain e'' s3 where 3: "st_Delete (lb_Store mem_lab) (lb_cancelled mem_lab) keyA s2 = (Some e'', s3)" "hold r 500 Map.empty T 0 s3"
    using mem_refuses(4) [OF 2(2)] by blast
  show "cancelledContextIsAnError mem_lab s = Some True"
    using 1 2 3 miss by (simp add: cancelledContextIsAnError_def require_def)
  obtain e s1 where 1: "ts_GetTagged (lb_TagStore mem_lab) Background keyA [genA] 0 s = (Inl e, s1)" "hold r 500 Map.empty T 0 s1"
    using mem_refuses(5) [OF h] by blast
  obtain e' s2 where 2: "ts_Bump (lb_TagStore mem_lab) Background [genA] 0 s1 = (Some e', s2)" using mem_refuses(6) [OF 1(2)] by blast
  show "nonPositiveCounterTTLIsRejected mem_lab s = Some True"
    using 1 2 by (simp add: nonPositiveCounterTTLIsRejected_def require_def pass_def)
  obtain e s1 where 1: "ts_GetTagged (lb_TagStore mem_lab) (lb_cancelled mem_lab) keyA [genA] Minute s = (Inl e, s1)" "hold r 500 Map.empty T 0 s1"
    using mem_refuses(7) [OF h] by blast
  obtain e' s2 where 2: "ts_Bump (lb_TagStore mem_lab) (lb_cancelled mem_lab) [genA] Minute s1 = (Some e', s2)" using mem_refuses(8) [OF 1(2)] by blast
  show "taggedCancelledContextIsAnError mem_lab s = Some True"
    using 1 2 by (simp add: taggedCancelledContextIsAnError_def require_def pass_def)
qed

text \<open>The wait: while the entry may still be there the test sleeps, and the deadline is far away.\<close>

lemma hold_Get_either:
  assumes "hold r n M T d s" "M k = Some (v, x)"
  obtains s' where "st_Get (lb_Store mem_lab) Background k s = (Inr (Some v), s')" "hold r n M T d s'"
  | s' where "st_Get (lb_Store mem_lab) Background k s = (Inr None, s')"
proof -
  obtain l where l: "rel s l" "lhold r n M T d l" using assms by (auto simp: hold_def)
  then have es: "map_of (l_es l) k = Some (v, x)" using assms(2) by (simp add: lhold_def)
  note g = mem_Get_go [OF l(1), of None k "Inl nil_panic" s]
  show thesis
  proof (cases "l_clock l (l_tick l) < x")
    case True
    have "lru_get k l = (Some v, l\<lparr>l_tick := Suc (l_tick l), l_es := (k, v, x) # without k (l_es l)\<rparr>)"
      using es True by (simp add: lru_get_def lru_now_def)
    moreover have "lhold r n M T d (l\<lparr>l_tick := Suc (l_tick l), l_es := (k, v, x) # without k (l_es l)\<rparr>)"
      using es l(2) without_room [OF es] by (auto simp: lhold_def fun_eq_iff)
    ultimately show thesis using g
      by (intro that(1) [of "snd (st_Get (lb_Store mem_lab) Background k s)"])
        (auto simp: lab hold_def lru_Get_def split_beta prod_eq_iff)
  next
    case False
    then have "fst (lru_get k l) = None" using es by (simp add: lru_get_def lru_now_def)
    then show thesis using g that(2) by (auto simp: lab lru_Get_def split_beta prod_eq_iff)
  qed
qed

lemma awaitMiss_ends:
  assumes "hold r n M T d s" "M keyA = Some (v, x)" "x \<le> T + int m * (10 * ms)" "T + int m * (10 * ms) + jiffy \<le> deadline"
  shows "awaitMiss mem_lab deadline s = Some True"
  using assms
proof (induction m arbitrary: T s)
  case 0
  then obtain s' where "st_Get (lb_Store mem_lab) Background keyA s = (Inr None, s')"
    using hold_Get(3) [OF "0.prems"(1), of keyA] by (auto simp: gone_def)
  then show ?case by (subst awaitMiss.simps) simp
next
  case (Suc m)
  from hold_Get_either [OF Suc.prems(1,2)] show ?case
  proof cases
    case (1 s1)
    from hold_Now [OF 1(2)] obtain t s2 where t: "lb_Now mem_lab s1 = (t, s2)" "t \<le> T + jiffy" "hold r n M T d s2" by blast
    have "0 \<le> int (Suc m) * (10 * ms)" by (simp add: ms_def)
    then have "t \<le> deadline" using t(2) Suc.prems(4) by linarith
    moreover have "awaitMiss mem_lab deadline (lb_Sleep mem_lab (10 * ms) s2) = Some True"
      by (rule Suc.IH [OF hold_Sleep [OF t(3)] Suc.prems(2)]) (use Suc.prems(3,4) in \<open>simp_all add: algebra_simps\<close>)
    ultimately show ?thesis using 1(1) t(1) by (subst awaitMiss.simps) simp
  qed (subst awaitMiss.simps, simp)
qed

lemma test_expiry:
  assumes h: "hold r 500 Map.empty T 0 s"
  shows "entriesExpire mem_lab s = Some True"
  unfolding entriesExpire_def
proof (rule t_set_rule [OF h], simp, simp add: times, simp add: test_keys, erule wantValue_rule)
  fix x s'
  assume x: "T + 100 * ms \<le> x" "x \<le> T + jiffy + 100 * ms"
  then show "lives [keyA \<mapsto> (bytes_of ''short-lived'', x)] T keyA (bytes_of ''short-lived'')" by (simp add: times)
  fix s2 assume s2: "hold r (500 - 1) [keyA \<mapsto> (bytes_of ''short-lived'', x)] T 0 s2"
  from hold_Now [OF s2] obtain t s3 where t: "lb_Now mem_lab s2 = (t, s3)" "T \<le> t"
    "hold r (500 - 1) [keyA \<mapsto> (bytes_of ''short-lived'', x)] T 0 s3" by blast
  have "awaitMiss mem_lab (t + 5 * Second) s3 = Some True"
    by (rule awaitMiss_ends [OF t(3), where m = 15]) (use x t(2) in \<open>auto simp: times\<close>)
  then show "(case lb_Now mem_lab s2 of (t, x) \<Rightarrow> awaitMiss mem_lab (t + 5 * Second) x) = Some True" using t(1) by simp
qed

section \<open>Concurrent use\<close>

text \<open>Whatever the order of the calls, an entry never has the value of another key.\<close>

definition own :: "lru \<Rightarrow> bool" where
  "own l \<longleftrightarrow> (\<forall>(k, v, x) \<in> set (l_es l). string_of v = k)"

definition owns :: "store \<Rightarrow> bool" where
  "owns s \<longleftrightarrow> (\<exists>l. rel s l \<and> own l)"

lemma own_same [simp]: "own (lru_report l) = own l" "own (lru_note e m l) = own l" "own (l\<lparr>l_tick := i\<rparr>) = own l"
  by (simp_all add: own_def lru_report_def lru_note_def)

lemma own_get: "own l \<Longrightarrow> own (snd (lru_get k l)) \<and> (\<forall>v. fst (lru_get k l) = Some v \<longrightarrow> string_of v = k)"
  by (auto simp: own_def lru_get_def lru_now_def lru_note_def set_without dest!: map_of_SomeD split: option.split)

lemma own_put: "own l \<Longrightarrow> string_of v = k \<Longrightarrow> own (lru_put (k, v, x) l)"
proof -
  let ?es = "without k (l_es l)"
  assume l: "own l" "string_of v = k"
  have "set (trim m b z ?es) \<subseteq> set (l_es l)" for m b z
    using trim_subset [of m b z ?es] by (auto simp: set_without)
  from subsetD [OF this] show ?thesis using l by (fastforce simp: own_def lru_put_def Let_def lru_note_def set_without)
qed

lemma owns_Set:
  assumes "owns s"
  obtains s' where "st_Set (lb_Store mem_lab) Background k (bytes_of k) Minute s = (None, s')" "owns s'"
proof -
  obtain l where l: "rel s l" "own l" using assms by (auto simp: owns_def)
  let ?l = "lru_put (k, bytes_of k, fst (lru_now l) + Minute) (snd (lru_now l))"
  have "lru_Set None k (bytes_of k) Minute l = (None, lru_report ?l)" by (simp add: lru_Set_def split_beta times)
  moreover have "own ?l" by (rule own_put) (simp_all add: lru_now_def l(2))
  ultimately show thesis using mem_Set_go [OF l(1), of None k "bytes_of k" Minute "Some nil_panic" s]
    by (intro that [of "snd (st_Set (lb_Store mem_lab) Background k (bytes_of k) Minute s)"]) (auto simp: lab owns_def prod_eq_iff)
qed

lemma owns_Get:
  assumes "owns s"
  obtains v s' where "st_Get (lb_Store mem_lab) Background k s = (Inr v, s')" "owns s'" "\<forall>u. v = Some u \<longrightarrow> string_of u = k"
proof -
  obtain l where l: "rel s l" "own l" using assms by (auto simp: owns_def)
  show thesis using mem_Get_go [OF l(1), of None k "Inl nil_panic" s] own_get [OF l(2), of k]
    by (intro that [of "fst (lru_get k l)" "snd (st_Get (lb_Store mem_lab) Background k s)"])
      (auto simp: lab owns_def lru_Get_def split_beta prod_eq_iff)
qed

lemma owns_Delete:
  assumes "owns s"
  obtains s' where "st_Delete (lb_Store mem_lab) Background k s = (None, s')" "owns s'"
proof -
  obtain l where l: "rel s l" "own l" using assms by (auto simp: owns_def)
  have "own (l\<lparr>l_es := without k (l_es l)\<rparr>)" using l(2) by (auto simp: own_def set_without)
  then show thesis using mem_Delete_go [OF l(1), of None k "Some nil_panic" s]
    by (intro that [of "snd (st_Delete (lb_Store mem_lab) Background k s)"]) (auto simp: lab owns_def lru_Delete_def prod_eq_iff)
qed

lemma test_concurrent: "owns s \<Longrightarrow> run_uses mem_lab us s = Some True"
proof (induction us arbitrary: s)
  case (Cons u us)
  show ?case
  proof (cases u)
    case (USet k)
    then show ?thesis using Cons.IH by (auto intro: owns_Set [OF Cons.prems, of k] simp: require_def)
  next
    case (UGet k)
    then show ?thesis using Cons.IH by (auto intro: owns_Get [OF Cons.prems, of k] simp: require_def split: option.split)
  next
    case (UDelete k)
    then show ?thesis using Cons.IH by (auto intro: owns_Delete [OF Cons.prems, of k] simp: require_def)
  qed
qed simp

lemma fresh_owns: "hold r n Map.empty T d s \<Longrightarrow> owns s"
  by (force simp: hold_def lhold_def owns_def own_def)

section \<open>The suite for tag stores\<close>

lemma gen_range:
  assumes "good_draws r"
  shows "inRange (gen r i) \<and> gen r i \<ge> push_bit 20 1" "inRange (gen r i + 1) \<and> gen r i + 1 \<ge> push_bit 20 1"
proof -
  have g: "push_bit 20 1 \<le> gen r i" "gen r i + 1 < push_bit 62 1" using assms by (simp_all add: good_draws_def)
  obtain b where b: "r i = Some b" using assms unfolding good_draws_def by blast
  then have "NewGeneration (Some b) = Inr (gen r i)" using NewGeneration_gen [OF assms, of i] by simp
  then have "unat (gen r i) = unat (un_be64 b) mod (2 ^ 62 - 1) + 1" by (rule NewGeneration_unat)
  moreover have "unat (un_be64 b) mod (2 ^ 62 - 1) < 2 ^ 62 - 1" by simp
  ultimately have u: "unat (gen r i) < 2 ^ 62" by linarith
  then have "unat (gen r i + 1) = unat (gen r i) + 1" by (simp add: unat_word_ariths)
  then show "inRange (gen r i) \<and> gen r i \<ge> push_bit 20 1" "inRange (gen r i + 1) \<and> gen r i + 1 \<ge> push_bit 20 1"
    using g u by (simp_all add: inRange_def word_le_nat_alt word_less_nat_alt)
qed

lemma gone_other: "M' k = M k \<Longrightarrow> gone M T k \<Longrightarrow> gone M' T k"
  by (simp add: gone_def)

lemma lives_later: "M k = Some (v, x) \<Longrightarrow> T + Minute \<le> x \<Longrightarrow> lives M T k v"
  by (simp add: lives_def times)

text \<open>The first reading of one counter, and of two.\<close>

lemma t_gens_first:
  assumes "hold r n M T d s" "1 < n" "good_draws r" "M keyA = None" "gone M T gk" "length gk \<le> 500"
    "\<And>M' s'. hold r (n - 1) M' T (Suc d) s' \<Longrightarrow> lives M' T gk (be64 (gen r d)) \<Longrightarrow> \<forall>k. k \<noteq> gk \<longrightarrow> M' k = M k \<Longrightarrow>
       K [gen r d] s' = Some True"
  shows "t_gens mem_lab [gk] K s = Some True"
proof (rule t_gens_gone_rule [OF assms(1) _ assms(3,4)])
  fix M' s'
  assume h: "hold r (n - length [gk]) M' T (d + length [gk]) s'" "\<forall>k. k \<notin> set [gk] \<longrightarrow> M' k = M k"
    "\<forall>i < length [gk]. \<exists>x. M' ([gk] ! i) = Some (be64 (gen r (d + i)), x) \<and> T + Minute \<le> x"
  then have "lives M' T gk (be64 (gen r d))" using lives_later by fastforce
  then show "K (map (\<lambda>i. gen r (d + i)) [0..<length [gk]]) s' = Some True" using assms(7) [of M' s'] h by simp
qed (use assms(2,5,6) in auto)

lemma t_gens_again:
  assumes "hold r n M T d s" "0 < n" "good_draws r" "M keyA = None" "lives M T gk (be64 g)" "length gk \<le> 500"
    "\<And>s'. hold r n M T d s' \<Longrightarrow> K [g] s' = Some True"
  shows "t_gens mem_lab [gk] K s = Some True"
  using t_gens_live_rule [OF assms(1-4), of "[gk]" "\<lambda>_. g" K] assms(5-7) by simp

lemma gen_keys [simp]: "keyA \<noteq> genA" "keyA \<noteq> genB" "genA \<noteq> keyA" "genB \<noteq> keyA" "genA \<noteq> genB" "genB \<noteq> genA" "length genA \<le> 500" "length genB \<le> 500"
  by (simp_all add: test_keys)

lemma test_counters:
  assumes h: "hold r 500 Map.empty T 0 s" and r: "good_draws r"
  shows "missingCounterIsCreatedUnpredictably mem_lab s = Some True" "generationsAreStable mem_lab s = Some True"
    "bumpOfAMissingCounterIsUnpredictable mem_lab s = Some True"
proof -
  have r1: "gen r (Suc 0) \<noteq> gen r 0" using r by (auto simp: good_draws_def)
  show "missingCounterIsCreatedUnpredictably mem_lab s = Some True" unfolding missingCounterIsCreatedUnpredictably_def
    by (rule t_gens_gone_rule [OF h _ r]) (use r1 gen_range [OF r] in \<open>auto simp: require_def pass_def upt_rec\<close>)
  show "generationsAreStable mem_lab s = Some True" unfolding generationsAreStable_def
    by (rule t_gens_first [OF h _ r], simp_all, erule t_gens_again [where g = "gen r 0"]) (use r in \<open>simp_all add: require_def pass_def\<close>)
  show "bumpOfAMissingCounterIsUnpredictable mem_lab s = Some True"
    unfolding bumpOfAMissingCounterIsUnpredictable_def
    by (rule t_bump_rule [OF h _ r, where g = "gen r 0" and d' = "Suc 0"], simp_all, erule t_gens_again [where g = "gen r 0 + 1"])
      (use r gen_range [OF r, of 0] in \<open>simp_all add: require_def pass_def times\<close>)
qed

lemma test_readings:
  assumes h: "hold r 500 Map.empty T 0 s" and r: "good_draws r"
  shows "valueAndGenerationsTogether mem_lab s = Some True" "missingValueStillReturnsGenerations mem_lab s = Some True"
proof -
  have m: "0 < Minute" by (simp add: times)
  have c: "distinct [genA]" "(0 :: nat) < 490" by simp_all
  show "valueAndGenerationsTogether mem_lab s = Some True" unfolding valueAndGenerationsTogether_def
  proof (rule t_set_rule [OF h], simp, rule m, simp add: test_keys)
    fix x s1
    assume s1: "T + Minute \<le> x" "hold r (500 - 1) [keyA \<mapsto> (bytes_of ''value'', x)] T 0 s1"
    then have h1: "hold r (length [genA] + 498) [keyA \<mapsto> (bytes_of ''value'', x)] T 0 s1"
      "sure [keyA \<mapsto> (bytes_of ''value'', x)] T keyA (Some (bytes_of ''value''))" by (simp_all add: sure_def times)
    show "(case ts_GetTagged (lb_TagStore mem_lab) Background keyA [genA] Minute s1 of
         (Inl _, x) \<Rightarrow> Some False
       | (Inr (v, g), x) \<Rightarrow> require (v = Some (bytes_of ''value'') \<and> length (elems g) = 1) pass x) = Some True"
      by (rule hold_GetTagged_gone [OF h1(1) r m _ h1(2) c(1)]) (simp_all add: require_def pass_def elems_def)
  qed
  have h1: "hold r (length [genA] + 499) Map.empty T 0 s" "sure Map.empty T keyA None" using h by (simp_all add: sure_def)
  show "missingValueStillReturnsGenerations mem_lab s = Some True" unfolding missingValueStillReturnsGenerations_def
    by (rule hold_GetTagged_gone [OF h1(1) r m _ h1(2) c(1)])
      (use gen_range [OF r] in \<open>simp_all add: require_def pass_def elems_def\<close>)
qed

lemma two_keys: "(\<forall>i < length [a, b]. P i ([a, b] ! i)) \<longleftrightarrow> P 0 a \<and> P (Suc 0) b"
  by (auto simp: less_Suc_eq)

lemma test_bump:
  assumes h: "hold r 500 Map.empty T 0 s" and r: "good_draws r"
  shows "bumpAdvances mem_lab s = Some True"
  unfolding bumpAdvances_def
proof (rule t_gens_gone_rule [OF h _ r])
  fix M' s1
  assume "hold r (500 - length [genA, genB]) M' T (0 + length [genA, genB]) s1"
    "\<forall>k. k \<notin> set [genA, genB] \<longrightarrow> M' k = None"
    "\<forall>i < length [genA, genB]. \<exists>x. M' ([genA, genB] ! i) = Some (be64 (gen r (0 + i)), x) \<and> T + Minute \<le> x"
  then have s1: "hold r 498 M' T 2 s1" "M' keyA = None" "lives M' T genA (be64 (gen r 0))" "lives M' T genB (be64 (gen r 1))"
    using two_keys [of genA genB "\<lambda>i k. \<exists>x. M' k = Some (be64 (gen r (0 + i)), x) \<and> T + Minute \<le> x"] lives_later
    by (auto simp: numeral_2_eq_2)
  let ?g = "\<lambda>k. if k = genA then gen r 0 + 1 else gen r 1"
  have "t_bump mem_lab [genA] (t_gens mem_lab [genA, genB] (\<lambda>after.
       require (after ! 0 \<noteq> gen r 0) (require (after ! 1 = gen r 1) pass))) s1 = Some True"
    by (rule t_bump_rule [OF s1(1) _ r, where g = "gen r 0" and d' = 2], simp, simp, simp add: s1(3),
        erule t_gens_live_rule [where g = ?g])
      (use s1(2,4) r in \<open>simp_all add: require_def pass_def times\<close>)
  then show "t_bump mem_lab [genA] (t_gens mem_lab [genA, genB] (\<lambda>after.
       require (after ! 0 \<noteq> map (\<lambda>i. gen r (0 + i)) [0..<length [genA, genB]] ! 0) (
       require (after ! 1 = map (\<lambda>i. gen r (0 + i)) [0..<length [genA, genB]] ! 1) pass))) s1 = Some True"
    by (simp add: upt_rec)
qed simp_all

lemma test_vanished:
  assumes h: "hold r 500 Map.empty T 0 s" and r: "good_draws r"
  shows "vanishedCounterNeverRepeats mem_lab s = Some True"
  unfolding vanishedCounterNeverRepeats_def
proof (rule t_gens_first [OF h _ r])
  fix M1 s1
  let ?last = "t_gens mem_lab [genA] (\<lambda>g. require (g ! 0 \<notin> {gen r 0, gen r 0 + 1}) pass)"
  assume 1: "hold r (500 - 1) M1 T (Suc 0) s1" "lives M1 T genA (be64 (gen r 0))" "\<forall>k. k \<noteq> genA \<longrightarrow> M1 k = None"
  show "t_bump mem_lab [genA] (t_gens mem_lab [genA] (\<lambda>g2. t_delete mem_lab genA (
      t_gens mem_lab [genA] (\<lambda>g. require (g ! 0 \<notin> {[gen r 0] ! 0, g2 ! 0}) pass)))) s1 = Some True"
  proof (rule t_bump_rule [OF 1(1) _ r, where g = "gen r 0" and d' = "Suc 0"])
    fix x s2
    assume 2: "T + Minute \<le> x" "hold r (500 - 1 - 2) (M1(genA \<mapsto> (be64 (gen r 0 + 1), x))) T (Suc 0) s2"
    show "t_gens mem_lab [genA] (\<lambda>g2. t_delete mem_lab genA (
        t_gens mem_lab [genA] (\<lambda>g. require (g ! 0 \<notin> {[gen r 0] ! 0, g2 ! 0}) pass))) s2 = Some True"
    proof (rule t_gens_again [OF 2(2) _ r, where g = "gen r 0 + 1"])
      fix s3
      assume 3: "hold r (500 - 1 - 2) (M1(genA \<mapsto> (be64 (gen r 0 + 1), x))) T (Suc 0) s3"
      have "?last s4 = Some True" if s4: "hold r 497 (M1(genA \<mapsto> (be64 (gen r 0 + 1), x), genA := None)) T (Suc 0) s4" for s4
        by (rule t_gens_first [OF s4 _ r]) (use r 1(3) in \<open>simp_all add: require_def pass_def good_draws_def\<close>)
      then show "t_delete mem_lab genA (
          t_gens mem_lab [genA] (\<lambda>g. require (g ! 0 \<notin> {[gen r 0] ! 0, [gen r 0 + 1] ! 0}) pass)) s3 = Some True"
        using t_delete_rule [OF 3, of genA ?last] by simp
    qed (use 1(3) 2(1) in \<open>simp_all add: times\<close>)
  qed (use 1(2) in simp_all)
qed simp_all

lemma bumps_rule:
  assumes "hold r m M T d s" "m = 2 * length xs + n" "good_draws r" "lives M T genA (be64 g)" "M keyA = None"
    "\<And>M' s'. hold r n M' T d s' \<Longrightarrow> lives M' T genA (be64 (g + of_nat (length xs))) \<Longrightarrow> M' keyA = None \<Longrightarrow> K s' = Some True"
  shows "foldr (\<lambda>_ k. t_bump mem_lab [genA] k) xs K s = Some True"
  using assms(1,2,4-6)
proof (induction xs arbitrary: M s g m)
  case (Cons x xs)
  show ?case unfolding foldr.simps comp_def
  proof (rule t_bump_rule [OF Cons.prems(1) _ assms(3), where g = g and d' = d])
    fix y s'
    assume y: "T + Minute \<le> y" "hold r (m - 2) (M(genA \<mapsto> (be64 (g + 1), y))) T d s'"
    show "foldr (\<lambda>_ k. t_bump mem_lab [genA] k) xs K s' = Some True"
    proof (rule Cons.IH [OF y(2)])
      show "lives (M(genA \<mapsto> (be64 (g + 1), y))) T genA (be64 (g + 1))" using y(1) by (simp add: times)
      show "K s2 = Some True" if "hold r n M' T d s2" "lives M' T genA (be64 (g + 1 + of_nat (length xs)))" "M' keyA = None" for M' s2
        using Cons.prems(5) [OF that(1) _ that(3)] that(2) by (simp add: ac_simps)
    qed (use Cons.prems in simp_all)
  qed (use Cons.prems in simp_all)
qed simp

lemma test_concurrent_bumps:
  assumes h: "hold r 500 Map.empty T 0 s" and r: "good_draws r"
  shows "concurrentBumpsAreAtomic mem_lab s = Some True"
  unfolding concurrentBumpsAreAtomic_def
proof (rule t_gens_first [OF h _ r])
  fix M1 s1
  assume 1: "hold r (500 - 1) M1 T (Suc 0) s1" "lives M1 T genA (be64 (gen r 0))" "\<forall>k. k \<noteq> genA \<longrightarrow> M1 k = None"
  show "foldr (\<lambda>_ k. t_bump mem_lab [genA] k) [0..<8 * 25] (
      t_gens mem_lab [genA] (\<lambda>got. require (got ! 0 = [gen r 0] ! 0 + 8 * 25) pass)) s1 = Some True"
  proof (rule bumps_rule [OF 1(1) _ r 1(2), where n = 99])
    fix M' s'
    assume 2: "hold r 99 M' T (Suc 0) s'" "lives M' T genA (be64 (gen r 0 + of_nat (length [0..<8 * 25])))" "M' keyA = None"
    then show "t_gens mem_lab [genA] (\<lambda>got. require (got ! 0 = [gen r 0] ! 0 + 8 * 25) pass) s' = Some True"
      using t_gens_again [OF 2(1) _ r 2(3,2)] by (simp add: require_def pass_def)
  qed (use 1(3) in simp_all)
qed simp_all

text \<open>A counter that may have expired by now: the same generation, or the next draw.\<close>

lemma hold_counter_either:
  assumes h: "hold r n M T d s" and k: "M keyA = None" "M gk = Some (be64 g, x)" and r: "good_draws r" and ttl: "0 < ttl"
  obtains s' where "ts_GetTagged (lb_TagStore mem_lab) Background keyA [gk] ttl s = (Inr (None, Some [g]), s')" "hold r n M T d s'"
  | s' where "ts_GetTagged (lb_TagStore mem_lab) Background keyA [gk] ttl s = (Inr (None, Some [gen r d]), s')"
proof -
  obtain l where l: "rel s l" "lhold r n M T d l" using h by (auto simp: hold_def)
  have es: "map_of (l_es l) gk = Some (be64 g, x)" "map_of (l_es l) keyA = None" "l_draw l = d" "l_rand l = r"
    using k l(2) by (simp_all add: lhold_def)
  have key: "lru_get keyA l = (None, l)" using es(2) by (simp add: lru_get_def)
  note go = sim_go [OF mem_GetTagged_sim [OF l(1), of None keyA "[gk]" ttl], of "Inl nil_panic" s]
  show thesis
  proof (cases "l_clock l (l_tick l) < x")
    case True
    let ?l = "l\<lparr>l_tick := Suc (l_tick l), l_es := (gk, be64 g, x) # without gk (l_es l)\<rparr>"
    have "lru_counter gk ttl l = (Inr g, ?l)" using es True by (simp add: lru_counter_def lru_get_def lru_now_def)
    moreover have "lhold r n M T d ?l" using es l(2) without_room [OF es(1)] by (auto simp: lhold_def fun_eq_iff)
    ultimately show thesis using go ttl key
      by (intro that(1) [of "snd (ts_GetTagged (lb_TagStore mem_lab) Background keyA [gk] ttl s)"])
        (auto simp: lab lru_GetTagged_def hold_def apfst_def map_prod_def split_beta prod_eq_iff)
  next
    case False
    then have "fst (lru_counter gk ttl l) = Inr (gen r d)"
      using es NewGeneration_gen [OF r, of d] by (simp add: lru_counter_def lru_get_def lru_now_def lru_note_def)
    then show thesis using go ttl key
      by (intro that(2) [of "snd (ts_GetTagged (lb_TagStore mem_lab) Background keyA [gk] ttl s)"])
        (cases "lru_counter gk ttl l", auto simp: lab lru_GetTagged_def apfst_def map_prod_def split_beta prod_eq_iff)
  qed
qed

text \<open>One that has, read alone.\<close>

lemma hold_counter_gone:
  assumes "hold r n M T d s" "M keyA = None" "good_draws r" "1 < n" "0 < ttl" "length gk \<le> 500" "gone M T gk"
  obtains s' M' x where "ts_GetTagged (lb_TagStore mem_lab) Background keyA [gk] ttl s = (Inr (None, Some [gen r d]), s')"
    "hold r (n - 1) M' T (Suc d) s'" "M' gk = Some (be64 (gen r d), x)" "T + ttl \<le> x" "x \<le> T + jiffy + ttl"
    "\<forall>k. k \<noteq> gk \<longrightarrow> M' k = M k"
proof -
  have "hold r (length [gk] + (n - 1)) M T d s" "0 < n - 1" "sure M T keyA None" "distinct [gk]"
    "\<forall>k \<in> set [gk]. length k \<le> 500 \<and> gone M T k" using assms by (simp_all add: sure_def)
  from hold_GetTagged_gone [OF this(1) assms(3,5) this(2-5)] obtain s' M' where
    "ts_GetTagged (lb_TagStore mem_lab) Background keyA [gk] ttl s
      = (Inr (None, Some (map (\<lambda>i. gen r (d + i)) [0..<length [gk]])), s')" "hold r (n - 1) M' T (d + length [gk]) s'"
    "\<forall>i < length [gk]. \<exists>x. M' ([gk] ! i) = Some (be64 (gen r (d + i)), x) \<and> T + ttl \<le> x \<and> x \<le> T + jiffy + ttl"
    "\<forall>k. k \<notin> set [gk] \<longrightarrow> M' k = M k" by blast
  then show thesis using that [of s' M'] by auto
qed

lemma awaitNew_ends:
  assumes "hold r n M T d s" "M keyA = None" "M genA = Some (be64 g, x)" "good_draws r" "gen r d \<noteq> g"
    "x \<le> T + int m * (10 * ms)" "T + int m * (10 * ms) + jiffy \<le> deadline" "1 < n"
  shows "awaitNew mem_lab g deadline s = Some True"
  using assms(1,6,7)
proof (induction m arbitrary: T s)
  case 0
  have m: "0 < Minute" by (simp add: times)
  obtain s' where "ts_GetTagged (lb_TagStore mem_lab) Background keyA [genA] Minute s = (Inr (None, Some [gen r d]), s')"
  proof (rule hold_counter_gone [OF "0.prems"(1) assms(2,4,8) m, of genA, OF gen_keys(7)])
    show "gone M T genA" using assms(3) "0.prems"(2) by (simp add: gone_def)
  qed simp
  then show ?case using assms(5) by (subst awaitNew.simps) (simp add: elems_def)
next
  case (Suc m)
  have m: "0 < Minute" by (simp add: times)
  from hold_counter_either [OF Suc.prems(1) assms(2,3,4) m] show ?case
  proof cases
    case (1 s1)
    from hold_Now [OF 1(2)] obtain t s2 where t: "lb_Now mem_lab s1 = (t, s2)" "t \<le> T + jiffy" "hold r n M T d s2" by blast
    have "0 \<le> int (Suc m) * (10 * ms)" by (simp add: ms_def)
    then have "t \<le> deadline" using t(2) Suc.prems(3) by linarith
    moreover have "awaitNew mem_lab g deadline (lb_Sleep mem_lab (10 * ms) s2) = Some True"
      by (rule Suc.IH [OF hold_Sleep [OF t(3)]]) (use Suc.prems(2,3) in \<open>simp_all add: algebra_simps\<close>)
    ultimately show ?thesis using 1(1) t(1) by (subst awaitNew.simps) (simp add: elems_def)
  next
    case (2 s1)
    then show ?thesis using assms(5) by (subst awaitNew.simps) (simp add: elems_def)
  qed
qed

lemma test_counter_expiry:
  assumes h: "hold r 500 Map.empty T 0 s" and r: "good_draws r"
  shows "countersExpire mem_lab s = Some True" "bumpRefreshesTheCounterTTL mem_lab s = Some True"
proof -
  have g: "gen r (Suc 0) \<noteq> gen r 0" using r by (auto simp: good_draws_def)
  have read: thesis if "0 < ttl" and "\<And>s1 M1 x. ts_GetTagged (lb_TagStore mem_lab) Background keyA [genA] ttl s
      = (Inr (None, Some [gen r 0]), s1) \<Longrightarrow> hold r 499 M1 T (Suc 0) s1 \<Longrightarrow> M1 genA = Some (be64 (gen r 0), x) \<Longrightarrow>
      T + ttl \<le> x \<Longrightarrow> x \<le> T + jiffy + ttl \<Longrightarrow> M1 keyA = None \<Longrightarrow> thesis" for ttl thesis
    by (rule hold_counter_gone [OF h _ r _ that(1), of genA]) (use that(2) in simp_all)
  show "countersExpire mem_lab s = Some True"
  proof (rule read [of "100 * ms"])
    fix s1 M1 x
    assume 1: "ts_GetTagged (lb_TagStore mem_lab) Background keyA [genA] (100 * ms) s = (Inr (None, Some [gen r 0]), s1)"
      "hold r 499 M1 T (Suc 0) s1" "M1 genA = Some (be64 (gen r 0), x)" "x \<le> T + jiffy + 100 * ms" "M1 keyA = None"
    from hold_Now [OF 1(2)] obtain t s2 where t: "lb_Now mem_lab s1 = (t, s2)" "T \<le> t" "hold r 499 M1 T (Suc 0) s2" by blast
    have "awaitNew mem_lab (gen r 0) (t + 5 * Second) s2 = Some True"
      by (rule awaitNew_ends [OF t(3) 1(5,3) r g, where m = 15]) (use 1(4) t(2) in \<open>auto simp: times\<close>)
    then show ?thesis using 1(1) t(1) by (simp add: countersExpire_def elems_def)
  qed (simp add: times)
  show "bumpRefreshesTheCounterTTL mem_lab s = Some True"
  proof (rule read [of "200 * ms"])
    fix s1 M1 x
    assume 1: "ts_GetTagged (lb_TagStore mem_lab) Background keyA [genA] (200 * ms) s = (Inr (None, Some [gen r 0]), s1)"
      "hold r 499 M1 T (Suc 0) s1" "M1 genA = Some (be64 (gen r 0), x)" "T + 200 * ms \<le> x" "M1 keyA = None"
    let ?g = "gen r 0 + 1"
    let ?rest = "t_gens mem_lab [genA] (\<lambda>bumped x. t_gens mem_lab [genA] (\<lambda>cur. require (cur ! 0 = bumped ! 0) pass)
        (lb_Sleep mem_lab (400 * ms) x))"
    have "t_bump mem_lab [genA] ?rest s1 = Some True"
    proof (rule t_bump_rule [OF 1(2) _ r, where g = "gen r 0" and d' = "Suc 0"])
      fix y s2
      assume 2: "T + Minute \<le> y" "hold r (499 - 2) (M1(genA \<mapsto> (be64 ?g, y))) T (Suc 0) s2"
      show "?rest s2 = Some True"
      proof (rule t_gens_again [OF 2(2) _ r])
        fix s3
        assume "hold r (499 - 2) (M1(genA \<mapsto> (be64 ?g, y))) T (Suc 0) s3"
        from hold_Sleep [OF this] have 3: "hold r 497 (M1(genA \<mapsto> (be64 ?g, y))) (T + 400 * ms) (Suc 0)
            (lb_Sleep mem_lab (400 * ms) s3)" by simp
        show "t_gens mem_lab [genA] (\<lambda>cur. require (cur ! 0 = [?g] ! 0) pass) (lb_Sleep mem_lab (400 * ms) s3) = Some True"
          by (rule t_gens_again [OF 3 _ r, where g = ?g]) (use 1(5) 2(1) in \<open>simp_all add: require_def pass_def times\<close>)
      qed (use 1(5) 2(1) in \<open>simp_all add: times\<close>)
    qed (use 1(3,4) in \<open>simp_all add: lives_def times\<close>)
    then show ?thesis using 1(1) by (simp add: bumpRefreshesTheCounterTTL_def t_bump_def)
  qed (simp add: times)
qed

section \<open>The suites pass\<close>

text \<open>A store \<open>New\<close> made, with room for a test, on a clock that is steady within fifty milliseconds.\<close>

definition steady :: "(nat \<Rightarrow> time) \<Rightarrow> bool" where
  "steady clk \<longleftrightarrow> (\<exists>T. \<forall>i. T \<le> clk i \<and> clk i \<le> T + jiffy)"

lemma New_fresh:
  assumes "mem_New clk r opts = Inr s" "steady clk" "good_draws r" "500 \<le> maxEntries s" "256000 \<le> maxBytes s"
  shows "fresh_store r s"
proof -
  obtain T where "\<forall>i. T \<le> clk i \<and> clk i \<le> T + jiffy" using assms(2) unfolding steady_def by blast
  then have "lhold r 500 Map.empty T 0 (lru_New clk r (maxEntries s) (maxBytes s) (m_onEvict s))"
    using assms(4,5) by (simp add: lhold_def lru_New_def)
  then show ?thesis using New_rel [OF assms(1)] assms(3) unfolding fresh_store_def hold_def by blast
qed

lemma passes_RunStore:
  assumes "fresh_store r s" "(name, test) \<in> set (RunStore mem_lab schedule)"
  shows "test s = Some True"
proof -
  obtain T where h: "hold r 500 Map.empty T 0 s" using assms(1) unfolding fresh_store_def by blast
  have "concurrentUse mem_lab schedule s = Some True"
    using test_concurrent [OF fresh_owns [OF h]] by (simp add: concurrentUse_def)
  then show ?thesis
    using assms(2) test_sets [OF h] test_values [OF h] test_refusals(1,2) [OF h] test_expiry [OF h] by (auto simp: RunStore_def)
qed

lemma passes_RunTagStore:
  assumes "fresh_store r s" "(name, test) \<in> set (RunTagStore mem_lab)"
  shows "test s = Some True"
proof -
  obtain T where h: "hold r 500 Map.empty T 0 s" using assms(1) unfolding fresh_store_def by blast
  have r: "good_draws r" using assms(1) unfolding fresh_store_def by blast
  note tests = test_counters [OF h r] test_readings [OF h r] test_bump [OF h r] test_vanished [OF h r]
    test_counter_expiry [OF h r] test_refusals(3,4) [OF h] test_concurrent_bumps [OF h r]
  show ?thesis using assms(2) tests by (auto simp: RunTagStore_def)
qed

text \<open>The schedule that runs the goroutines one after the other is one of the interleavings.\<close>

lemma interleaving_nils: "interleaving xss zs \<Longrightarrow> interleaving ([] # xss) zs"
proof (induction rule: interleaving.induct)
  case (finished xss)
  then show ?case by (intro interleaving.finished) simp
next
  case (step i xss y ys zs)
  then show ?case using interleaving.step [of "Suc i" "[] # xss" y ys zs] by simp
qed

lemma interleaving_concat: "interleaving xss (concat xss)"
proof (induction xss)
  case Nil
  show ?case by (simp add: interleaving.finished)
next
  case (Cons xs xss)
  have "interleaving (xs # xss) (xs @ concat xss)"
  proof (induction xs)
    case (Cons x xs)
    then show ?case using interleaving.step [of 0 "(x # xs) # xss" x xs] by simp
  qed (simp add: interleaving_nils [OF Cons.IH])
  then show ?case by simp
qed

definition two_draws :: "nat \<Rightarrow> bytes option" where
  "two_draws i = Some (be64 (if i = 0 then push_bit 30 1 else push_bit 31 1))"

definition test_store :: store where
  "test_store = projr (mem_New (\<lambda>_. 0) two_draws [])"

lemma test_New: "mem_New (\<lambda>_. 0) two_draws [] = Inr test_store"
  by (simp add: test_store_def mem_New_def DefaultMaxEntries_def DefaultMaxBytes_def Let_def)

lemma test_store_ready: "steady (\<lambda>_. 0)" "good_draws two_draws" "500 \<le> maxEntries test_store" "256000 \<le> maxBytes test_store"
proof -
  show "steady (\<lambda>_. 0)" by (auto simp: steady_def jiffy_def ms_def)
  have "gen two_draws i = (if i = 0 then push_bit 30 1 + 1 else push_bit 31 1 + 1)" for i
    by (simp add: gen_def two_draws_def NewGeneration_def)
  then show "good_draws two_draws" by (simp add: good_draws_def two_draws_def)
  show "500 \<le> maxEntries test_store" "256000 \<le> maxBytes test_store"
    by (simp_all add: test_store_def mem_New_def DefaultMaxEntries_def DefaultMaxBytes_def Let_def)
qed

section \<open>Properties\<close>

text \<open>C38. A store that \<open>memory.New\<close> made with room for a test passes every modelled test of \<open>cisterntest.RunStore\<close>,
  the one of concurrent use under any interleaving of its eight goroutines, if the clock is steady and
  the random source does not repeat itself.  The tests that wait do end.\<close>

theorem mem_passes_RunStore:
  assumes "mem_New clk r opts = Inr s" "steady clk" "good_draws r" "500 \<le> maxEntries s" "256000 \<le> maxBytes s"
    and "interleaving (map user [0..<8]) schedule" "(name, test) \<in> set (RunStore mem_lab schedule)"
  shows "test s = Some True"
  by (rule passes_RunStore [OF New_fresh [OF assms(1-5)] assms(7)])

theorem mem_passes_RunStore_witness:
  "concurrentUse mem_lab (concat (map user [0..<8])) test_store = Some True"
  by (rule mem_passes_RunStore [OF test_New test_store_ready interleaving_concat, where name = "''ConcurrentUse''"])
    (simp add: RunStore_def)

text \<open>C39. It passes every modelled test of \<open>cisterntest.RunTagStore\<close>: a missing counter is created at an unpredictable
  value, one that vanished comes back at a value it never had, a bump moves its counter alone and renews
  its life, counters expire, and two hundred bumps in any order add two hundred.\<close>

theorem mem_passes_RunTagStore:
  assumes "mem_New clk r opts = Inr s" "steady clk" "good_draws r" "500 \<le> maxEntries s" "256000 \<le> maxBytes s"
    and "(name, test) \<in> set (RunTagStore mem_lab)"
  shows "test s = Some True"
  by (rule passes_RunTagStore [OF New_fresh [OF assms(1-5)] assms(6)])

theorem mem_passes_RunTagStore_witness:
  "vanishedCounterNeverRepeats mem_lab test_store = Some True"
  by (rule mem_passes_RunTagStore [OF test_New test_store_ready, where name = "''VanishedCounterNeverRepeats''"])
    (simp add: RunTagStore_def)

end
