(* ===== verification/BytesConforms.thy ===== *)
theory BytesConforms
  imports BytesRefine MemoryConforms
begin

text \<open>
  What callers may do with bytes, and what the store answers them: a caller makes slices, cuts them, writes
  into the ones it has, passes them to \<open>Set\<close> and is given more by \<open>Get\<close> and \<open>GetTagged\<close>.  Whatever it
  does, the answers are those of the store of values.  The two tests of \<open>cisterntest\<close> on byte sharing
  are at the end.
\<close>

section \<open>Callers\<close>

text \<open>Every slice a caller has is in one list: its own and those the store gave it.  A call names a slice of the
  list by its index; \<open>Cut\<close> goes up to the capacity, as slicing in Go does, and panics beyond it, as does an
  index no slice has: then nothing happens here.\<close>

datatype caller_act = Make bytes | Cut nat nat nat | Copy nat bytes
  | CallGet "error option" string | CallGetTagged "error option" string "string list" duration
  | CallBump "error option" "string list" duration | CallSet "error option" string nat duration
  | CallDelete "error option" string

type_synonym call_log = "(mcall \<times> mres) list"

definition given :: "slice option \<Rightarrow> slice list" where
  "given v = (case v of None \<Rightarrow> [] | Some v \<Rightarrow> [v])"

text \<open>A call is logged with the bytes that went in and came out, as they read at that moment.\<close>

fun caller_do :: "caller_act \<Rightarrow> slice list \<Rightarrow> bstore \<Rightarrow> (call_log \<times> slice list \<times> bstore) option" where
  "caller_do (Make bs) vs s = (let (v, s) = append_nil bs s in Some ([], vs @ [v], s))"
| "caller_do (Cut i off n) vs s =
     Some ([], if i < length vs \<and> sl_off (vs ! i) + off + n \<le> length (b_mem s (sl_arr (vs ! i)))
       then vs @ [\<lparr>sl_arr = sl_arr (vs ! i), sl_off = sl_off (vs ! i) + off, sl_len = n\<rparr>] else vs, s)"
| "caller_do (Copy i src) vs s =
     Some ([], vs, if i < length vs then s\<lparr>b_mem := sl_copy (vs ! i) src (b_mem s)\<rparr> else s)"
| "caller_do (CallGet e k) vs s = do {
     (r, s) \<leftarrow> bmem_Get e k s;
     Some ([(MGet e k, RGet (map_sum id (read_opt (b_mem s)) r))], vs @ case_sum (\<lambda>_. []) given r, s) }"
| "caller_do (CallGetTagged e k gks ttl) vs s = do {
     (r, s) \<leftarrow> bmem_GetTagged e k gks ttl s;
     Some ([(MGetTagged e k gks ttl, RTagged (map_sum id (apfst (read_opt (b_mem s))) r))],
       vs @ case_sum (\<lambda>_. []) (\<lambda>(v, _). given v) r, s) }"
| "caller_do (CallBump e gks ttl) vs s = do {
     (r, s) \<leftarrow> bmem_Bump e gks ttl s; Some ([(MBump e gks ttl, RErr r)], vs, s) }"
| "caller_do (CallSet e k i ttl) vs s =
     (if i < length vs then do {
        (r, t) \<leftarrow> bmem_Set e k (vs ! i) ttl s;
        Some ([(MSet e k (sl_read (b_mem s) (vs ! i)) ttl, RErr r)], vs, t) }
      else Some ([], vs, s))"
| "caller_do (CallDelete e k) vs s = do {
     (r, s) \<leftarrow> bmem_Delete e k s; Some ([(MDelete e k, RErr r)], vs, s) }"

fun caller_run :: "caller_act list \<Rightarrow> slice list \<Rightarrow> bstore \<Rightarrow> (call_log \<times> slice list \<times> bstore) option" where
  "caller_run [] vs s = Some ([], vs, s)"
| "caller_run (c # cs) vs s = do {
     (l, vs, s) \<leftarrow> caller_do c vs s;
     (ls, vs, s) \<leftarrow> caller_run cs vs s;
     Some (l @ ls, vs, s) }"

section \<open>A write of a caller\<close>

definition apart_from :: "slice list \<Rightarrow> bstore \<Rightarrow> bool" where
  "apart_from vs s \<longleftrightarrow> apart (sl_arr ` set vs) s"

lemma copy_apart:
  assumes A: "apart C s" and v: "sl_arr v \<in> C"
  shows "view (s\<lparr>b_mem := sl_copy v src (b_mem s)\<rparr>) = view s \<and> apart C (s\<lparr>b_mem := sl_copy v src (b_mem s)\<rparr>)"
proof
  let ?m = "sl_copy v src (b_mem s)"
  have other: "?m x = b_mem s x" if "x \<notin> C" for x using v that by (auto simp: sl_copy_def Let_def)
  have node: "sl_read ?m u = sl_read (b_mem s) u" if "slices (b_heap s) a = Some u" for a u
    using apartD [OF A that] other [of "sl_arr u"] by (auto simp: sl_read_def)
  have "view_heap ?m (b_heap s) = view_heap (b_mem s) (b_heap s)"
  proof
    fix a
    show "view_heap ?m (b_heap s) a = view_heap (b_mem s) (b_heap s) a"
    proof (cases "b_heap s a")
      case (Some n)
      then show ?thesis using node [of a "bn_value n"] by (simp add: slices_def view_node_def)
    qed simp
  qed
  then show "view (s\<lparr>b_mem := ?m\<rparr>) = view s" by (simp add: view_def)
  have "sl_arr u < b_brk s \<and> (sl_len u = 0 \<or> sl_off u + sl_len u \<le> length (?m (sl_arr u)) \<and> sl_arr u \<notin> insert 0 C)"
    if "slices (b_heap s) a = Some u" for a u
    using apartD [OF A that] other [of "sl_arr u"] by auto
  then show "apart C (s\<lparr>b_mem := ?m\<rparr>)" using apart_brk [OF A] by (simp add: apart_def)
qed

section \<open>The answers\<close>

definition as_values :: "slice list \<Rightarrow> bstore \<Rightarrow> (call_log \<times> slice list \<times> bstore) option \<Rightarrow> bool" where
  "as_values vs s q \<longleftrightarrow> (case q of
     None \<Rightarrow> \<exists>c. mem_call c (view s) = None
   | Some (l, ws, t) \<Rightarrow> mem_run (map fst l) (view s) = Some (map snd l, view t) \<and> apart_from ws t)"

lemma as_values_panics: "as_values vs s None \<Longrightarrow> \<exists>c. mem_call c (view s) = None"
  by (simp add: as_values_def)

lemma one_call: "mem_run [c] s = map_option (apfst (\<lambda>r. [r])) (mem_call c s)"
  by (cases "mem_call c s") auto

lemma given_arr: "sl_arr ` set (given v) = arrs v"
  by (cases v) (simp_all add: given_def arrs_def)

lemma call_as_values:
  assumes S: "b_sim (sl_arr ` set vs) s rd ow q m" and c: "mem_call c (view s) = map_option (apfst R) m"
    and g: "\<And>r. sl_arr ` set (got r) = ow r"
  shows "as_values vs s (do { (r, t) \<leftarrow> q; Some ([(c, R (rd (b_mem t) r))], vs @ got r, t) })"
  by (rule b_simE [OF S])
    (use c g in \<open>auto simp: as_values_def apart_from_def image_Un one_call simp del: mem_run.simps\<close>)

lemma caller_do_as_values:
  assumes A: "apart_from vs s"
  shows "as_values vs s (caller_do a vs s)"
proof -
  have A': "apart (sl_arr ` set vs) s" using A by (simp add: apart_from_def)
  have plain: "as_values vs s (do { (r, t) \<leftarrow> q; Some ([(c, R r)], vs, t) })"
    if "b_plain (sl_arr ` set vs) s q m" "mem_call c (view s) = map_option (apfst R) m" for q m c and R :: "error option \<Rightarrow> mres"
    using call_as_values [OF that, of "\<lambda>_. []"] by simp
  show ?thesis
  proof (cases a)
    case (Make bs)
    obtain v t where m: "append_nil bs s = (v, t)" by (cases "append_nil bs s")
    then show ?thesis using append_nil_apart(1,2) [OF A' m] Make by (simp add: as_values_def apart_from_def)
  next
    case (Cut i off n)
    have "sl_arr (vs ! i) \<in> sl_arr ` set vs" if "i < length vs" using that by simp
    then show ?thesis using A' Cut by (simp add: as_values_def apart_from_def insert_absorb)
  next
    case (Copy i src)
    show ?thesis
    proof (cases "i < length vs")
      case True
      then show ?thesis using copy_apart [OF A', of "vs ! i" src] Copy by (simp add: as_values_def apart_from_def)
    qed (use A Copy in \<open>simp add: as_values_def\<close>)
  next
    case (CallGet e k)
    show ?thesis unfolding CallGet caller_do.simps
      by (rule call_as_values [OF Get_bytes [OF A']]) (auto simp: given_arr split: sum.split)
  next
    case (CallGetTagged e k gks ttl)
    show ?thesis unfolding CallGetTagged caller_do.simps
      by (rule call_as_values [OF GetTagged_bytes [OF A']]) (auto simp: given_arr split: sum.split)
  next
    case (CallBump e gks ttl)
    show ?thesis unfolding CallBump caller_do.simps by (rule plain [OF Bump_bytes [OF A']]) simp
  next
    case (CallSet e k i ttl)
    show ?thesis
    proof (cases "i < length vs")
      case True
      show ?thesis unfolding CallSet caller_do.simps if_P [OF True] by (rule plain [OF Set_bytes [OF A']]) simp
    qed (use A CallSet in \<open>simp add: as_values_def\<close>)
  next
    case (CallDelete e k)
    show ?thesis unfolding CallDelete caller_do.simps by (rule plain [OF Delete_bytes [OF A']]) simp
  qed
qed

lemma mem_run_append:
  "mem_run as s = Some (rs, t) \<Longrightarrow> mem_run (as @ bs) s = map_option (apfst (\<lambda>us. rs @ us)) (mem_run bs t)"
  by (induction as arbitrary: s rs)
    (auto simp: bind_eq_Some_conv apfst_def map_prod_def map_option_case split: option.split prod.splits)

lemma caller_run_as_values:
  assumes "apart_from vs s" "rel (view s) l"
  shows "\<exists>log ws t. caller_run as vs s = Some (log, ws, t) \<and> mem_run (map fst log) (view s) = Some (map snd log, view t)"
  using assms
proof (induction as arbitrary: vs s l)
  case (Cons a as)
  have "\<not> (\<exists>c. mem_call c (view s) = None)"
    using mem_call_sim [OF Cons.prems(2)] by (metis option.distinct(1) sim_def)
  then have "caller_do a vs s \<noteq> None"
    using caller_do_as_values [OF Cons.prems(1), of a] as_values_panics by metis
  then obtain l1 ws t where d: "caller_do a vs s = Some (l1, ws, t)" "apart_from ws t"
      "mem_run (map fst l1) (view s) = Some (map snd l1, view t)"
    using caller_do_as_values [OF Cons.prems(1), of a] by (auto simp: as_values_def)
  obtain l' where "rel (view t) l'"
    using mem_run_sim [OF Cons.prems(2), of "map fst l1"] d(3) by (auto simp: sim_def)
  from Cons.IH [OF d(2) this] obtain l2 us u where "caller_run as ws t = Some (l2, us, u)"
      "mem_run (map fst l2) (view t) = Some (map snd l2, view u)" by blast
  then show ?case using d(1) mem_run_append [OF d(3), of "map fst l2"] by simp
qed simp

lemma New_view: "mem_New clk rnd opts = map_sum id view (bmem_New clk rnd opts)"
  by (simp add: mem_New_def bmem_New_def Let_def view_def view_heap_def view_node_def sl_read_def fun_eq_iff)

lemma New_apart: "bmem_New clk rnd opts = Inr s \<Longrightarrow> apart_from [] s"
  by (auto simp: bmem_New_def apart_from_def apart_def slices_def slice_nil_def Let_def split: if_splits)

section \<open>The tests of byte sharing\<close>

text \<open>What the two tests use of a store whose slices are in a memory of the outside.\<close>

record 'x byte_lab =
  bl_Set :: "string \<Rightarrow> slice \<Rightarrow> duration \<Rightarrow> 'x \<Rightarrow> error option \<times> 'x"
  bl_Get :: "string \<Rightarrow> 'x \<Rightarrow> slice option result \<times> 'x"
  bl_make :: "bytes \<Rightarrow> 'x \<Rightarrow> slice \<times> 'x"
  bl_copy :: "slice \<Rightarrow> bytes \<Rightarrow> 'x \<Rightarrow> 'x"
  bl_read :: "slice \<Rightarrow> 'x \<Rightarrow> bytes"

definition s_set :: "'x byte_lab \<Rightarrow> string \<Rightarrow> slice \<Rightarrow> duration \<Rightarrow> 'x test \<Rightarrow> 'x test" where
  "s_set bl key v ttl k x = (case bl_Set bl key v ttl x of (err, x) \<Rightarrow> require (err = None) k x)"

definition s_wantValue :: "'x byte_lab \<Rightarrow> string \<Rightarrow> bytes \<Rightarrow> 'x test \<Rightarrow> 'x test" where
  "s_wantValue bl key want k x =
     (case bl_Get bl key x of
        (Inr (Some got), x) \<Rightarrow> require (bl_read bl got x = want) k x
      | (_, x) \<Rightarrow> Some False)"

definition setDoesNotRetainTheCallersSlice :: "'x byte_lab \<Rightarrow> 'x test" where
  "setDoesNotRetainTheCallersSlice bl x =
     (case bl_make bl (bytes_of ''original'') x of (val, x) \<Rightarrow>
      s_set bl keyA val Minute (\<lambda>x.
      s_wantValue bl keyA (bytes_of ''original'') pass (bl_copy bl val (bytes_of ''XXXXXXXX'') x)) x)"

definition getDoesNotExposeTheStoredBytes :: "'x byte_lab \<Rightarrow> 'x test" where
  "getDoesNotExposeTheStoredBytes bl x =
     (case bl_make bl (bytes_of ''original'') x of (val, x) \<Rightarrow>
      s_set bl keyA val Minute (\<lambda>x.
      case bl_Get bl keyA x of
        (Inl _, x) \<Rightarrow> Some False
      | (Inr got, x) \<Rightarrow>
          s_wantValue bl keyA (bytes_of ''original'') pass
            (case got of None \<Rightarrow> x | Some got \<Rightarrow> bl_copy bl got (bytes_of ''YYYYYYYY'') x)) x)"

definition mem_byte_lab :: "bstore byte_lab" where
  "mem_byte_lab = \<lparr>
     bl_Set = (\<lambda>k v ttl s. go (bmem_Set None k v ttl s) (Some nil_panic) s),
     bl_Get = (\<lambda>k s. go (bmem_Get None k s) (Inl nil_panic) s),
     bl_make = append_nil,
     bl_copy = (\<lambda>v src s. s\<lparr>b_mem := sl_copy v src (b_mem s)\<rparr>),
     bl_read = (\<lambda>v s. sl_read (b_mem s) v)\<rparr>"

lemmas byte_lab = mem_byte_lab_def go_def

text \<open>The rules of \<open>MemoryConforms\<close> for the values, through the view.\<close>

lemma s_set_rule:
  assumes "apart C s" "hold r (Suc n) M T d (view s)" "0 < ttl" "length k + length (sl_read (b_mem s) v) \<le> 512"
    "\<And>x t. T + ttl \<le> x \<Longrightarrow> apart C t \<Longrightarrow> hold r n (M(k \<mapsto> (sl_read (b_mem s) v, x))) T d (view t) \<Longrightarrow> K t = Some True"
  shows "s_set mem_byte_lab k v ttl K s = Some True"
proof -
  obtain x s' where h: "st_Set (lb_Store mem_lab) Background k (sl_read (b_mem s) v) ttl (view s) = (None, s')" "T + ttl \<le> x"
    "hold r n (M(k \<mapsto> (sl_read (b_mem s) v, x))) T d s'" using hold_Set [OF assms(2-4)] by metis
  then have m: "mem_Set None k (sl_read (b_mem s) v) ttl (view s) = Some (None, s')"
    by (auto simp: lab go_def split: option.splits)
  obtain t where "bmem_Set None k v ttl s = Some (None, t)" "s' = view t" "apart C t"
    by (rule b_simE [OF Set_bytes [OF assms(1), of None k v ttl]]) (use m in auto)
  then show ?thesis using assms(5) [OF h(2)] h(3) by (simp add: s_set_def byte_lab require_def)
qed

lemma s_get:
  assumes "apart C s" "hold r n M T d (view s)" "lives M T k b"
  obtains v t where "bl_Get mem_byte_lab k s = (Inr (Some v), t)" "sl_read (b_mem t) v = b"
    "apart (insert (sl_arr v) C) t" "hold r n M T d (view t)"
proof -
  obtain s' where h: "st_Get (lb_Store mem_lab) Background k (view s) = (Inr (Some b), s')" "hold r n M T d s'"
    using hold_Get(2) [OF assms(2,3)] by blast
  then have m: "mem_Get None k (view s) = Some (Inr (Some b), s')"
    by (auto simp: lab go_def split: option.splits)
  show thesis
  proof (rule b_simE [OF Get_bytes [OF assms(1), of None k]])
    fix g t
    assume g: "bmem_Get None k s = Some (g, t)" "mem_Get None k (view s) = Some (map_sum id (read_opt (b_mem t)) g, view t)"
      "apart (C \<union> get_own g) t"
    then obtain v where "g = Inr (Some v)" "sl_read (b_mem t) v = b" "s' = view t"
      using m by (cases g) (auto simp: eq_commute [of "Some b"])
    with g h(2) show thesis by (intro that [of v t]) (simp_all add: byte_lab arrs_def)
  qed (use m in simp)
qed

lemma s_wantValue_rule:
  assumes "apart C s" "hold r n M T d (view s)" "lives M T k b"
  shows "s_wantValue mem_byte_lab k b pass s = Some True"
  by (rule s_get [OF assms]) (simp add: s_wantValue_def require_def pass_def, simp add: mem_byte_lab_def)

lemma original [simp]: "length (bytes_of ''original'') = 8"
  by (simp add: bytes_of_def)

lemma make_original:
  assumes "apart {} s"
  obtains v t where "bl_make mem_byte_lab (bytes_of ''original'') s = (v, t)" "view t = view s"
    "apart (insert (sl_arr v) {}) t" "sl_read (b_mem t) v = bytes_of ''original''"
proof -
  obtain v t where m: "append_nil (bytes_of ''original'') s = (v, t)" by (cases "append_nil (bytes_of ''original'') s")
  from append_nil_apart(1,2,4) [OF assms m] m show thesis by (intro that [of v t]) (simp_all add: mem_byte_lab_def)
qed

lemma copy_rule:
  assumes "apart C s" "sl_arr v \<in> C"
  shows "apart C (bl_copy mem_byte_lab v src s) \<and> view (bl_copy mem_byte_lab v src s) = view s"
  using copy_apart [OF assms, of src] by (simp add: mem_byte_lab_def)

lemma test_sharing:
  assumes A: "apart {} s" and h: "hold r 500 Map.empty T 0 (view s)"
  shows "setDoesNotRetainTheCallersSlice mem_byte_lab s = Some True"
    "getDoesNotExposeTheStoredBytes mem_byte_lab s = Some True"
proof -
  obtain v t where m: "bl_make mem_byte_lab (bytes_of ''original'') s = (v, t)" "view t = view s"
    "apart {sl_arr v} t" "sl_read (b_mem t) v = bytes_of ''original''" using make_original [OF A] by blast
  have ht: "hold r (Suc 499) Map.empty T 0 (view t)" using h m(2) by simp
  have small: "length keyA + length (sl_read (b_mem t) v) \<le> 512" by (simp add: m(4) keyA_def)
  have minute: "0 < Minute" by (simp add: times)
  have live: "lives [keyA \<mapsto> (bytes_of ''original'', x)] T keyA (bytes_of ''original'')" if "T + Minute \<le> x" for x
    using that by (simp add: times)
  have "s_set mem_byte_lab keyA v Minute (\<lambda>x. s_wantValue mem_byte_lab keyA (bytes_of ''original'') pass
      (bl_copy mem_byte_lab v (bytes_of ''XXXXXXXX'') x)) t = Some True"
  proof (rule s_set_rule [OF m(3) ht minute small])
    fix x u assume u: "T + Minute \<le> x" "apart {sl_arr v} u"
      "hold r 499 [keyA \<mapsto> (sl_read (b_mem t) v, x)] T 0 (view u)"
    show "s_wantValue mem_byte_lab keyA (bytes_of ''original'') pass
        (bl_copy mem_byte_lab v (bytes_of ''XXXXXXXX'') u) = Some True"
      by (rule s_wantValue_rule [OF _ _ live [OF u(1)]])
        (use copy_rule [OF u(2), of v "bytes_of ''XXXXXXXX''"] u(3) m(4) in auto)
  qed
  then show "setDoesNotRetainTheCallersSlice mem_byte_lab s = Some True"
    by (simp add: setDoesNotRetainTheCallersSlice_def m(1))
  have "s_set mem_byte_lab keyA v Minute (\<lambda>x.
      case bl_Get mem_byte_lab keyA x of
        (Inl _, x) \<Rightarrow> Some False
      | (Inr got, x) \<Rightarrow>
          s_wantValue mem_byte_lab keyA (bytes_of ''original'') pass
            (case got of None \<Rightarrow> x | Some got \<Rightarrow> bl_copy mem_byte_lab got (bytes_of ''YYYYYYYY'') x)) t = Some True"
  proof (rule s_set_rule [OF m(3) ht minute small])
    fix x u assume u: "T + Minute \<le> x" "apart {sl_arr v} u"
      "hold r 499 [keyA \<mapsto> (sl_read (b_mem t) v, x)] T 0 (view u)"
    obtain g w where g: "bl_Get mem_byte_lab keyA u = (Inr (Some g), w)" "apart (insert (sl_arr g) {sl_arr v}) w"
      "hold r 499 [keyA \<mapsto> (bytes_of ''original'', x)] T 0 (view w)"
      by (rule s_get [OF u(2,3) live [OF u(1), folded m(4)]]) (use m(4) in auto)
    have "s_wantValue mem_byte_lab keyA (bytes_of ''original'') pass
        (bl_copy mem_byte_lab g (bytes_of ''YYYYYYYY'') w) = Some True"
      by (rule s_wantValue_rule [OF _ _ live [OF u(1)]])
        (use copy_rule [OF g(2), of g "bytes_of ''YYYYYYYY''"] g(3) in auto)
    then show "(case bl_Get mem_byte_lab keyA u of
        (Inl _, x) \<Rightarrow> Some False
      | (Inr got, x) \<Rightarrow>
          s_wantValue mem_byte_lab keyA (bytes_of ''original'') pass
            (case got of None \<Rightarrow> x | Some got \<Rightarrow> bl_copy mem_byte_lab got (bytes_of ''YYYYYYYY'') x)) = Some True"
      by (simp add: g(1))
  qed
  then show "getDoesNotExposeTheStoredBytes mem_byte_lab s = Some True"
    by (simp add: getDoesNotExposeTheStoredBytes_def m(1))
qed

section \<open>Properties\<close>

definition byte_store :: bstore where
  "byte_store = projr (bmem_New (\<lambda>_. 0) two_draws [])"

lemma byte_New: "bmem_New (\<lambda>_. 0) two_draws [] = Inr byte_store"
  by (simp add: byte_store_def bmem_New_def DefaultMaxEntries_def DefaultMaxBytes_def Let_def)

lemma byte_limits: "500 \<le> b_maxEntries byte_store" "256000 \<le> b_maxBytes byte_store"
  by (simp_all add: byte_store_def bmem_New_def DefaultMaxEntries_def DefaultMaxBytes_def Let_def)

lemma New_values: "bmem_New clk r opts = Inr s \<Longrightarrow> mem_New clk r opts = Inr (view s)"
  by (simp add: New_view)

text \<open>C14. Callers never share bytes with the in-process store.  Take any calls of its five methods, with the caller
  writing in between into any slice it has: the ones it passed to \<open>Set\<close>, the ones it was given, and what it cut
  from them.  No call panics, and every answer is, byte for byte, the one of the store of values
  for the same calls with the bytes the slices held at each call.\<close>

theorem callers_share_no_bytes:
  assumes "bmem_New clk rnd opts = Inr s"
  shows "mem_New clk rnd opts = Inr (view s) \<and>
    (\<exists>log vs t. caller_run acts [] s = Some (log, vs, t) \<and> mem_run (map fst log) (view s) = Some (map snd log, view t))"
  using caller_run_as_values [OF New_apart [OF assms] New_rel [OF New_values [OF assms]]] New_values [OF assms] by blast

theorem callers_share_no_bytes_witness:
  "mem_New (\<lambda>_. 0) two_draws [] = Inr (view byte_store) \<and>
    (\<exists>log vs t. caller_run [Make [1, 2], CallSet None ''k'' 0 10, Copy 0 [7], CallGet None ''k'', Copy 1 [8], CallGet None ''k'']
        [] byte_store = Some (log, vs, t)
      \<and> mem_run (map fst log) (view byte_store) = Some (map snd log, view t))"
  by (rule callers_share_no_bytes [OF byte_New])

text \<open>A store that \<open>memory.New\<close> made with room for a test passes the two tests of \<open>cisterntest\<close> on byte sharing: it
  does not keep the slice given to \<open>Set\<close>, and \<open>Get\<close> does not expose the stored bytes.\<close>

theorem mem_passes_byte_tests:
  assumes "bmem_New clk r opts = Inr s" "steady clk" "good_draws r" "500 \<le> b_maxEntries s" "256000 \<le> b_maxBytes s"
  shows "setDoesNotRetainTheCallersSlice mem_byte_lab s = Some True \<and> getDoesNotExposeTheStoredBytes mem_byte_lab s = Some True"
proof -
  have "fresh_store r (view s)" using New_fresh [OF New_values [OF assms(1)] assms(2,3)] assms(4,5) by simp
  then obtain T where "hold r 500 Map.empty T 0 (view s)" unfolding fresh_store_def by blast
  moreover have "apart {} s" using New_apart [OF assms(1)] by (simp add: apart_from_def)
  ultimately show ?thesis using test_sharing by blast
qed

theorem mem_passes_byte_tests_witness:
  "setDoesNotRetainTheCallersSlice mem_byte_lab byte_store = Some True
    \<and> getDoesNotExposeTheStoredBytes mem_byte_lab byte_store = Some True"
  by (rule mem_passes_byte_tests [OF byte_New test_store_ready(1,2) byte_limits])

end
