(* ===== verification/BusConforms.thy ===== *)
theory BusConforms
  imports Conformance Bus
begin

text \<open>
  \<open>cisterntest/bus.go\<close>: the conformance suite for buses, as programs on any bus, and the proof that \<open>Local\<close> passes it
  whatever the order in which Go visits its subscribers.  Tests are those of \<open>Conformance\<close>, and their state holds the
  collectors beside the medium.  The concurrent calls of \<open>unsubscribe\<close> are calls one after the other here; what
  they do concurrently on a Redis bus is in \<open>RedisSubscription\<close>.
\<close>

section \<open>Collectors\<close>

text \<open>The events of a collector, and how many tokens its channel holds.  The channel has room for 64, more than
  any test delivers.\<close>

record collector =
  co_events :: "Event list"
  co_got :: nat

definition newCollector :: collector where
  "newCollector = \<lparr>co_events = [], co_got = 0\<rparr>"

type_synonym collectors = "nat \<Rightarrow> collector"

definition co_handle :: "nat \<Rightarrow> Event \<Rightarrow> collectors \<Rightarrow> collectors" where
  "co_handle i e cs = cs(i := \<lparr>co_events = co_events (cs i) @ [e], co_got = Suc (co_got (cs i))\<rparr>)"

section \<open>The suite\<close>

text \<open>A handle on the medium.  \<open>bh_Subscribe\<close> is given the number of the collector whose \<open>handle\<close> it registers.\<close>

record 'm handle =
  bh_Publish :: "ctx \<Rightarrow> Event \<Rightarrow> 'm \<times> collectors \<Rightarrow> error option \<times> 'm \<times> collectors"
  bh_Subscribe :: "nat \<Rightarrow> 'm \<times> collectors \<Rightarrow> int result \<times> 'm \<times> collectors"
  bh_Unsubscribe :: "int \<Rightarrow> 'm \<times> collectors \<Rightarrow> 'm \<times> collectors"

text \<open>Two handles, a cancelled context, and what goes on while a test waits for a token of a collector, until it
  has one or the five seconds are over.\<close>

record 'm bus_lab =
  bl_a :: "'m handle"
  bl_b :: "'m handle"
  bl_cancelled :: ctx
  bl_await :: "nat \<Rightarrow> 'm \<times> collectors \<Rightarrow> 'm \<times> collectors"

definition tagEvent :: Event where
  "tagEvent = \<lparr>Namespace = ''cisterntest'', ev_Kind = KindTag, Name = ''user:42:lists''\<rparr>"

definition keyEvent :: Event where
  "keyEvent = \<lparr>Namespace = ''cisterntest'', ev_Kind = KindKey, Name = keyA\<rparr>"

fun waitFor :: "'m bus_lab \<Rightarrow> nat \<Rightarrow> nat \<Rightarrow> (Event list \<Rightarrow> ('m \<times> collectors) test) \<Rightarrow> ('m \<times> collectors) test" where
  "waitFor lb i 0 k x = k (co_events (snd x i)) x"
| "waitFor lb i (Suc n) k x =
     (case bl_await lb i x of (m, cs) \<Rightarrow>
        if co_got (cs i) = 0 then fail (m, cs)
        else waitFor lb i n k (m, cs(i := (cs i)\<lparr>co_got := co_got (cs i) - 1\<rparr>)))"

definition t_subscribe :: "'m handle \<Rightarrow> nat \<Rightarrow> (int \<Rightarrow> ('m \<times> collectors) test) \<Rightarrow> ('m \<times> collectors) test" where
  "t_subscribe b i k x = (case bh_Subscribe b i x of (Inl err, x) \<Rightarrow> fail x | (Inr unsubscribe, x) \<Rightarrow> k unsubscribe x)"

definition t_publish :: "'m handle \<Rightarrow> Event \<Rightarrow> ('m \<times> collectors) test \<Rightarrow> ('m \<times> collectors) test" where
  "t_publish b e k x = (case bh_Publish b Background e x of (err, x) \<Rightarrow> require (err = None) k x)"

definition collecting :: "nat \<Rightarrow> ('m \<times> collectors) test \<Rightarrow> ('m \<times> collectors) test" where
  "collecting i k x = k (fst x, (snd x)(i := newCollector))"

definition deliversAcrossInstances :: "'m bus_lab \<Rightarrow> ('m \<times> collectors) test" where
  "deliversAcrossInstances lb =
     collecting 0 (
     t_subscribe (bl_b lb) 0 (\<lambda>_.
     t_publish (bl_a lb) tagEvent (
     t_publish (bl_a lb) keyEvent (
     waitFor lb 0 2 (\<lambda>got. require (tagEvent \<in> set got \<and> keyEvent \<in> set got) pass)))))"

definition deliversToEverySubscriber :: "'m bus_lab \<Rightarrow> ('m \<times> collectors) test" where
  "deliversToEverySubscriber lb =
     collecting 0 (collecting 1 (
     t_subscribe (bl_b lb) 0 (\<lambda>_.
     t_subscribe (bl_b lb) 1 (\<lambda>_.
     t_publish (bl_a lb) tagEvent (
     waitFor lb 0 1 (\<lambda>_.
     waitFor lb 1 1 (\<lambda>_. pass)))))))"

definition unsubscribeStopsDelivery :: "'m bus_lab \<Rightarrow> ('m \<times> collectors) test" where
  "unsubscribeStopsDelivery lb =
     collecting 0 (collecting 1 (
     t_subscribe (bl_b lb) 0 (\<lambda>unsubscribe.
     t_subscribe (bl_b lb) 1 (\<lambda>_ x.
     t_publish (bl_a lb) tagEvent (
     t_publish (bl_a lb) keyEvent (
     waitFor lb 1 2 (\<lambda>_ x. require (co_events (snd x 0) = []) pass x)))
     ((bh_Unsubscribe (bl_b lb) unsubscribe ^^ 3) x)))))"

definition cancelledPublishIsAnError :: "'m bus_lab \<Rightarrow> ('m \<times> collectors) test" where
  "cancelledPublishIsAnError lb x =
     (case bh_Publish (bl_a lb) (bl_cancelled lb) tagEvent x of (err, x) \<Rightarrow> require (err \<noteq> None) pass x)"

definition RunBus :: "'m bus_lab \<Rightarrow> (string \<times> ('m \<times> collectors) test) list" where
  "RunBus lb =
     [(''DeliversAcrossInstances'', deliversAcrossInstances lb),
      (''DeliversToEverySubscriber'', deliversToEverySubscriber lb),
      (''UnsubscribeStopsDelivery'', unsubscribeStopsDelivery lb),
      (''CancelledPublishIsAnError'', cancelledPublishIsAnError lb)]"

section \<open>The in-process bus\<close>

text \<open>\<open>Local\<close> twice, with the contexts' errors and the order in which the map is visited as parameters.  It
  delivers before \<open>Publish\<close> returns, so that nothing happens while a test waits.\<close>

definition local_handle :: "(ctx \<Rightarrow> error option) \<Rightarrow> (collectors \<Rightarrow> collectors Local \<Rightarrow> int list) \<Rightarrow> collectors Local handle" where
  "local_handle ce ord = \<lparr>
     bh_Publish = (\<lambda>ctx e (l, cs). case Local_Publish (ce ctx) e (ord cs l) l cs of (err, cs) \<Rightarrow> (err, l, cs)),
     bh_Subscribe = (\<lambda>i (l, cs). case Local_Subscribe (Some (co_handle i)) l of (r, l) \<Rightarrow> (r, l, cs)),
     bh_Unsubscribe = (\<lambda>n (l, cs). (Local_unsubscribe n l, cs))\<rparr>"

definition local_lab :: "(ctx \<Rightarrow> error option) \<Rightarrow> (collectors \<Rightarrow> collectors Local \<Rightarrow> int list) \<Rightarrow> ctx \<Rightarrow> collectors Local bus_lab" where
  "local_lab ce ord cancelled =
     \<lparr>bl_a = local_handle ce ord, bl_b = local_handle ce ord, bl_cancelled = cancelled, bl_await = (\<lambda>i x. x)\<rparr>"

text \<open>A bus whose subscribers are handlers of collectors.\<close>

definition bus_with :: "int \<Rightarrow> (int \<rightharpoonup> nat) \<Rightarrow> collectors Local" where
  "bus_with n M = \<lparr>lo_next = n, lo_subs = map_option co_handle \<circ> M\<rparr>"

lemma NewLocal_with: "NewLocal = bus_with 0 Map.empty"
  by (simp add: NewLocal_def bus_with_def comp_def)

lemma bus_with_Subscribe: "Local_Subscribe (Some (co_handle c)) (bus_with n M) = (Inr n, bus_with (n + 1) (M(n \<mapsto> c)))"
  by (simp add: Local_Subscribe_def bus_with_def fun_eq_iff)

lemma bus_with_unsubscribe: "Local_unsubscribe i (bus_with n M) = bus_with n (M(i := None))"
  by (simp add: Local_unsubscribe_def bus_with_def fun_eq_iff)

text \<open>What one publication does: each subscribed collector has the event once more.\<close>

definition collected :: "Event \<Rightarrow> nat set \<Rightarrow> collectors \<Rightarrow> collectors" where
  "collected e C cs = (\<lambda>c. if c \<in> C then \<lparr>co_events = co_events (cs c) @ [e], co_got = Suc (co_got (cs c))\<rparr> else cs c)"

lemma fold_collects:
  "distinct is \<Longrightarrow> inj_on f (set is) \<Longrightarrow> fold (\<lambda>i. co_handle (f i) e) is cs = collected e (f ` set is) cs"
proof (induction "is" arbitrary: cs)
  case (Cons i "is")
  then show ?case by (auto simp: co_handle_def collected_def fun_eq_iff inj_on_def)
qed (simp add: collected_def)

lemma bus_with_Publish:
  assumes "map_order (bus_with n M) os" "inj_on M (dom M)"
  shows "Local_Publish None e os (bus_with n M) cs = (None, collected e (ran M) cs)"
proof -
  have os: "distinct os" "set os = dom M" using assms(1) by (auto simp: map_order_def bus_with_def)
  have h: "the (lo_subs (bus_with n M) i) = co_handle (the (M i))" if "i \<in> set os" for i
    using that os(2) by (auto simp: bus_with_def)
  have "inj_on (\<lambda>i. the (M i)) (set os)" 
    using assms(2) os(2) unfolding inj_on_def by (metis domIff option.expand)
  moreover have "(\<lambda>i. the (M i)) ` set os = ran M" using os(2) by (force simp: ran_def)
  moreover have "fold (\<lambda>h. h e) (map (\<lambda>i. the (lo_subs (bus_with n M) i)) os) cs = fold (\<lambda>i. co_handle (the (M i)) e) os cs"
    unfolding fold_map comp_def by (rule fold_cong) (use h in auto)
  ultimately show ?thesis using fold_collects [OF os(1)] by (simp add: Local_Publish_def)
qed

lemma bus_with_ids: "finite (dom M) \<Longrightarrow> \<forall>i \<in> dom M. i < n \<Longrightarrow> ids_ok (bus_with n M)"
  by (simp add: bus_with_def ids_ok_def)

section \<open>Local passes\<close>

definition visits :: "(collectors \<Rightarrow> collectors Local \<Rightarrow> int list) \<Rightarrow> bool" where
  "visits ord \<longleftrightarrow> (\<forall>cs l. ids_ok l \<longrightarrow> map_order l (ord cs l))"

lemma passes_RunBus:
  assumes o: "visits ord" and ce: "ce Background = None" "ce cancelled \<noteq> None"
    and test: "(name, test) \<in> set (RunBus (local_lab ce ord cancelled))"
  shows "test (NewLocal, cs) = Some True"
proof -
  let ?lb = "local_lab ce ord cancelled"
  have pub: "Local_Publish (ce Background) e (ord cs (bus_with n M)) (bus_with n M) cs = (None, collected e (ran M) cs)"
    if "finite (dom M)" "\<forall>i \<in> dom M. i < n" "inj_on M (dom M)" for e n M cs
    using bus_with_Publish [OF _ that(3)] o bus_with_ids [OF that(1,2)] ce(1) by (simp add: visits_def)
  note run = NewLocal_with local_lab_def local_handle_def collecting_def t_subscribe_def t_publish_def bus_with_Subscribe
    bus_with_unsubscribe pub collected_def newCollector_def require_def pass_def inj_on_def numeral_2_eq_2 numeral_3_eq_3
  have "deliversAcrossInstances ?lb (NewLocal, cs) = Some True"
    by (simp add: deliversAcrossInstances_def run)
  moreover have "deliversToEverySubscriber ?lb (NewLocal, cs) = Some True"
    by (simp add: deliversToEverySubscriber_def run)
  moreover have "unsubscribeStopsDelivery ?lb (NewLocal, cs) = Some True"
    by (simp add: unsubscribeStopsDelivery_def run)
  moreover have "cancelledPublishIsAnError ?lb (NewLocal, cs) = Some True"
    using ce(2) by (auto simp: cancelledPublishIsAnError_def local_lab_def local_handle_def Local_Publish_def require_def pass_def)
  ultimately show ?thesis using test by (auto simp: RunBus_def)
qed


section \<open>Properties\<close>

text \<open>C35. The in-process bus passes every test of \<open>cisterntest.RunBus\<close>, in whatever order a publication visits the
  subscribers.\<close>

theorem Local_passes_RunBus:
  assumes "visits ord" "ce Background = None" "ce cancelled \<noteq> None"
    and "(name, test) \<in> set (RunBus (local_lab ce ord cancelled))"
  shows "test (NewLocal, \<lambda>_. newCollector) = Some True"
  by (rule passes_RunBus [OF assms])

text \<open>Visiting in ascending order, and a context that is cancelled.\<close>

definition ascending :: "collectors \<Rightarrow> collectors Local \<Rightarrow> int list" where
  "ascending cs l = sorted_list_of_set (dom (lo_subs l))"

definition one_cancelled :: "ctx \<Rightarrow> error option" where
  "one_cancelled ctx = (if ctx = Background then None else Some (Sentinel ''context canceled''))"

lemma ascending_visits: "visits ascending"
  by (simp add: visits_def ascending_def map_order_def ids_ok_def)

theorem Local_passes_RunBus_witness:
  "unsubscribeStopsDelivery (local_lab one_cancelled ascending (Caller 0)) (NewLocal, \<lambda>_. newCollector) = Some True"
proof (rule Local_passes_RunBus [OF ascending_visits])
  show "(''UnsubscribeStopsDelivery'', unsubscribeStopsDelivery (local_lab one_cancelled ascending (Caller 0)))
      \<in> set (RunBus (local_lab one_cancelled ascending (Caller 0)))"
    by (simp add: RunBus_def)
qed (simp_all add: one_cancelled_def)

end
