(* ===== verification/Spec2Isabelle.thy ===== *)
theory Spec2Isabelle
  imports Singleflight TagFleet Adapters RedisSubscription FleetRedis Examples BytesConforms BusConforms
begin

text \<open>
  A verification library for cistern, a Go library: a typed cache in front of an in-process level (L1), a
  shared level (L2) or both, with single-flight loading, tag invalidation and an invalidation bus.  All
  file names below are under \<open>src/\<close>.

  The program and its parts.  \<open>New\<close> (\<open>cache.go\<close>) builds a \<open>Cache\<close> from options (\<open>options.go\<close>).  \<open>Get\<close> and
  \<open>GetOrLoad\<close> turn the consumer's key into a physical key (\<open>keys.go\<close>), read the levels in order, accept
  an entry only if its envelope (\<open>internal/envelope\<close>) decodes, is unexpired and carries the current
  generations of its tags (\<open>tags.go\<close>, with a local copy in \<open>gencache.go\<close>), and else run the loader once
  for all concurrent callers (\<open>internal/singleflight\<close>).  \<open>Set\<close>, \<open>Delete\<close> and \<open>InvalidateTag\<close> write both
  levels, authoritative first, and publish an event (\<open>events.go\<close>, \<open>bus\<close>); every call reports to hooks
  (\<open>hooks.go\<close>).  Stores, codecs and buses are interfaces (\<open>store.go\<close>, \<open>tagstore.go\<close>, \<open>codec\<close>, \<open>bus\<close>);
  \<open>memory\<close> is the in-process store, \<open>redisstore\<close> the one over Redis, with a bus over its channels;
  \<open>cisterntest\<close> holds the tests an implementation of an interface must pass, \<open>examples\<close> two consumers.

  The theories, and the code each models.
  \<^item> \<open>Prelude\<close>: integers, errors (\<open>errors.Is\<close>, \<open>errors.Join\<close>, \<open>%w\<close>), bytes, and the weakest
    preconditions of the state monad; \<open>Errors\<close>: \<open>errors.go\<close>.
  \<^item> \<open>Envelope\<close>: \<open>Encode\<close>, \<open>Decode\<close> and \<open>check\<close>, byte by byte.  Decode accepts exactly what Encode writes.
  \<^item> \<open>Sha256\<close>, \<open>Keys\<close>: \<open>keys.go\<close>, \<open>genKey\<close>, \<open>eventKey\<close>, with UTF-8 validation, SHA-256 and hex written
    out.  Physical keys separate name spaces, kinds and consumer keys.
  \<^item> \<open>GenCache\<close>, \<open>Generation\<close>: \<open>gencache.go\<close>, \<open>NewGeneration\<close>.  A method holds the mutex throughout, so
    an execution is a sequence of operations; no generation read before a drop is stored after it.
  \<^item> \<open>Memory\<close>: \<open>memory/memory.go\<close> on an explicit heap of nodes, a nil dereference being \<open>None\<close>;
    \<open>MemoryRing\<close>: the doubly linked ring; \<open>Lru\<close>: the store as a list, most recently used first;
    \<open>MemoryRefine\<close>, \<open>MemoryCalls\<close>: every method refines it; \<open>MemorySpec\<close>: what follows for every
    sequence of calls on a store \<open>New\<close> built.
  \<^item> \<open>MemoryBytes\<close>: the same code with a \<open>[]byte\<close> as a slice of an array, in one memory that the store shares with its
    callers; \<open>BytesRefine\<close>: it refines \<open>Memory\<close>, as no slice of the store lies in an array a caller has;
    \<open>BytesConforms\<close>: callers that write into any slice they have do not change an answer (\<open>docs/adr/0014\<close>), and the two
    tests of \<open>cisterntest\<close> on byte sharing.  An array is as long as what was appended to nil: only slices of
    the same array reach the spare capacity Go may give it.
  \<^item> \<open>Singleflight\<close>: \<open>Do\<close>, \<open>run\<close>, \<open>Waiting\<close> as a transition system with one action per block of a
    goroutine that the others cannot interrupt; the properties are invariants of all reachable states.
  \<^item> \<open>Bus\<close>: \<open>Event\<close>, \<open>Local\<close> and \<open>check\<close>; \<open>BusWire\<close>: \<open>bus.Encode\<close> and \<open>bus.Decode\<close>, with the JSON they
    use written out.
  \<^item> \<open>World\<close>: the interfaces as records of operations on an arbitrary outside state, the hook events, and
    the state monad of the cache over that state, the local generations and the trace of hook calls.
  \<^item> \<open>Float64\<close>, \<open>Config\<close>: the rounding of a jittered TTL; \<open>options.go\<close> and \<open>validate\<close>, \<open>tagging\<close>.
  \<^item> \<open>Cache\<close>: every function of \<open>cache.go\<close>, \<open>tags.go\<close>, \<open>events.go\<close> and the senders of \<open>hooks.go\<close>.
  \<^item> \<open>CacheKeeps\<close> (what all operations keep), \<open>CacheRead\<close>, \<open>CacheProps\<close> (what a read returns, lifetimes),
    \<open>CacheLoad\<close> (loading and writing), \<open>CacheEvents\<close> (\<open>New\<close>, events, tag invalidation): properties for
    arbitrary stores, codecs, clocks and loaders.
  \<^item> \<open>StoreLaws\<close>: the contracts of \<open>Store\<close> and \<open>TagStore\<close> as locales, interpreted on the in-process store;
    \<open>TwoLevels\<close>, \<open>TwoLevelRuns\<close>: the cache over any two stores that keep the contract; \<open>MemoryCache\<close>: the
    same for two in-process stores, by interpretation.
  \<^item> \<open>Redis\<close>: every method of \<open>redisstore.go\<close>, \<open>tagstore.go\<close> and \<open>bus.go\<close> over a client that is a record of
    calls; \<open>RedisLaws\<close>: what a Redis server and a guard promise, as locales, and that the store then
    keeps the contract of \<open>StoreLaws\<close>; \<open>RedisServer\<close>: a small server, which interprets them; \<open>RedisCache\<close>: the cache
    over memory and Redis, and the bounded calls; \<open>RedisCounters\<close>: what a \<open>Bump\<close> does to a generation.
  \<^item> \<open>TagRace\<close>: what it means for every call of a cache that a counter has left a generation behind, as a locale over
    any stores; \<open>RedisTags\<close>: its interpretation with Redis as L2.  The cache-aside race is closed for tags
    (\<open>docs/adr/0011\<close>): calls, late writes of suspended loads and operations of other replicas are steps of one
    sequence, and a counter may expire or be lost at any of them.  The bound \<open>N\<close> is the number of steps; a counter
    that starts again is assumed to draw at least that far from the old generation, one of \<open>2 ^ 62\<close>.
    \<open>TagFleet\<close>: the same for an invalidation by another replica, with its event or within one lifetime of L1.
    A call is one step here too; a read whose \<open>put\<close> comes after the drop is the property of \<open>GenCache\<close>.
  \<^item> \<open>RedisSubscription\<close>: \<open>Subscribe\<close> of \<open>redisstore/bus.go\<close>, its two goroutines and the callers of \<open>unsubscribe\<close> as a
    step relation: what the handler is given, that it is not called after \<open>unsubscribe\<close>, that the wait is
    bounded and that nothing is left running.
  \<^item> \<open>TimedStores\<close>: how long a store may still return a value, as a locale, interpreted on the in-process store;
    \<open>Fleet\<close>: several replicas with one configuration, an L1 each, a common L2 and a bus that delivers late or
    not at all, as a locale over any levels; \<open>FleetRedis\<close>: the fleet with in-process stores and one Redis.  A
    deletion reaches every replica with its event, and a lost event costs at most one lifetime of L1.
    A call or a delivery is one step of the fleet: calls of different replicas do not overlap.
  \<^item> \<open>CacheTouches\<close>: what every call of a cache keeps of the outside; \<open>Adapters\<close>: \<open>codec.JSON\<close>, the guard over a circuit
    breaker and the uncacheable type of \<open>examples\<close>, and what an open breaker means for a cache over Redis.
  \<^item> \<open>Conformance\<close>: the suites of \<open>cisterntest\<close> as programs on any implementation; \<open>MemoryConforms\<close>: the
    in-process store passes those for stores; \<open>BusConforms\<close>: the suite for buses, which \<open>Local\<close> passes.
  \<^item> \<open>Examples\<close>: the repository decorator of \<open>taskapi\<close> and the logging hooks of \<open>crierhooks\<close>.

  What is a parameter.  The outside state: clock, random draws, contexts' ends and the outcome of a flight
  are read from it through \<open>runtime\<close>, stores and loaders act on it.  A flight as the cache sees it is one
  of three outcomes (lead, give up, join); \<open>Singleflight\<close> shows what leads to each.  A codec is the two
  functions it has.  The conversion of an out-of-range float to an integer, which Go leaves to the
  platform, is an argument of \<open>scaled\<close>.

  Bounds and loops.  The eviction loop of the store is a \<open>partial_function\<close>, and the refinement shows it
  returns; every other loop is structural or has a termination proof, and there is no fuel.  Integers of
  Go are \<open>int\<close> with the range kept by an invariant or the wrap-around written out (\<open>wrap64\<close>, \<open>sat64\<close>),
  counters and generations are 64-bit words.

  Two simplifications that change nothing.  \<open>gens.put\<close> reads the clock also when it refuses the put, and the
  guard \<open>len(g.drops) > maxCachedGens\<close> of \<open>genCache.put\<close> never holds, as \<open>drop\<close> clears at that size; both
  are modelled as written.

  Not modelled.  What \<open>encoding/json\<close> does with an arbitrary type, and \<open>bastion.Do\<close>, are parameters.  The Redis client
  is not under \<open>src/\<close> and is a parameter; how its subscription reconnects is its own.  Data races are
  excluded by the mutexes the code holds, which is taken as read.
\<close>

end
